(* ===== verification/Prelude.thy ===== *)
theory Prelude
  imports Main "HOL-Library.Word" "HOL-Library.Multiset"
begin

text \<open>
  Shared vocabulary of the development: the Go types the responder uses (64-bit \<open>int\<close>,
  \<open>time.Time\<close>, \<open>time.Duration\<close>, byte strings), the few functions of the Go
  standard library that several components call (\<open>strings.ToLower\<close>,
  \<open>strings.HasPrefix\<close>, \<open>strings.TrimRight\<close>, \<open>strconv.Itoa\<close>), and the
  generic lemmas and fact collections on which the component proofs rest.

  A Go string is a list of bytes, here \<open>string\<close> (a list of 8-bit characters). Instants and
  durations are integers counting nanoseconds. A computation whose overflow can be reached
  from the program's inputs goes through \<open>wrap64\<close>; \<open>time.Time.Sub\<close> saturates as in
  the Go library.
\<close>

type_synonym bytes = string
type_synonym go_time = int
type_synonym duration = int

text \<open>The collections: unfoldings of library models, and guards of the state components.\<close>

named_theorems golib "definitions modelling the Go standard library"
named_theorems comp_inv "preservation of component invariants"

subsection \<open>64-bit integers, instants and durations\<close>

definition wrap64 :: "int \<Rightarrow> int" where
  "wrap64 x = (x + 2 ^ 63) mod 2 ^ 64 - 2 ^ 63"

definition sat64 :: "int \<Rightarrow> int" where
  "sat64 x = max (- (2 ^ 63)) (min (2 ^ 63 - 1) x)"

definition millisecond :: duration where "millisecond = 1000000"
definition second :: duration where "second = 1000 * millisecond"
definition minute :: duration where "minute = 60 * second"

lemmas duration_defs = millisecond_def second_def minute_def

text \<open>\<open>t.Sub(u)\<close>, and the zero value \<open>time.Time{}\<close> (1 January of year 1, UTC).\<close>

definition time_sub :: "go_time \<Rightarrow> go_time \<Rightarrow> duration" where
  "time_sub t u = sat64 (t - u)"

definition zero_time :: go_time where
  "zero_time = - (62135596800 * 1000000000)"

lemma wrap64_id [simp]: "- (2 ^ 63) \<le> x \<Longrightarrow> x < 2 ^ 63 \<Longrightarrow> wrap64 x = x"
  by (simp add: wrap64_def)

lemma wrap64_range: "- (2 ^ 63) \<le> wrap64 x \<and> wrap64 x < 2 ^ 63"
proof -
  have "0 \<le> (x + 2 ^ 63) mod 2 ^ 64" "(x + 2 ^ 63) mod 2 ^ 64 < (2::int) ^ 64"
    by simp_all
  then show ?thesis by (simp add: wrap64_def)
qed

text \<open>Saturation never changes how a difference compares with a small duration.\<close>

lemma time_sub_ge_iff:
  "- (2 ^ 63) < d \<Longrightarrow> d \<le> 2 ^ 63 - 1 \<Longrightarrow> d \<le> time_sub t u \<longleftrightarrow> u + d \<le> t"
  by (auto simp: time_sub_def sat64_def)

lemma time_sub_less_iff:
  "- (2 ^ 63) < d \<Longrightarrow> d \<le> 2 ^ 63 - 1 \<Longrightarrow> time_sub t u < d \<longleftrightarrow> t < u + d"
  using time_sub_ge_iff [of d t u] by linarith

subsection \<open>Decimal printing\<close>

fun dec_digits :: "nat \<Rightarrow> nat list" where
  "dec_digits n = (if n < 10 then [n] else dec_digits (n div 10) @ [n mod 10])"

declare dec_digits.simps [simp del]

definition digit_char :: "nat \<Rightarrow> char" where
  "digit_char d = char_of (48 + d)"

text \<open>\<open>strconv.Itoa\<close>, also the verb \<open>%d\<close> of \<open>fmt.Sprintf\<close>.\<close>

definition itoa :: "int \<Rightarrow> string" where
  "itoa i = (if i < 0 then CHR ''-'' # map digit_char (dec_digits (nat (- i)))
             else map digit_char (dec_digits (nat i)))"

lemma dec_digits_lt10: "d \<in> set (dec_digits n) \<Longrightarrow> d < 10"
proof (induction n arbitrary: d rule: dec_digits.induct)
  case (1 n)
  then show ?case
    by (cases "n < 10") (auto simp: dec_digits.simps [of n])
qed

lemma dec_digits_value: "foldl (\<lambda>a d. 10 * a + d) 0 (dec_digits n) = n"
proof (induction n rule: dec_digits.induct)
  case (1 n)
  show ?case
  proof (cases "n < 10")
    case False
    then show ?thesis using 1 by (simp add: dec_digits.simps [of n])
  qed (simp add: dec_digits.simps [of n])
qed

lemma dec_digits_inj: "dec_digits m = dec_digits n \<Longrightarrow> m = n"
  by (metis dec_digits_value)

lemma of_char_digit [simp]: "d < 10 \<Longrightarrow> of_char (digit_char d) = 48 + d"
  by (simp add: digit_char_def of_char_of)

lemma digit_char_inj: "d < 10 \<Longrightarrow> e < 10 \<Longrightarrow> digit_char d = digit_char e \<Longrightarrow> d = e"
  by (metis add_left_cancel of_char_digit)

lemma map_digit_char_inj:
  "\<forall>d \<in> set xs. d < 10 \<Longrightarrow> \<forall>d \<in> set ys. d < 10 \<Longrightarrow>
   map digit_char xs = map digit_char ys \<Longrightarrow> xs = ys"
proof (induction xs arbitrary: ys)
  case (Cons x xs)
  then show ?case by (cases ys) (auto dest: digit_char_inj)
qed simp

lemma digits_string_inj:
  "map digit_char (dec_digits m) = map digit_char (dec_digits n) \<Longrightarrow> m = n"
  by (meson dec_digits_inj dec_digits_lt10 map_digit_char_inj)

lemma digit_char_neq:
  assumes "d < 10" and "of_char c < (48::nat) \<or> 57 < (of_char c :: nat)"
  shows "digit_char d \<noteq> c"
proof
  assume "digit_char d = c"
  with assms(1) have "(of_char c :: nat) = 48 + d" by auto
  with assms show False by linarith
qed

lemma itoa_chars: "c \<in> set (itoa i) \<Longrightarrow> c = CHR ''-'' \<or> (\<exists>d < 10. c = digit_char d)"
  by (auto simp: itoa_def dest: dec_digits_lt10 split: if_splits)

lemma colon_notin_itoa: "CHR '':'' \<notin> set (itoa i)"
proof
  assume "CHR '':'' \<in> set (itoa i)"
  then obtain d where "d < 10" "digit_char d = CHR '':''"
    by (auto dest: itoa_chars)
  then show False using digit_char_neq [of d "CHR '':''"] by simp
qed

lemma hd_dec_digits: "map digit_char (dec_digits n) \<noteq> CHR ''-'' # xs"
proof
  assume "map digit_char (dec_digits n) = CHR ''-'' # xs"
  then obtain d where "d \<in> set (dec_digits n)" "digit_char d = CHR ''-''"
    by (cases "dec_digits n") auto
  then show False using dec_digits_lt10 digit_char_neq [of d "CHR ''-''"] by fastforce
qed

lemma itoa_inj: "itoa i = itoa j \<Longrightarrow> i = j"
  using hd_dec_digits [symmetric] hd_dec_digits
  by (auto simp: itoa_def dest!: digits_string_inj split: if_splits)

subsection \<open>Strings\<close>

text \<open>
  \<open>strings.ToLower\<close> on ASCII bytes. Names in a Zeus bundle and in a DNS question are
  ASCII; the case folding of letters beyond ASCII is outside the model.
\<close>

definition lower_char :: "char \<Rightarrow> char" where
  "lower_char c = (let n = of_char c :: nat in
     if 65 \<le> n \<and> n \<le> 90 then char_of (n + 32) else c)"

definition to_lower :: "string \<Rightarrow> string" where
  "to_lower s = map lower_char s"

definition has_prefix :: "string \<Rightarrow> string \<Rightarrow> bool" where
  "has_prefix s p \<longleftrightarrow> take (length p) s = p"

text \<open>\<open>strings.TrimRight(s, c)\<close> for a one-byte cutset.\<close>

definition trim_right :: "string \<Rightarrow> char \<Rightarrow> string" where
  "trim_right s c = rev (dropWhile (\<lambda>x. x = c) (rev s))"

lemma lower_char_idem [simp]: "lower_char (lower_char c) = lower_char c"
  by (auto simp: lower_char_def Let_def of_char_of)

lemma to_lower_idem [simp]: "to_lower (to_lower s) = to_lower s"
  by (simp add: to_lower_def)

lemma length_to_lower [simp]: "length (to_lower s) = length s"
  by (simp add: to_lower_def)

lemma to_lower_append [simp]: "to_lower (s @ t) = to_lower s @ to_lower t"
  by (simp add: to_lower_def)

lemma split_at_last_colon:
  assumes "a @ CHR '':'' # b = c @ CHR '':'' # d"
    and "CHR '':'' \<notin> set b" and "CHR '':'' \<notin> set d"
  shows "a = c \<and> b = d"
  using assms
  by (auto simp: append_eq_append_conv2 append_eq_Cons_conv Cons_eq_append_conv)

subsection \<open>Generic facts\<close>

text \<open>A filter by a stronger predicate is no longer.\<close>

lemma length_filter_mono:
  "(\<And>x. x \<in> set xs \<Longrightarrow> P x \<Longrightarrow> Q x) \<Longrightarrow> length (filter P xs) \<le> length (filter Q xs)"
  by (induction xs) auto

lemma find_Some_split: "find P xs = Some x \<Longrightarrow> x \<in> set xs \<and> P x"
  by (auto simp: find_Some_iff)

end
