(* ===== verification/Flags.thy ===== *)
theory Flags
  imports Prelude
begin

text \<open>
  The command line of \<^verbatim>\<open>cmd/zeus-gslb/main.go\<close>: the flags that \<open>main\<close> declares, and how
  the Go library's \<open>flag.Parse\<close> reads them. A flag has one or two dashes, its value follows an
  equals sign or is the next argument whatever that looks like, a boolean flag takes a value only
  after an equals sign, and parsing stops at the first argument that is no flag or at \<open>--\<close>.
\<close>

record flags =
  fl_mode :: string
  fl_listen :: string
  fl_bundle :: string
  fl_cacheDir :: string
  fl_version :: bool
  fl_zeusURL :: string
  fl_cluster :: string
  fl_token :: string

definition default_flags :: flags where
  "default_flags = \<lparr>fl_mode = ''responder'', fl_listen = '':5355'', fl_bundle = [], fl_cacheDir = [],
     fl_version = False, fl_zeusURL = [], fl_cluster = [], fl_token = []\<rparr>"

definition string_flags :: "(string \<times> (string \<Rightarrow> flags \<Rightarrow> flags)) list" where
  "string_flags =
     [(''mode'', \<lambda>v. fl_mode_update (\<lambda>_. v)), (''listen'', \<lambda>v. fl_listen_update (\<lambda>_. v)),
      (''bundle'', \<lambda>v. fl_bundle_update (\<lambda>_. v)), (''cache-dir'', \<lambda>v. fl_cacheDir_update (\<lambda>_. v)),
      (''zeus-url'', \<lambda>v. fl_zeusURL_update (\<lambda>_. v)), (''cluster'', \<lambda>v. fl_cluster_update (\<lambda>_. v)),
      (''token'', \<lambda>v. fl_token_update (\<lambda>_. v))]"

datatype flag_error =
  BadSyntax string
| NotDefined string
| NeedsArgument string
| InvalidBool string
| HelpRequested

text \<open>\<open>strconv.ParseBool\<close>.\<close>

definition parse_bool :: "string \<Rightarrow> bool option" where
  "parse_bool v =
     (if v \<in> set [''1'', ''t'', ''T'', ''true'', ''TRUE'', ''True''] then Some True
      else if v \<in> set [''0'', ''f'', ''F'', ''false'', ''FALSE'', ''False''] then Some False
      else None)"

text \<open>A name up to an equals sign that is not its first character, and the value after it.\<close>

definition cut_value :: "string \<Rightarrow> string \<times> string option" where
  "cut_value name =
     (let rest = dropWhile (\<lambda>c. c \<noteq> CHR ''='') (tl name) in
      (take 1 name @ takeWhile (\<lambda>c. c \<noteq> CHR ''='') (tl name),
       if rest = [] then None else Some (tl rest)))"

definition flag_name :: "string \<Rightarrow> string" where
  "flag_name s = (if take 2 s = ''--'' then drop 2 s else drop 1 s)"

fun parse_args :: "flags \<Rightarrow> string list \<Rightarrow> flag_error + flags \<times> string list" where
  "parse_args fl [] = Inr (fl, [])"
| "parse_args fl (s # args) =
     (if length s < 2 \<or> hd s \<noteq> CHR ''-'' then Inr (fl, s # args)
      else if s = ''--'' then Inr (fl, args)
      else if flag_name s = [] \<or> hd (flag_name s) \<in> set ''-='' then Inl (BadSyntax s)
      else
        (case cut_value (flag_name s) of
           (name, value) \<Rightarrow>
             (if name = ''version'' then
                (case value of
                   None \<Rightarrow> parse_args (fl\<lparr>fl_version := True\<rparr>) args
                 | Some v \<Rightarrow>
                     (case parse_bool v of
                        None \<Rightarrow> Inl (InvalidBool v)
                      | Some b \<Rightarrow> parse_args (fl\<lparr>fl_version := b\<rparr>) args))
              else
                (case map_of string_flags name of
                   None \<Rightarrow> Inl (if name = ''help'' \<or> name = ''h'' then HelpRequested else NotDefined name)
                 | Some put \<Rightarrow>
                     (case value of
                        Some v \<Rightarrow> parse_args (put v fl) args
                      | None \<Rightarrow>
                          (case args of
                             [] \<Rightarrow> Inl (NeedsArgument name)
                           | v # args' \<Rightarrow> parse_args (put v fl) args'))))))"

text \<open>The default flag set exits the process on an error: 0 after a request for help, else 2.\<close>

definition flag_exit :: "flag_error \<Rightarrow> nat" where
  "flag_exit e = (if e = HelpRequested then 0 else 2)"

subsection \<open>Writing a command line\<close>

text \<open>A spelling chooses, per flag, two dashes or one, and the equals sign or a separate argument.\<close>

type_synonym spelling = "string \<Rightarrow> bool \<times> bool"

definition dashes :: "spelling \<Rightarrow> string \<Rightarrow> string" where
  "dashes sp name = (if fst (sp name) then ''--'' else ''-'') @ name"

definition write_flag :: "spelling \<Rightarrow> string \<Rightarrow> string \<Rightarrow> string list" where
  "write_flag sp name v =
     (if snd (sp name) then [dashes sp name @ ''='' @ v] else [dashes sp name, v])"

definition write_flags :: "spelling \<Rightarrow> flags \<Rightarrow> string list" where
  "write_flags sp fl =
     write_flag sp ''mode'' (fl_mode fl) @ write_flag sp ''listen'' (fl_listen fl) @
     write_flag sp ''bundle'' (fl_bundle fl) @ write_flag sp ''cache-dir'' (fl_cacheDir fl) @
     write_flag sp ''zeus-url'' (fl_zeusURL fl) @ write_flag sp ''cluster'' (fl_cluster fl) @
     write_flag sp ''token'' (fl_token fl) @ (if fl_version fl then [dashes sp ''version''] else [])"

text \<open>A name that can be written: no dash or equals sign first, no equals sign in it.\<close>

definition plain_name :: "string \<Rightarrow> bool" where
  "plain_name name \<longleftrightarrow> name \<noteq> [] \<and> hd name \<noteq> CHR ''-'' \<and> CHR ''='' \<notin> set name"

lemma flag_name_dashes:
  "plain_name name \<Longrightarrow> flag_name (dashes sp name @ t) = name @ t"
  by (cases name) (auto simp: plain_name_def flag_name_def dashes_def)

lemma cut_value_plain:
  assumes "plain_name name"
  shows "cut_value (name @ CHR ''='' # v) = (name, Some v)" and "cut_value name = (name, None)"
proof -
  obtain c cs where n: "name = c # cs" using assms by (cases name) (auto simp: plain_name_def)
  have all: "\<forall>x \<in> set cs. x \<noteq> CHR ''=''" using assms by (auto simp: plain_name_def n)
  then show "cut_value name = (name, None)"
    by (simp add: cut_value_def n Let_def)
  from all show "cut_value (name @ CHR ''='' # v) = (name, Some v)"
    by (simp add: cut_value_def n Let_def)
qed

lemma dashes_nonempty [simp]: "dashes sp name \<noteq> []"
  by (simp add: dashes_def)

lemma dashes_is_flag:
  assumes "plain_name name"
  shows "2 \<le> length (dashes sp name @ t)" and "hd (dashes sp name @ t) = CHR ''-''"
    and "dashes sp name @ t \<noteq> ''--''"
  using assms by (cases name; auto simp: plain_name_def dashes_def)+

lemma parse_written_flag:
  assumes "plain_name name" and "name \<noteq> ''version''" and "map_of string_flags name = Some put"
  shows "parse_args fl (write_flag sp name v @ args) = parse_args (put v fl) args"
proof -
  have name: "name \<noteq> []" "hd name \<noteq> CHR ''-''" "hd name \<noteq> CHR ''=''"
    using assms(1) by (cases name; auto simp: plain_name_def)+
  show ?thesis
  proof (cases "snd (sp name)")
    case True
    have "\<not> (length (dashes sp name @ ''='' @ v) < 2 \<or> hd (dashes sp name @ ''='' @ v) \<noteq> CHR ''-'')"
      using dashes_is_flag [OF assms(1), of sp "''='' @ v"] by simp
    then show ?thesis
      using True name assms(2,3) dashes_is_flag(3) [OF assms(1), of sp "''='' @ v"]
        flag_name_dashes [OF assms(1), of sp "''='' @ v"] cut_value_plain(1) [OF assms(1), of v]
      by (simp add: write_flag_def)
  next
    case False
    have "\<not> (length (dashes sp name) < 2 \<or> hd (dashes sp name) \<noteq> CHR ''-'')"
      using dashes_is_flag [OF assms(1), of sp "[]"] by simp
    then show ?thesis
      using False name assms(2,3) dashes_is_flag(3) [OF assms(1), of sp "[]"]
        flag_name_dashes [OF assms(1), of sp "[]"] cut_value_plain(2) [OF assms(1)]
      by (simp add: write_flag_def)
  qed
qed

lemma parse_written_version: "parse_args fl [dashes sp ''version''] = Inr (fl\<lparr>fl_version := True\<rparr>, [])"
proof -
  have "plain_name ''version''" by (simp add: plain_name_def)
  then show ?thesis
    using dashes_is_flag [of "''version''" sp "[]"] flag_name_dashes [of "''version''" sp "[]"]
      cut_value_plain(2) [of "''version''"]
    by simp
qed

declare parse_args.simps(2) [simp del]

lemmas string_flag_evals = string_flags_def plain_name_def

subsection \<open>Properties\<close>

text \<open>Every setting of the flags can be given on the command line: written out with one or two
  dashes, with equals signs or as separate arguments, it is parsed back exactly, also when values
  are empty or look like flags themselves.\<close>

theorem command_line_roundtrip:
  "parse_args default_flags (write_flags sp fl) = Inr (fl, [])"
proof -
  have "parse_args default_flags (write_flags sp fl) =
      parse_args (fl\<lparr>fl_version := False\<rparr>) (if fl_version fl then [dashes sp ''version''] else [])"
    by (cases fl) (simp add: write_flags_def parse_written_flag string_flag_evals default_flags_def)
  also have "\<dots> = Inr (fl, [])"
    by (cases "fl_version fl") (simp_all add: parse_written_version)
  finally show ?thesis .
qed

end
