(* ===== verification/GoJson.thy ===== *)
theory GoJson
  imports Prelude
begin

text \<open>
  What the responder uses of \<open>encoding/json\<close>: the syntax of JSON texts as
  \<open>json.Unmarshal\<close> checks it (a lexer over bytes, then a pushdown parser with the nesting
  limit of 10000), string unquoting with UTF-8 repair and surrogate pairs, and decoding of a
  value \<^emph>\<open>into\<close> an existing Go value (\<open>null\<close> leaves it, a missing key leaves it, keys
  match exactly or by case folding, \<open>null\<close> makes a slice nil and \<open>[]\<close> makes it
  empty). Both recursions are total without fuel: the lexer consumes at least one byte and the
  parser one token in every step.
\<close>

datatype json =
    JNull
  | JBool bool
  | JNum string  \<comment> \<open>the literal, as \<open>json.Number\<close> keeps it\<close>
  | JStr string
  | JArr "json list"
  | JObj "(string \<times> json) list"

subsection \<open>Strings\<close>

definition is_digit :: "char \<Rightarrow> bool" where
  "is_digit c \<longleftrightarrow> 48 \<le> (of_char c :: nat) \<and> of_char c \<le> (57 :: nat)"

definition hex_val :: "char \<Rightarrow> nat option" where
  "hex_val c = (let n = of_char c :: nat in
     if 48 \<le> n \<and> n \<le> 57 then Some (n - 48)
     else if 97 \<le> n \<and> n \<le> 102 then Some (n - 87)
     else if 65 \<le> n \<and> n \<le> 70 then Some (n - 55)
     else None)"

text \<open>The four hexadecimal digits of a \<open>\uXXXX\<close> escape (\<open>getu4\<close>).\<close>

fun hex4 :: "string \<Rightarrow> (nat \<times> string) option" where
  "hex4 (a # b # c # d # rest) =
     (case (hex_val a, hex_val b, hex_val c, hex_val d) of
        (Some w, Some x, Some y, Some z) \<Rightarrow> Some (((w * 16 + x) * 16 + y) * 16 + z, rest)
      | _ \<Rightarrow> None)"
| "hex4 _ = None"

text \<open>\<open>utf8.EncodeRune\<close> for a code point that is not a surrogate.\<close>

definition utf8_encode :: "nat \<Rightarrow> string" where
  "utf8_encode r =
     (if r < 128 then [char_of r]
      else if r < 2048 then [char_of (192 + r div 64), char_of (128 + r mod 64)]
      else if r < 65536 then
        [char_of (224 + r div 4096), char_of (128 + r div 64 mod 64), char_of (128 + r mod 64)]
      else [char_of (240 + r div 262144), char_of (128 + r div 4096 mod 64),
            char_of (128 + r div 64 mod 64), char_of (128 + r mod 64)])"

definition replacement_char :: string where
  "replacement_char = utf8_encode 65533"

definition byte_in :: "nat \<Rightarrow> nat \<Rightarrow> char \<Rightarrow> bool" where
  "byte_in lo hi c \<longleftrightarrow> lo \<le> (of_char c :: nat) \<and> of_char c \<le> hi"

text \<open>
  How many continuation bytes of \<open>rest\<close> make the lead byte \<open>c\<close> a well-formed UTF-8
  sequence (\<open>utf8.DecodeRune\<close>); \<^const>\<open>None\<close> when there is none.
\<close>

definition utf8_tail :: "char \<Rightarrow> string \<Rightarrow> nat option" where
  "utf8_tail c rest =
     (let ok = (\<lambda>n lo hi. length rest \<ge> n \<and> byte_in lo hi (hd rest) \<and>
                          list_all (byte_in 128 191) (take (n - 1) (tl rest))) in
      if byte_in 0 127 c then Some 0
      else if byte_in 194 223 c then (if ok 1 128 191 then Some 1 else None)
      else if byte_in 224 224 c then (if ok 2 160 191 then Some 2 else None)
      else if byte_in 237 237 c then (if ok 2 128 159 then Some 2 else None)
      else if byte_in 225 239 c then (if ok 2 128 191 then Some 2 else None)
      else if byte_in 240 240 c then (if ok 3 144 191 then Some 3 else None)
      else if byte_in 241 243 c then (if ok 3 128 191 then Some 3 else None)
      else if byte_in 244 244 c then (if ok 3 128 143 then Some 3 else None)
      else None)"

definition utf8_step :: "char \<Rightarrow> string \<Rightarrow> string \<times> string" where
  "utf8_step c rest = (case utf8_tail c rest of
     Some n \<Rightarrow> (c # take n rest, drop n rest)
   | None \<Rightarrow> (replacement_char, rest))"

text \<open>The bytes an escape stands for; the backslash is already consumed.\<close>

definition simple_escapes :: "(char \<times> char) list" where
  "simple_escapes =
     [(CHR 0x22, CHR 0x22), (CHR 0x5C, CHR 0x5C), (CHR ''/'', CHR ''/''),
      (CHR ''b'', CHR 0x08), (CHR ''f'', CHR 0x0C), (CHR ''n'', CHR 0x0A),
      (CHR ''r'', CHR 0x0D), (CHR ''t'', CHR 0x09)]"

definition unicode_escape :: "string \<Rightarrow> (string \<times> string) option" where
  "unicode_escape cs = (case hex4 cs of
     None \<Rightarrow> None
   | Some (r, rest) \<Rightarrow>
       (if r < 55296 \<or> 57343 < r then Some (utf8_encode r, rest)
        else if r < 56320 \<and> take 2 rest = [CHR 0x5C, CHR ''u''] then
          (case hex4 (drop 2 rest) of
             Some (r2, rest2) \<Rightarrow>
               (if 56320 \<le> r2 \<and> r2 \<le> 57343
                then Some (utf8_encode ((r - 55296) * 1024 + (r2 - 56320) + 65536), rest2)
                else Some (replacement_char, rest))
           | None \<Rightarrow> Some (replacement_char, rest))
        else Some (replacement_char, rest)))"

definition scan_escape :: "string \<Rightarrow> (string \<times> string) option" where
  "scan_escape s = (case s of
     [] \<Rightarrow> None
   | e # cs \<Rightarrow>
       (if e = CHR ''u'' then unicode_escape cs
        else map_option (\<lambda>x. ([x], cs)) (map_of simple_escapes e)))"

lemma hex4_length: "hex4 s = Some (r, t) \<Longrightarrow> length t < length s"
  by (induction s rule: hex4.induct) (auto split: option.splits)

lemma unicode_escape_length: "unicode_escape s = Some (x, t) \<Longrightarrow> length t < length s"
  by (auto simp: unicode_escape_def dest!: hex4_length split: option.splits if_splits)

lemma scan_escape_length: "scan_escape s = Some (x, t) \<Longrightarrow> length t < length s"
  by (auto simp: scan_escape_def dest: unicode_escape_length split: list.splits if_splits)

lemma utf8_step_length: "utf8_step c s = (x, t) \<Longrightarrow> length t \<le> length s"
  by (auto simp: utf8_step_def split: option.splits)

text \<open>The rest of a string literal after its opening quote: its value, and the rest.\<close>

function scan_str :: "string \<Rightarrow> (string \<times> string) option" where
  "scan_str [] = None"
| "scan_str (c # cs) =
     (if c = CHR 0x22 then Some ([], cs)
      else if c = CHR 0x5C then
        (case scan_escape cs of
           None \<Rightarrow> None
         | Some (x, rest) \<Rightarrow> map_option (\<lambda>(v, t). (x @ v, t)) (scan_str rest))
      else if of_char c < (32 :: nat) then None
      else (case utf8_step c cs of
              (x, rest) \<Rightarrow> map_option (\<lambda>(v, t). (x @ v, t)) (scan_str rest)))"
  by pat_completeness auto
termination
  by (relation "measure length")
    (auto dest!: scan_escape_length utf8_step_length [OF sym])

lemma scan_str_length: "scan_str s = Some (v, t) \<Longrightarrow> length t < length s"
proof (induction s arbitrary: v t rule: scan_str.induct)
  case (2 c cs)
  then show ?case
    by (auto dest!: scan_escape_length utf8_step_length split: if_splits option.splits prod.splits)
      (fastforce+)
qed simp

subsection \<open>Numbers\<close>

definition scan_digits :: "string \<Rightarrow> (string \<times> string) option" where
  "scan_digits s = (let ds = takeWhile is_digit s in
     if ds = [] then None else Some (ds, dropWhile is_digit s))"

definition scan_nat :: "string \<Rightarrow> (string \<times> string) option" where
  "scan_nat s = (case s of
     [] \<Rightarrow> None
   | c # cs \<Rightarrow> if c = CHR ''0'' then Some ([c], cs) else scan_digits s)"

definition scan_frac :: "string \<Rightarrow> (string \<times> string) option" where
  "scan_frac s = (case s of
     [] \<Rightarrow> Some ([], s)
   | c # cs \<Rightarrow>
       (if c = CHR ''.'' then map_option (\<lambda>(d, t). (c # d, t)) (scan_digits cs)
        else Some ([], s)))"

definition scan_exp :: "string \<Rightarrow> (string \<times> string) option" where
  "scan_exp s = (case s of
     [] \<Rightarrow> Some ([], s)
   | c # cs \<Rightarrow>
       (if c = CHR ''e'' \<or> c = CHR ''E'' then
          (case cs of
             g # cs' \<Rightarrow>
               (if g = CHR ''+'' \<or> g = CHR ''-''
                then map_option (\<lambda>(d, t). (c # g # d, t)) (scan_digits cs')
                else map_option (\<lambda>(d, t). (c # d, t)) (scan_digits cs))
           | [] \<Rightarrow> None)
        else Some ([], s)))"

definition scan_number :: "string \<Rightarrow> (string \<times> string) option" where
  "scan_number s =
     (let (sign, s0) = (if take 1 s = ''-'' then (''-'', drop 1 s) else ([], s)) in
      case scan_nat s0 of
        None \<Rightarrow> None
      | Some (a, s1) \<Rightarrow>
          (case scan_frac s1 of
             None \<Rightarrow> None
           | Some (b, s2) \<Rightarrow>
               map_option (\<lambda>(d, s3). (sign @ a @ b @ d, s3)) (scan_exp s2)))"

lemma scan_digits_length: "scan_digits s = Some (d, t) \<Longrightarrow> length t < length s"
proof -
  assume a: "scan_digits s = Some (d, t)"
  then have "takeWhile is_digit s \<noteq> []" "t = dropWhile is_digit s"
    by (auto simp: scan_digits_def Let_def split: if_splits)
  moreover have "length s = length (takeWhile is_digit s) + length (dropWhile is_digit s)"
    by (metis length_append takeWhile_dropWhile_id)
  ultimately show ?thesis by simp
qed

lemma scan_nat_length: "scan_nat s = Some (d, t) \<Longrightarrow> length t < length s"
  by (auto simp: scan_nat_def dest: scan_digits_length split: list.splits if_splits)

lemma scan_frac_length: "scan_frac s = Some (d, t) \<Longrightarrow> length t \<le> length s"
  by (auto simp: scan_frac_def dest!: scan_digits_length split: list.splits if_splits)

lemma scan_exp_length: "scan_exp s = Some (d, t) \<Longrightarrow> length t \<le> length s"
  by (auto simp: scan_exp_def dest!: scan_digits_length split: list.splits if_splits)

lemma scan_number_length: "scan_number s = Some (d, t) \<Longrightarrow> length t < length s"
proof -
  assume *: "scan_number s = Some (d, t)"
  define s0 where "s0 = (if take 1 s = ''-'' then drop 1 s else s)"
  have "length s0 \<le> length s" by (simp add: s0_def)
  moreover from * obtain a s1 b s2 c where "scan_nat s0 = Some (a, s1)"
    "scan_frac s1 = Some (b, s2)" "scan_exp s2 = Some (c, t)"
    by (cases "take 1 s = ''-''") (auto simp: scan_number_def s0_def split: option.splits)
  ultimately show ?thesis
    by (fastforce dest: scan_nat_length scan_frac_length scan_exp_length)
qed

subsection \<open>The lexer\<close>

datatype tok = TLBrace | TRBrace | TLBrack | TRBrack | TComma | TColon | TVal json

definition is_ws :: "char \<Rightarrow> bool" where
  "is_ws c \<longleftrightarrow> c \<in> {CHR '' '', CHR 0x09, CHR 0x0A, CHR 0x0D}"

definition punctuation :: "(char \<times> tok) list" where
  "punctuation = [(CHR ''{'', TLBrace), (CHR ''}'', TRBrace), (CHR ''['', TLBrack),
     (CHR '']'', TRBrack), (CHR '','', TComma), (CHR '':'', TColon)]"

text \<open>One token at the start of a text that does not begin with white space.\<close>

definition lex_token :: "string \<Rightarrow> (tok \<times> string) option" where
  "lex_token s = (case s of
     [] \<Rightarrow> None
   | c # cs \<Rightarrow>
       (case map_of punctuation c of
          Some t \<Rightarrow> Some (t, cs)
        | None \<Rightarrow>
            (if c = CHR 0x22 then map_option (\<lambda>(v, r). (TVal (JStr v), r)) (scan_str cs)
             else if take 4 s = ''true'' then Some (TVal (JBool True), drop 4 s)
             else if take 5 s = ''false'' then Some (TVal (JBool False), drop 5 s)
             else if take 4 s = ''null'' then Some (TVal JNull, drop 4 s)
             else map_option (\<lambda>(d, r). (TVal (JNum d), r)) (scan_number s))))"

lemma lex_token_length: "lex_token s = Some (t, r) \<Longrightarrow> length r < length s"
  by (auto simp: lex_token_def dest!: scan_str_length scan_number_length
      split: list.splits option.splits if_splits)

function lex :: "string \<Rightarrow> tok list option" where
  "lex s = (case s of
     [] \<Rightarrow> Some []
   | c # cs \<Rightarrow>
       (if is_ws c then lex cs
        else (case lex_token s of
                None \<Rightarrow> None
              | Some (t, rest) \<Rightarrow> map_option ((#) t) (lex rest))))"
  by pat_completeness auto
termination
  by (relation "measure length") (auto dest: lex_token_length)

declare lex.simps [simp del]

subsection \<open>The parser\<close>

text \<open>
  Open arrays and objects form a stack; an object frame holds the key that waits for its
  value. The modes are the scanner's states: a value is due, a value or \<open>]\<close>, a key or
  \<open>}\<close>, a key, the colon after a key, and what may follow a finished value.
\<close>

datatype frame = FArr "json list" | FObj "(string \<times> json) list" string

datatype mode =
  WantValue | WantValueOrEnd | WantKeyOrEnd "(string \<times> json) list"
  | WantKey "(string \<times> json) list" | WantColon "(string \<times> json) list" string | Done json

definition max_nesting :: nat where "max_nesting = 10000"

text \<open>A value begins: a scalar is complete, a bracket opens a frame (\<open>pushParseState\<close>).\<close>

definition begin_value :: "frame list \<Rightarrow> tok \<Rightarrow> (mode \<times> frame list) option" where
  "begin_value st t = (case t of
     TVal v \<Rightarrow> Some (Done v, st)
   | TLBrack \<Rightarrow>
       (if length st < max_nesting then Some (WantValueOrEnd, FArr [] # st) else None)
   | TLBrace \<Rightarrow>
       (if length st < max_nesting then Some (WantKeyOrEnd [], FObj [] [] # st) else None)
   | _ \<Rightarrow> None)"

definition finish_obj :: "frame list \<Rightarrow> (string \<times> json) list \<Rightarrow> (mode \<times> frame list) option" where
  "finish_obj st kvs = (case st of
     FObj _ _ # st' \<Rightarrow> Some (Done (JObj (rev kvs)), st')
   | _ \<Rightarrow> None)"

definition set_key :: "frame list \<Rightarrow> (string \<times> json) list \<Rightarrow> string \<Rightarrow> frame list" where
  "set_key st kvs k = FObj kvs k # tl st"

definition parse_step :: "mode \<Rightarrow> frame list \<Rightarrow> tok \<Rightarrow> (mode \<times> frame list) option" where
  "parse_step m st t = (case m of
     WantValue \<Rightarrow> begin_value st t
   | WantValueOrEnd \<Rightarrow>
       (if t = TRBrack then Some (Done (JArr []), tl st) else begin_value st t)
   | WantKeyOrEnd kvs \<Rightarrow>
       (if t = TRBrace then finish_obj st kvs
        else (case t of TVal (JStr k) \<Rightarrow> Some (WantColon kvs k, st) | _ \<Rightarrow> None))
   | WantKey kvs \<Rightarrow>
       (case t of TVal (JStr k) \<Rightarrow> Some (WantColon kvs k, st) | _ \<Rightarrow> None)
   | WantColon kvs k \<Rightarrow>
       (if t = TColon then Some (WantValue, set_key st kvs k) else None)
   | Done v \<Rightarrow>
       (case st of
          [] \<Rightarrow> None
        | FArr vs # st' \<Rightarrow>
            (if t = TComma then Some (WantValue, FArr (v # vs) # st')
             else if t = TRBrack then Some (Done (JArr (rev (v # vs))), st')
             else None)
        | FObj kvs k # st' \<Rightarrow>
            (if t = TComma then Some (WantKey ((k, v) # kvs), st)
             else if t = TRBrace then Some (Done (JObj (rev ((k, v) # kvs))), st')
             else None)))"

fun parse_toks :: "mode \<Rightarrow> frame list \<Rightarrow> tok list \<Rightarrow> json option" where
  "parse_toks m st [] = (case (m, st) of (Done v, []) \<Rightarrow> Some v | _ \<Rightarrow> None)"
| "parse_toks m st (t # ts) = (case parse_step m st t of
     None \<Rightarrow> None
   | Some (m', st') \<Rightarrow> parse_toks m' st' ts)"

definition json_parse :: "bytes \<Rightarrow> json option" where
  "json_parse raw = Option.bind (lex raw) (parse_toks WantValue [])"

subsection \<open>The parser inverts the token printer\<close>

fun depth :: "json \<Rightarrow> nat" where
  "depth (JArr vs) = Suc (foldr max (map depth vs) 0)"
| "depth (JObj kvs) = Suc (foldr max (map (\<lambda>(k, v). depth v) kvs) 0)"
| "depth _ = 0"

definition sep_toks :: "tok list list \<Rightarrow> tok list" where
  "sep_toks xs = (case xs of [] \<Rightarrow> [] | y # ys \<Rightarrow> y @ concat (map ((#) TComma) ys))"

fun toks :: "json \<Rightarrow> tok list" where
  "toks (JArr vs) = TLBrack # sep_toks (map toks vs) @ [TRBrack]"
| "toks (JObj kvs) =
     TLBrace # sep_toks (map (\<lambda>(k, v). TVal (JStr k) # TColon # toks v) kvs) @ [TRBrace]"
| "toks v = [TVal v]"

lemma foldr_max_ge: "n \<in> set ns \<Longrightarrow> n \<le> foldr max ns (0 :: nat)"
  by (induction ns) (auto simp: le_max_iff_disj)

lemma depth_elem: "v \<in> set vs \<Longrightarrow> depth v \<le> foldr max (map depth vs) 0"
  by (auto intro: foldr_max_ge)

lemma depth_field:
  "(k, v) \<in> set kvs \<Longrightarrow> depth v \<le> foldr max (map (\<lambda>(k, v). depth v) kvs) 0"
  by (force intro: foldr_max_ge)

definition reads :: "json \<Rightarrow> bool" where
  "reads v \<longleftrightarrow> (\<forall>m \<in> {WantValue, WantValueOrEnd}. \<forall>st ts. depth v + length st \<le> max_nesting \<longrightarrow>
     parse_toks m st (toks v @ ts) = parse_toks (Done v) st ts)"

lemma readsD:
  "reads v \<Longrightarrow> depth v + length st \<le> max_nesting \<Longrightarrow>
     parse_toks WantValue st (toks v @ ts) = parse_toks (Done v) st ts"
  "reads v \<Longrightarrow> depth v + length st \<le> max_nesting \<Longrightarrow>
     parse_toks WantValueOrEnd st (toks v @ ts) = parse_toks (Done v) st ts"
  by (auto simp: reads_def)

lemma parse_elems:
  assumes "\<forall>v \<in> set vs. reads v" and "\<forall>v \<in> set vs. depth v + Suc (length st) \<le> max_nesting"
  shows "parse_toks (Done u) (FArr acc # st)
           (concat (map ((#) TComma) (map toks vs)) @ TRBrack # ts) =
         parse_toks (Done (JArr (rev acc @ u # vs))) st ts"
  using assms
  by (induction vs arbitrary: u acc) (simp_all add: parse_step_def readsD)

lemma parse_fields:
  assumes "\<forall>(k, v) \<in> set kvs. reads v"
    and "\<forall>(k, v) \<in> set kvs. depth v + Suc (length st) \<le> max_nesting"
  shows "parse_toks (Done u) (FObj acc j # st)
           (concat (map ((#) TComma) (map (\<lambda>(k, v). TVal (JStr k) # TColon # toks v) kvs))
              @ TRBrace # ts) =
         parse_toks (Done (JObj (rev acc @ (j, u) # kvs))) st ts"
  using assms
proof (induction kvs arbitrary: u j acc)
  case (Cons kv kvs)
  then show ?case
    by (cases kv) (simp add: parse_step_def set_key_def readsD)
qed (simp add: parse_step_def)

lemma reads_scalar:
  "toks v = [TVal v] \<Longrightarrow> reads v"
  by (auto simp: reads_def parse_step_def begin_value_def)

lemma reads_array:
  assumes "\<forall>v \<in> set vs. reads v"
  shows "reads (JArr vs)"
proof (cases vs)
  case Nil
  then show ?thesis
    by (auto simp: reads_def parse_step_def begin_value_def sep_toks_def)
next
  case (Cons v ws)
  show ?thesis
    unfolding reads_def
  proof (intro ballI allI impI)
    fix m and st :: "frame list" and ts
    assume m: "m \<in> {WantValue, WantValueOrEnd}"
      and d: "depth (JArr vs) + length st \<le> max_nesting"
    have le: "\<forall>v \<in> set vs. depth v + Suc (length st) \<le> max_nesting"
      using d depth_elem [of _ vs] by fastforce
    have "parse_toks m st (toks (JArr vs) @ ts) =
        parse_toks WantValueOrEnd (FArr [] # st)
          (toks v @ concat (map ((#) TComma) (map toks ws)) @ TRBrack # ts)"
      using m d by (auto simp: Cons parse_step_def begin_value_def sep_toks_def)
    also have "\<dots> = parse_toks (Done v) (FArr [] # st)
        (concat (map ((#) TComma) (map toks ws)) @ TRBrack # ts)"
      using assms le by (intro readsD) (auto simp: Cons)
    also have "\<dots> = parse_toks (Done (JArr vs)) st ts"
      using assms le by (subst parse_elems) (auto simp: Cons)
    finally show "parse_toks m st (toks (JArr vs) @ ts) = parse_toks (Done (JArr vs)) st ts" .
  qed
qed

lemma reads_object:
  assumes "\<forall>(k, v) \<in> set kvs. reads v"
  shows "reads (JObj kvs)"
proof (cases kvs)
  case Nil
  then show ?thesis
    by (auto simp: reads_def parse_step_def begin_value_def sep_toks_def finish_obj_def)
next
  case (Cons kv rest)
  obtain k v where kv: "kv = (k, v)" by fastforce
  show ?thesis
    unfolding reads_def
  proof (intro ballI allI impI)
    fix m and st :: "frame list" and ts
    assume m: "m \<in> {WantValue, WantValueOrEnd}"
      and d: "depth (JObj kvs) + length st \<le> max_nesting"
    let ?more = "concat (map ((#) TComma)
      (map (\<lambda>(k, v). TVal (JStr k) # TColon # toks v) rest)) @ TRBrace # ts"
    have le: "\<forall>(k, v) \<in> set kvs. depth v + Suc (length st) \<le> max_nesting"
      using d depth_field [of _ _ kvs] by fastforce
    have "parse_toks m st (toks (JObj kvs) @ ts) =
        parse_toks WantValue (FObj [] k # st) (toks v @ ?more)"
      using m d by (auto simp: Cons kv parse_step_def begin_value_def sep_toks_def set_key_def)
    also have "\<dots> = parse_toks (Done v) (FObj [] k # st) ?more"
      using assms le by (intro readsD) (auto simp: Cons kv)
    also have "\<dots> = parse_toks (Done (JObj kvs)) st ts"
      using assms le by (subst parse_fields) (auto simp: Cons kv)
    finally show "parse_toks m st (toks (JObj kvs) @ ts) = parse_toks (Done (JObj kvs)) st ts" .
  qed
qed

lemma reads_all: "reads v"
proof (induction v rule: toks.induct)
  case (1 vs)
  then show ?case by (simp add: reads_array)
next
  case (2 kvs)
  then show ?case by (intro reads_object) auto
qed (simp_all add: reads_scalar)

lemma parse_toks_toks:
  "depth v \<le> max_nesting \<Longrightarrow> parse_toks WantValue [] (toks v) = Some v"
  using readsD(1) [OF reads_all, of v "[]" "[]"] by simp

subsection \<open>Decoding into Go values\<close>

text \<open>\<open>strconv.ParseInt(lit, 10, 64)\<close> on a number literal.\<close>

definition digit_val :: "char \<Rightarrow> int" where
  "digit_val c = of_char c - 48"

definition parse_int64 :: "string \<Rightarrow> int option" where
  "parse_int64 lit =
     (let neg = take 1 lit = ''-''; ds = (if neg then drop 1 lit else lit) in
      if ds = [] \<or> \<not> list_all is_digit ds then None
      else (let n = foldl (\<lambda>a c. 10 * a + digit_val c) 0 ds; v = (if neg then - n else n) in
            if - (2 ^ 63) \<le> v \<and> v < 2 ^ 63 then Some v else None))"

text \<open>
  A decoder takes the JSON value and the Go value it is stored into; \<^const>\<open>None\<close> is an
  \<open>UnmarshalTypeError\<close>, which makes the whole \<open>json.Unmarshal\<close> fail.
\<close>

type_synonym 'a decoder = "json \<Rightarrow> 'a \<Rightarrow> 'a option"

definition dec_int :: "int decoder" where
  "dec_int j old = (case j of JNull \<Rightarrow> Some old | JNum l \<Rightarrow> parse_int64 l | _ \<Rightarrow> None)"

definition dec_string :: "string decoder" where
  "dec_string j old = (case j of JNull \<Rightarrow> Some old | JStr s \<Rightarrow> Some s | _ \<Rightarrow> None)"

text \<open>
  A slice is \<^const>\<open>None\<close> when nil. Elements that exist are decoded in place, new ones
  start from the zero value.
\<close>

fun dec_elems :: "'a decoder \<Rightarrow> 'a \<Rightarrow> json list \<Rightarrow> 'a list \<Rightarrow> 'a list option" where
  "dec_elems d z [] olds = Some []"
| "dec_elems d z (j # js) olds =
     (case d j (case olds of [] \<Rightarrow> z | x # _ \<Rightarrow> x) of
        None \<Rightarrow> None
      | Some x \<Rightarrow> map_option ((#) x) (dec_elems d z js (tl olds)))"

definition slice_elems :: "'a list option \<Rightarrow> 'a list" where
  "slice_elems s = (case s of None \<Rightarrow> [] | Some xs \<Rightarrow> xs)"

definition dec_slice :: "'a decoder \<Rightarrow> 'a \<Rightarrow> 'a list option decoder" where
  "dec_slice d z j old = (case j of
     JNull \<Rightarrow> Some None
   | JArr js \<Rightarrow> map_option Some (dec_elems d z js (slice_elems old))
   | _ \<Rightarrow> None)"

text \<open>
  Case folding of keys: ASCII letters, and the two letters beyond ASCII (long s and the
  Kelvin sign) whose simple folding is an ASCII letter.
\<close>

fun fold_key :: "string \<Rightarrow> string" where
  "fold_key [] = []"
| "fold_key (c # cs) =
     (if c = CHR 0xC5 \<and> take 1 cs = [CHR 0xBF] then CHR ''s'' # fold_key (drop 1 cs)
      else if c = CHR 0xE2 \<and> take 2 cs = [CHR 0x84, CHR 0xAA] then CHR ''k'' # fold_key (drop 2 cs)
      else lower_char c # fold_key cs)"

type_synonym 's fields = "(string \<times> 's decoder) list"

definition find_field :: "'s fields \<Rightarrow> string \<Rightarrow> 's decoder option" where
  "find_field fs k = (case map_of fs k of
     Some d \<Rightarrow> Some d
   | None \<Rightarrow> map_option snd (find (\<lambda>(n, d). fold_key n = fold_key k) fs))"

fun dec_pairs :: "'s fields \<Rightarrow> (string \<times> json) list \<Rightarrow> 's \<Rightarrow> 's option" where
  "dec_pairs fs [] s = Some s"
| "dec_pairs fs ((k, j) # kvs) s =
     (case find_field fs k of
        None \<Rightarrow> dec_pairs fs kvs s
      | Some d \<Rightarrow> (case d j s of None \<Rightarrow> None | Some s' \<Rightarrow> dec_pairs fs kvs s'))"

definition dec_struct :: "'s fields \<Rightarrow> 's decoder" where
  "dec_struct fs j s = (case j of
     JNull \<Rightarrow> Some s
   | JObj kvs \<Rightarrow> dec_pairs fs kvs s
   | _ \<Rightarrow> None)"

text \<open>A key that is absent leaves its field as it was.\<close>

lemma dec_pairs_frame:
  assumes "\<And>k d j s s'. (k, d) \<in> set fs \<Longrightarrow> fold_key k \<noteq> fold_key n \<Longrightarrow> d j s = Some s' \<Longrightarrow> f s' = f s"
    and "\<forall>(k, j) \<in> set kvs. fold_key k \<noteq> fold_key n"
    and "dec_pairs fs kvs s = Some s'"
  shows "f s' = f s"
  using assms(2,3)
proof (induction kvs arbitrary: s)
  case (Cons kv kvs)
  obtain k j where kv: "kv = (k, j)" by fastforce
  show ?case
  proof (cases "find_field fs k")
    case None
    with Cons show ?thesis by (simp add: kv)
  next
    case (Some d)
    then obtain k' where k': "(k', d) \<in> set fs" "fold_key k' = fold_key k"
      by (fastforce simp: find_field_def find_Some_iff dest: map_of_SomeD nth_mem
          split: option.splits)
    from Cons.prems Some obtain s1 where s1: "d j s = Some s1" "dec_pairs fs kvs s1 = Some s'"
      by (auto simp: kv split: option.splits)
    have "f s1 = f s"
      using assms(1) [OF k'(1) _ s1(1)] k'(2) Cons.prems(1) by (auto simp: kv)
    with Cons.IH [OF _ s1(2)] Cons.prems(1) show ?thesis by (simp add: kv)
  qed
qed simp

end
