(* ===== verification/Bundle.thy ===== *)
theory Bundle
  imports GoJson
begin

text \<open>
  The decision bundle of \<^verbatim>\<open>internal/bundle/bundle.go\<close>: its structs as records (a
  slice whose nil-ness the code looks at is an option, \<open>Candidates\<close>; the others are lists),
  its decoding from JSON by the struct tags, \<open>normalizeFQDN\<close>, \<open>ByFQDN\<close> and
  \<open>ParseAndValidate\<close>.
\<close>

subsection \<open>The wire contract\<close>

definition SupportedProtocolVersion :: int where "SupportedProtocolVersion = 1"

definition StateOK :: string where "StateOK = ''ok''"
definition StateDegraded :: string where "StateDegraded = ''degraded''"
definition StateFailedClosed :: string where "StateFailedClosed = ''failed-closed''"
definition StateNoTargets :: string where "StateNoTargets = ''no-targets''"

definition HealthHealthy :: string where "HealthHealthy = ''healthy''"
definition HealthUnhealthy :: string where "HealthUnhealthy = ''unhealthy''"
definition HealthUnknown :: string where "HealthUnknown = ''unknown''"

definition ModeSingle :: string where "ModeSingle = ''single''"
definition ModeAll :: string where "ModeAll = ''all''"

lemmas state_names = StateOK_def StateDegraded_def StateFailedClosed_def StateNoTargets_def
lemmas health_names = HealthHealthy_def HealthUnhealthy_def HealthUnknown_def

record answer =
  ans_IP :: string
  ans_Port :: int

record candidate =
  cand_Cluster :: string
  cand_TargetKey :: string
  cand_Health :: string
  cand_Answers :: "answer list"

record local_check =
  lc_TargetKey :: string
  lc_Probe :: string
  lc_Host :: string
  lc_Port :: int
  lc_Path :: string
  lc_Namespace :: string
  lc_Service :: string
  lc_IntervalMs :: int
  lc_FailureThreshold :: int
  lc_RecoveryThreshold :: int

record dns_record =
  rec_FQDN :: string
  rec_TTL :: int
  rec_State :: string
  rec_Mode :: string
  rec_Answers :: "answer list"
  rec_Candidates :: "candidate list option"
  rec_LocalChecks :: "local_check list"

record decision_bundle =
  b_ProtocolVersion :: int
  b_Domain :: string
  b_GeneratedAt :: string
  b_ContentHash :: string
  b_Records :: "dns_record list"

text \<open>The Go zero values, from which \<open>json.Unmarshal\<close> starts.\<close>

definition zero_answer :: answer where
  "zero_answer = \<lparr>ans_IP = [], ans_Port = 0\<rparr>"

definition zero_candidate :: candidate where
  "zero_candidate = \<lparr>cand_Cluster = [], cand_TargetKey = [], cand_Health = [], cand_Answers = []\<rparr>"

definition zero_local_check :: local_check where
  "zero_local_check = \<lparr>lc_TargetKey = [], lc_Probe = [], lc_Host = [], lc_Port = 0, lc_Path = [],
     lc_Namespace = [], lc_Service = [], lc_IntervalMs = 0, lc_FailureThreshold = 0,
     lc_RecoveryThreshold = 0\<rparr>"

definition zero_record :: dns_record where
  "zero_record = \<lparr>rec_FQDN = [], rec_TTL = 0, rec_State = [], rec_Mode = [], rec_Answers = [],
     rec_Candidates = None, rec_LocalChecks = []\<rparr>"

definition zero_bundle :: decision_bundle where
  "zero_bundle = \<lparr>b_ProtocolVersion = 0, b_Domain = [], b_GeneratedAt = [], b_ContentHash = [],
     b_Records = []\<rparr>"

subsection \<open>Decoding\<close>

text \<open>
  A field of a struct: its getter, its update and the decoder of its type. For slices that the
  model keeps as plain lists the nil slice and the empty one are the same value.
\<close>

definition field :: "('s \<Rightarrow> 'a) \<Rightarrow> (('a \<Rightarrow> 'a) \<Rightarrow> 's \<Rightarrow> 's) \<Rightarrow> 'a decoder \<Rightarrow> 's decoder" where
  "field get upd d j s = map_option (\<lambda>v. upd (\<lambda>_. v) s) (d j (get s))"

definition dec_list :: "'a decoder \<Rightarrow> 'a \<Rightarrow> 'a list decoder" where
  "dec_list d z j old = map_option slice_elems (dec_slice d z j (Some old))"

definition dec_answer :: "answer decoder" where
  "dec_answer = dec_struct
     [(''ip'', field ans_IP ans_IP_update dec_string),
      (''port'', field ans_Port ans_Port_update dec_int)]"

definition dec_candidate :: "candidate decoder" where
  "dec_candidate = dec_struct
     [(''cluster'', field cand_Cluster cand_Cluster_update dec_string),
      (''targetKey'', field cand_TargetKey cand_TargetKey_update dec_string),
      (''health'', field cand_Health cand_Health_update dec_string),
      (''answers'', field cand_Answers cand_Answers_update (dec_list dec_answer zero_answer))]"

definition dec_local_check :: "local_check decoder" where
  "dec_local_check = dec_struct
     [(''targetKey'', field lc_TargetKey lc_TargetKey_update dec_string),
      (''probe'', field lc_Probe lc_Probe_update dec_string),
      (''host'', field lc_Host lc_Host_update dec_string),
      (''port'', field lc_Port lc_Port_update dec_int),
      (''path'', field lc_Path lc_Path_update dec_string),
      (''namespace'', field lc_Namespace lc_Namespace_update dec_string),
      (''service'', field lc_Service lc_Service_update dec_string),
      (''intervalMs'', field lc_IntervalMs lc_IntervalMs_update dec_int),
      (''failureThreshold'', field lc_FailureThreshold lc_FailureThreshold_update dec_int),
      (''recoveryThreshold'', field lc_RecoveryThreshold lc_RecoveryThreshold_update dec_int)]"

definition record_fields :: "dns_record fields" where
  "record_fields =
     [(''fqdn'', field rec_FQDN rec_FQDN_update dec_string),
      (''ttl'', field rec_TTL rec_TTL_update dec_int),
      (''state'', field rec_State rec_State_update dec_string),
      (''mode'', field rec_Mode rec_Mode_update dec_string),
      (''answers'', field rec_Answers rec_Answers_update (dec_list dec_answer zero_answer)),
      (''candidates'', field rec_Candidates rec_Candidates_update
         (dec_slice dec_candidate zero_candidate)),
      (''localChecks'', field rec_LocalChecks rec_LocalChecks_update
         (dec_list dec_local_check zero_local_check))]"

definition dec_record :: "dns_record decoder" where
  "dec_record = dec_struct record_fields"

definition dec_bundle :: "decision_bundle decoder" where
  "dec_bundle = dec_struct
     [(''protocolVersion'', field b_ProtocolVersion b_ProtocolVersion_update dec_int),
      (''domain'', field b_Domain b_Domain_update dec_string),
      (''generatedAt'', field b_GeneratedAt b_GeneratedAt_update dec_string),
      (''contentHash'', field b_ContentHash b_ContentHash_update dec_string),
      (''records'', field b_Records b_Records_update (dec_list dec_record zero_record))]"

definition unmarshal_bundle :: "bytes \<Rightarrow> decision_bundle option" where
  "unmarshal_bundle raw = Option.bind (json_parse raw) (\<lambda>j. dec_bundle j zero_bundle)"

subsection \<open>Validation\<close>

datatype bundle_error =
    ParseError
  | UnsupportedVersion int
  | NoDomain
  | EmptyFQDN nat
  | BadTTL string int

text \<open>The validation loop over \<open>b.Records\<close>, with the index it reports.\<close>

fun check_records :: "nat \<Rightarrow> dns_record list \<Rightarrow> bundle_error option" where
  "check_records i [] = None"
| "check_records i (r # rs) =
     (if rec_FQDN r = [] then Some (EmptyFQDN i)
      else if rec_TTL r \<le> 0 then Some (BadTTL (rec_FQDN r) (rec_TTL r))
      else check_records (Suc i) rs)"

definition parse_and_validate :: "bytes \<Rightarrow> bundle_error + decision_bundle" where
  "parse_and_validate raw =
     (case unmarshal_bundle raw of
        None \<Rightarrow> Inl ParseError
      | Some b \<Rightarrow>
          (if b_ProtocolVersion b \<noteq> SupportedProtocolVersion
           then Inl (UnsupportedVersion (b_ProtocolVersion b))
           else if b_Domain b = [] then Inl NoDomain
           else (case check_records 0 (b_Records b) of
                   Some e \<Rightarrow> Inl e
                 | None \<Rightarrow> Inr b)))"

text \<open>What every accepted bundle satisfies; the state of a record is not looked at.\<close>

definition valid_bundle :: "decision_bundle \<Rightarrow> bool" where
  "valid_bundle b \<longleftrightarrow> b_ProtocolVersion b = SupportedProtocolVersion \<and> b_Domain b \<noteq> [] \<and>
     list_all (\<lambda>r. rec_FQDN r \<noteq> [] \<and> 0 < rec_TTL r) (b_Records b)"

lemma check_records_None:
  "check_records i rs = None \<longleftrightarrow> list_all (\<lambda>r. rec_FQDN r \<noteq> [] \<and> 0 < rec_TTL r) rs"
  by (induction rs arbitrary: i) auto

lemma parse_and_validate_Inr_iff:
  "parse_and_validate raw = Inr b \<longleftrightarrow> unmarshal_bundle raw = Some b \<and> valid_bundle b"
  by (auto simp: parse_and_validate_def valid_bundle_def check_records_None
      split: option.splits if_splits)
    (metis check_records_None option.distinct(1))+

lemma parse_and_validate_valid: "parse_and_validate raw = Inr b \<Longrightarrow> valid_bundle b"
  by (simp add: parse_and_validate_Inr_iff)

lemma valid_bundleD:
  "valid_bundle b \<Longrightarrow> r \<in> set (b_Records b) \<Longrightarrow> rec_FQDN r \<noteq> [] \<and> 0 < rec_TTL r"
  by (auto simp: valid_bundle_def list_all_iff)

subsection \<open>The index by name\<close>

definition normalizeFQDN :: "string \<Rightarrow> string" where
  "normalizeFQDN s = (if s = [] \<or> last s \<noteq> CHR ''.'' then s @ ''.'' else s)"

definition ByFQDN :: "decision_bundle \<Rightarrow> (string \<rightharpoonup> dns_record)" where
  "ByFQDN b = foldl (\<lambda>m r. m(normalizeFQDN (rec_FQDN r) \<mapsto> r)) Map.empty (b_Records b)"

lemma normalizeFQDN_idem [simp]: "normalizeFQDN (normalizeFQDN s) = normalizeFQDN s"
  by (simp add: normalizeFQDN_def)

lemma foldl_index:
  "foldl (\<lambda>m r. m(normalizeFQDN (rec_FQDN r) \<mapsto> r)) m0 rs k =
     (case find (\<lambda>r. normalizeFQDN (rec_FQDN r) = k) (rev rs) of
        Some r \<Rightarrow> Some r
      | None \<Rightarrow> m0 k)"
  by (induction rs rule: rev_induct) auto

lemma ByFQDN_find:
  "ByFQDN b k = find (\<lambda>r. normalizeFQDN (rec_FQDN r) = k) (rev (b_Records b))"
  by (simp add: ByFQDN_def foldl_index split: option.splits)

subsection \<open>Properties\<close>

text \<open>A small accepted document for the witnesses.\<close>

definition sample_raw :: bytes where
  "sample_raw = ''{\"protocolVersion\":1,\"domain\":\"z\",\"contentHash\":\"h\"}''"

definition sample_bundle :: decision_bundle where
  "sample_bundle = \<lparr>b_ProtocolVersion = 1, b_Domain = ''z'', b_GeneratedAt = [],
     b_ContentHash = ''h'', b_Records = []\<rparr>"

lemma sample_accepted: "parse_and_validate sample_raw = Inr sample_bundle"
  by code_simp

text \<open>And one with a record that lists an address.\<close>

definition zone_raw :: bytes where
  "zone_raw = ''{\"protocolVersion\":1,\"domain\":\"z\",\"records\":[{\"fqdn\":\"z\",\"ttl\":1,\"state\":\"ok\",\"answers\":[{\"ip\":\"1.1.1.1\"}]}]}''"

definition zone_doc :: decision_bundle where
  "zone_doc = \<lparr>b_ProtocolVersion = 1, b_Domain = ''z'', b_GeneratedAt = [], b_ContentHash = [],
     b_Records = [\<lparr>rec_FQDN = ''z'', rec_TTL = 1, rec_State = ''ok'', rec_Mode = [],
       rec_Answers = [\<lparr>ans_IP = ''1.1.1.1'', ans_Port = 0\<rparr>], rec_Candidates = None,
       rec_LocalChecks = []\<rparr>]\<rparr>"

lemma zone_accepted: "parse_and_validate zone_raw = Inr zone_doc"
  by code_simp

lemma empty_rejected: "parse_and_validate [] = Inl ParseError"
  by code_simp

lemma sample_valid: "valid_bundle sample_bundle"
  using sample_accepted by (rule parse_and_validate_valid)

lemma check_records_EmptyFQDN:
  "check_records k rs = Some (EmptyFQDN i) \<longleftrightarrow> (\<exists>j < length rs. i = k + j \<and> rec_FQDN (rs ! j) = [] \<and>
     list_all (\<lambda>r. rec_FQDN r \<noteq> [] \<and> 0 < rec_TTL r) (take j rs))"
proof (induction rs arbitrary: k)
  case (Cons r rs)
  show ?case
  proof (cases "rec_FQDN r = [] \<or> rec_TTL r \<le> 0")
    case True
    then show ?thesis
      by (auto simp: Ex_less_Suc2 split: if_splits)
  next
    case False
    with Cons show ?thesis by (simp add: Ex_less_Suc2)
  qed
qed simp

text \<open>A nameless record is reported with its index, and it is the first defect: the error
  names index \<open>i\<close> exactly when the document decodes, has the supported version and a domain, the
  record at \<open>i\<close> has no name, and every record before it passed the checks of name and TTL.\<close>

theorem empty_fqdn_reported_first:
  "parse_and_validate raw = Inl (EmptyFQDN i) \<longleftrightarrow>
     (\<exists>b. unmarshal_bundle raw = Some b \<and> b_ProtocolVersion b = 1 \<and> b_Domain b \<noteq> [] \<and>
        i < length (b_Records b) \<and> rec_FQDN (b_Records b ! i) = [] \<and>
        list_all (\<lambda>r. rec_FQDN r \<noteq> [] \<and> 0 < rec_TTL r) (take i (b_Records b)))"
proof -
  have "parse_and_validate raw = Inl (EmptyFQDN i) \<longleftrightarrow>
      (\<exists>b. unmarshal_bundle raw = Some b \<and> b_ProtocolVersion b = 1 \<and> b_Domain b \<noteq> [] \<and>
         check_records 0 (b_Records b) = Some (EmptyFQDN i))"
    by (auto simp: parse_and_validate_def SupportedProtocolVersion_def split: option.splits)
  then show ?thesis by (simp add: check_records_EmptyFQDN)
qed

text \<open>C40. Validation accepts a document exactly when it decodes, its version is the supported
  one, it names a domain, and every record has a name and a positive TTL; and whatever states
  its records carry makes no difference to the checks of the records.\<close>

theorem validation_contract:
  "((\<exists>b. parse_and_validate raw = Inr b) \<longleftrightarrow>
     (\<exists>b. unmarshal_bundle raw = Some b \<and> b_ProtocolVersion b = 1 \<and> b_Domain b \<noteq> [] \<and>
        list_all (\<lambda>r. rec_FQDN r \<noteq> [] \<and> 0 < rec_TTL r) (b_Records b))) \<and>
   check_records i (map (rec_State_update (\<lambda>_. state)) rs) = check_records i rs"
proof
  show "check_records i (map (rec_State_update (\<lambda>_. state)) rs) = check_records i rs"
    by (induction rs arbitrary: i) auto
qed (auto simp: parse_and_validate_Inr_iff valid_bundle_def SupportedProtocolVersion_def)

lemma record_field_frame:
  "(k, d) \<in> set record_fields \<Longrightarrow> fold_key k \<noteq> fold_key ''candidates'' \<Longrightarrow> d j r = Some r' \<Longrightarrow>
     rec_Candidates r' = rec_Candidates r"
  by (auto simp: record_fields_def field_def)

lemma find_candidates_field:
  "find_field record_fields ''candidates'' =
     Some (field rec_Candidates rec_Candidates_update (dec_slice dec_candidate zero_candidate))"
  by (simp add: find_field_def record_fields_def)

lemma dec_pairs_append:
  "dec_pairs fs (kvs @ kvs') s = Option.bind (dec_pairs fs kvs s) (dec_pairs fs kvs')"
  by (induction fs kvs s rule: dec_pairs.induct) (auto split: option.splits)

text \<open>The distinction between bundle versions: a record whose object has no \<open>candidates\<close>
  key keeps a nil slice, and one that ends with an explicit \<open>"candidates":[]\<close> has an empty
  slice that is not nil.\<close>

theorem candidates_nil_iff_key_absent:
  assumes "\<forall>(k, j) \<in> set kvs. fold_key k \<noteq> fold_key ''candidates''"
    and "dec_record (JObj kvs) zero_record = Some r"
  shows "rec_Candidates r = None \<and>
    dec_record (JObj (kvs @ [(''candidates'', JArr [])])) zero_record =
      Some (r\<lparr>rec_Candidates := Some []\<rparr>)"
proof
  have "rec_Candidates r = rec_Candidates zero_record"
    using dec_pairs_frame [where f = rec_Candidates and n = "''candidates''", OF record_field_frame assms(1)]
      assms(2) by (fastforce simp: dec_record_def dec_struct_def)
  then show "rec_Candidates r = None" by (simp add: zero_record_def)
  show "dec_record (JObj (kvs @ [(''candidates'', JArr [])])) zero_record =
      Some (r\<lparr>rec_Candidates := Some []\<rparr>)"
    using assms(2)
    by (simp add: dec_record_def dec_struct_def dec_pairs_append find_candidates_field field_def
        dec_slice_def)
qed

theorem candidates_nil_iff_key_absent_witness:
  "rec_Candidates (zero_record\<lparr>rec_FQDN := ''a''\<rparr>) = None \<and>
   dec_record (JObj [(''fqdn'', JStr ''a''), (''candidates'', JArr [])]) zero_record =
     Some (zero_record\<lparr>rec_FQDN := ''a'', rec_Candidates := Some []\<rparr>)"
proof -
  have k: "\<forall>(k, j) \<in> set [(''fqdn'', JStr ''a'')]. fold_key k \<noteq> fold_key ''candidates''"
    by code_simp
  have d: "dec_record (JObj [(''fqdn'', JStr ''a'')]) zero_record =
      Some (zero_record\<lparr>rec_FQDN := ''a''\<rparr>)"
    by code_simp
  from candidates_nil_iff_key_absent [OF k d] show ?thesis by simp
qed

text \<open>The index by name keeps the last record of a name and folds no case: it answers for
  a key exactly when some record's name, completed by a dot, is that key byte for byte.\<close>

theorem ByFQDN_is_last_exact_match:
  "ByFQDN b k = find (\<lambda>r. normalizeFQDN (rec_FQDN r) = k) (rev (b_Records b)) \<and>
   dom (ByFQDN b) = (\<lambda>r. normalizeFQDN (rec_FQDN r)) ` set (b_Records b) \<and>
   ByFQDN \<lparr>b_ProtocolVersion = 1, b_Domain = ''z'', b_GeneratedAt = [], b_ContentHash = [],
     b_Records = [zero_record\<lparr>rec_FQDN := ''A.z''\<rparr>]\<rparr> ''a.z.'' = None"
proof (intro conjI)
  show "ByFQDN b k = find (\<lambda>r. normalizeFQDN (rec_FQDN r) = k) (rev (b_Records b))"
    by (rule ByFQDN_find)
  show "dom (ByFQDN b) = (\<lambda>r. normalizeFQDN (rec_FQDN r)) ` set (b_Records b)"
    unfolding dom_def ByFQDN_find by (auto simp: find_None_iff simp del: not_None_eq)
qed (simp add: ByFQDN_find normalizeFQDN_def)

end
