(* ===== verification/Interfaces.thy ===== *)
theory Interfaces
  imports Bundle
begin

text \<open>
  The interfaces between the responder's packages, as locales: the operations a client calls
  and the laws its provider promises. The providers interpret them in their own theories
  (\<open>Store\<close>, \<open>Machine\<close>, \<open>Damper\<close>, \<open>Prober\<close>, \<open>Backoff\<close>); the clients prove
  their lemmas from the laws alone.
\<close>

subsection \<open>Bundle stores\<close>

text \<open>
  \<^verbatim>\<open>dnsserver.Store\<close>: the handler only reads the bundle currently served. A store
  that booted has one, and it passed validation.
\<close>

locale served_store =
  fixes current :: "'s \<Rightarrow> decision_bundle option"
    and inv :: "'s \<Rightarrow> bool"
  assumes current_valid: "inv s \<Longrightarrow> \<exists>b. current s = Some b \<and> valid_bundle b"
begin

lemma current_not_nil: "inv s \<Longrightarrow> current s \<noteq> None"
  using current_valid by fastforce

lemma served_ttl_positive:
  "inv s \<Longrightarrow> current s = Some b \<Longrightarrow> r \<in> set (b_Records b) \<Longrightarrow> 0 < rec_TTL r"
  using current_valid [of s] valid_bundleD by fastforce

end

text \<open>
  What the fetch loop (\<^verbatim>\<open>remote.Runner\<close>) relies on beyond reading: applying fetched
  bytes keeps the store serving, an error or an unchanged hash changes nothing, and an applied
  bundle is the one that was fetched.
\<close>

locale fetch_store = served_store current inv
  for current :: "'s \<Rightarrow> decision_bundle option" and inv +
  fixes apply_raw :: "bytes \<Rightarrow> 's \<Rightarrow> 's \<times> (bundle_error + bool)"
  assumes apply_inv: "inv s \<Longrightarrow> inv (fst (apply_raw raw s))"
    and apply_error: "apply_raw raw s = (s', Inl e) \<Longrightarrow> current s' = current s"
    and apply_same: "apply_raw raw s = (s', Inr False) \<Longrightarrow> current s' = current s"
    and apply_new: "apply_raw raw s = (s', Inr True) \<Longrightarrow>
      \<exists>b. parse_and_validate raw = Inr b \<and> current s' = Some b"
begin

fun apply_list :: "bytes list \<Rightarrow> 's \<Rightarrow> 's" where
  "apply_list [] s = s"
| "apply_list (raw # raws) s = apply_list raws (fst (apply_raw raw s))"

lemma apply_list_inv: "inv s \<Longrightarrow> inv (apply_list raws s)"
  by (induction raws arbitrary: s) (simp_all add: apply_inv)

text \<open>The bundle served is the one served before, or one that was fetched and valid.\<close>

lemma apply_current:
  "current (fst (apply_raw raw s)) = current s \<or>
   (\<exists>b. parse_and_validate raw = Inr b \<and> current (fst (apply_raw raw s)) = Some b)"
proof -
  obtain s' r where r: "apply_raw raw s = (s', r)" by fastforce
  consider (err) e where "r = Inl e" | (same) "r = Inr False" | (new) "r = Inr True"
    by (cases r) (metis (full_types))+
  then show ?thesis
  proof cases
    case err
    with r show ?thesis using apply_error by simp
  next
    case same
    with r show ?thesis using apply_same by simp
  next
    case new
    with r show ?thesis using apply_new by simp
  qed
qed

lemma apply_list_current:
  "current (apply_list raws s) = current s \<or>
   (\<exists>raw \<in> set raws. \<exists>b. parse_and_validate raw = Inr b \<and> current (apply_list raws s) = Some b)"
proof (induction raws arbitrary: s)
  case (Cons raw raws)
  from Cons [of "fst (apply_raw raw s)"] apply_current [of raw s] show ?case by auto
qed simp

end

subsection \<open>Local health\<close>

text \<open>
  \<^verbatim>\<open>dnsserver.LocalHealth\<close>: three health words, and a key that completed no check
  cycle is unknown.
\<close>

locale local_health =
  fixes state :: "'m \<Rightarrow> string \<Rightarrow> string"
    and ready :: "'m \<Rightarrow> string \<Rightarrow> bool"
    and inv :: "'m \<Rightarrow> bool"
  assumes vocabulary: "state m k \<in> {HealthHealthy, HealthUnhealthy, HealthUnknown}"
    and unready_unknown: "inv m \<Longrightarrow> \<not> ready m k \<Longrightarrow> state m k = HealthUnknown"

text \<open>
  \<^verbatim>\<open>remote.StatesProvider\<close> beside it: the snapshot sent in every health report agrees
  with the state of each key.
\<close>

locale health_table = local_health state ready inv
  for state :: "'m \<Rightarrow> string \<Rightarrow> string" and ready and inv +
  fixes states :: "'m \<Rightarrow> (string \<rightharpoonup> string)"
  assumes states_agree: "states m k = Some h \<Longrightarrow> state m k = h"
    and states_missing: "states m k = None \<Longrightarrow> state m k = HealthUnknown"
    and states_ready: "inv m \<Longrightarrow> k \<in> dom (states m) \<longleftrightarrow> ready m k"
begin

lemma decided_is_reported:
  "state m k \<noteq> HealthUnknown \<Longrightarrow> states m k = Some (state m k)"
  using states_missing states_agree by (cases "states m k") auto

end

subsection \<open>Damping\<close>

text \<open>
  The evaluator's view of the damper: it serves the fresh answers or keeps the served ones,
  never something else; it lets a forced move and a first answer pass; and it touches no
  other name.
\<close>

locale answer_damper =
  fixes evaluate :: "'d \<Rightarrow> go_time \<Rightarrow> string \<Rightarrow> answer list \<Rightarrow> bool \<Rightarrow> 'd \<times> answer list"
    and served :: "'d \<Rightarrow> string \<Rightarrow> answer list option"
    and same :: "answer list \<Rightarrow> answer list \<Rightarrow> bool"
  assumes same_refl: "same c c"
    and evaluate_served: "evaluate d t f c fo = (d', out) \<Longrightarrow> served d' f = Some out"
    and evaluate_choice: "evaluate d t f c fo = (d', out) \<Longrightarrow> out = c \<or> served d f = Some out"
    and evaluate_first: "served d f = None \<Longrightarrow> snd (evaluate d t f c fo) = c"
    and evaluate_forced: "same (snd (evaluate d t f c True)) c"
    and evaluate_frame: "evaluate d t f c fo = (d', out) \<Longrightarrow> g \<noteq> f \<Longrightarrow> served d' g = served d g"

subsection \<open>Endpoint counts\<close>

text \<open>\<^verbatim>\<open>checks.EndpointSliceLister\<close>: a positive count means a ready address exists.\<close>

locale endpoint_lister =
  fixes ready_count :: "'l \<Rightarrow> string \<Rightarrow> string \<Rightarrow> nat"
    and has_ready :: "'l \<Rightarrow> string \<Rightarrow> string \<Rightarrow> bool"
  assumes ready_count_pos: "0 < ready_count l ns svc \<longleftrightarrow> has_ready l ns svc"

subsection \<open>Retry delays\<close>

text \<open>
  The delay before retry number \<open>n\<close> (from 1): never negative and never shrinking; a capped
  one stays below its ceiling.
\<close>

locale retry_delay =
  fixes delay :: "int \<Rightarrow> duration" and upto :: int
  assumes delay_nonneg: "1 \<le> n \<Longrightarrow> n \<le> upto \<Longrightarrow> 0 \<le> delay n"
    and delay_mono: "1 \<le> m \<Longrightarrow> m \<le> n \<Longrightarrow> n \<le> upto \<Longrightarrow> delay m \<le> delay n"
begin

fun total_delay :: "nat \<Rightarrow> duration" where
  "total_delay 0 = 0"
| "total_delay (Suc n) = total_delay n + delay (int (Suc n))"

lemma total_delay_nonneg: "int n \<le> upto \<Longrightarrow> 0 \<le> total_delay n"
proof (induction n)
  case (Suc n)
  then show ?case using delay_nonneg [of "int (Suc n)"] by simp
qed simp

end

locale capped_delay = retry_delay delay upto
  for delay :: "int \<Rightarrow> duration" and upto +
  fixes ceiling :: duration
  assumes delay_capped: "1 \<le> n \<Longrightarrow> n \<le> upto \<Longrightarrow> delay n \<le> ceiling"
begin

lemma total_delay_capped: "int n \<le> upto \<Longrightarrow> total_delay n \<le> int n * ceiling"
proof (induction n)
  case (Suc n)
  then have "total_delay n \<le> int n * ceiling" "delay (int (Suc n)) \<le> ceiling"
    using delay_capped [of "int (Suc n)"] by auto
  then show ?case by (simp add: algebra_simps)
qed simp

end

end
