(* ===== verification/Prober.thy ===== *)
theory Prober
  imports Interfaces
begin

text \<open>
  The probes of \<^verbatim>\<open>internal/checks/prober.go\<close> and the endpoint counter of
  \<^verbatim>\<open>internal/checks/k8s.go\<close>. The network is an environment: how long a
  dial would take, how long a GET takes and the status it returns (nothing for a transport error
  or a malformed URL), and what the EndpointSlice informer has in its cache.
\<close>

subsection \<open>The EndpointSlice cache\<close>

text \<open>The fields of the Kubernetes objects that the counter reads; other objects are skipped.\<close>

record endpoint =
  ep_Ready :: "bool option"
  ep_Addresses :: "string list"

record endpoint_slice =
  es_Namespace :: string
  es_Labels :: "string \<rightharpoonup> string"
  es_Endpoints :: "endpoint list"

datatype cache_object = SliceObject endpoint_slice | OtherObject

definition endpointSliceServiceLabel :: string where
  "endpointSliceServiceLabel = ''kubernetes.io/service-name''"

text \<open>Indexing a Go map with a missing key gives the empty string.\<close>

definition service_label :: "endpoint_slice \<Rightarrow> string" where
  "service_label es = (case es_Labels es endpointSliceServiceLabel of None \<Rightarrow> [] | Some v \<Rightarrow> v)"

definition count_endpoints :: "nat \<Rightarrow> endpoint list \<Rightarrow> nat" where
  "count_endpoints n0 eps =
     foldl (\<lambda>n ep. if ep_Ready ep = Some True then n + length (ep_Addresses ep) else n) n0 eps"

fun ready_loop :: "string \<Rightarrow> string \<Rightarrow> nat \<Rightarrow> cache_object list \<Rightarrow> nat" where
  "ready_loop ns svc n [] = n"
| "ready_loop ns svc n (OtherObject # objs) = ready_loop ns svc n objs"
| "ready_loop ns svc n (SliceObject es # objs) =
     (if es_Namespace es \<noteq> ns then ready_loop ns svc n objs
      else if service_label es \<noteq> svc then ready_loop ns svc n objs
      else ready_loop ns svc (count_endpoints n (es_Endpoints es)) objs)"

definition ready_count :: "cache_object list \<Rightarrow> string \<Rightarrow> string \<Rightarrow> nat" where
  "ready_count cache ns svc = ready_loop ns svc 0 cache"

text \<open>The lister of a responder: none, or the informer-backed one once it has synced. A start goes
  through the in-cluster configuration and the clientset to \<open>WaitForCacheSync\<close>, which returns when
  the informer has synced or the context is cancelled, and until then blocks its caller:
  \<open>None\<close> is a start that has not returned.\<close>

datatype lister = NoLister | InformerLister

datatype cache_wait = Synced | Unsynced | Cancelled

record k8s_env =
  in_cluster_ok :: bool
  clientset_ok :: bool
  cache_sync :: cache_wait

definition new_k8s_lister :: "k8s_env \<Rightarrow> (string + lister) option" where
  "new_k8s_lister env =
     (if \<not> in_cluster_ok env then Some (Inl ''in-cluster config'')
      else if \<not> clientset_ok env then Some (Inl ''build clientset'')
      else (case cache_sync env of
              Unsynced \<Rightarrow> None
            | Cancelled \<Rightarrow> Some (Inl ''cache sync failed'')
            | Synced \<Rightarrow> Some (Inr InformerLister)))"

subsection \<open>Probes\<close>

record local_check_config =
  cfg_TargetKey :: string
  cfg_Probe :: string
  cfg_Host :: string
  cfg_Port :: int
  cfg_Path :: string
  cfg_Namespace :: string
  cfg_Service :: string
  cfg_IntervalMs :: int
  cfg_FailureThreshold :: int
  cfg_RecoveryThreshold :: int

datatype prober = TCPProber string | HTTPProber string | K8sProber lister string string

text \<open>What a probe meets: how long a dial would take to connect, if it ever does; how long a GET
  takes to its response headers and the status, redirects not followed; the informer's cache.\<close>

record network =
  net_dial :: "string \<Rightarrow> duration option"
  net_get :: "string \<Rightarrow> (duration \<times> int) option"
  net_slices :: "cache_object list"

definition probeTimeout :: duration where "probeTimeout = 500 * millisecond"

fun probe :: "network \<Rightarrow> prober \<Rightarrow> bool" where
  "probe net (TCPProber addr) = (case net_dial net addr of None \<Rightarrow> False | Some d \<Rightarrow> d < probeTimeout)"
| "probe net (HTTPProber url) =
     (case net_get net url of
        None \<Rightarrow> False
      | Some (d, status) \<Rightarrow> d < probeTimeout \<and> 200 \<le> status \<and> status < 400)"
| "probe net (K8sProber NoLister ns svc) = False"
| "probe net (K8sProber InformerLister ns svc) = (0 < ready_count (net_slices net) ns svc)"

definition new_prober :: "local_check_config \<Rightarrow> lister \<Rightarrow> string + prober" where
  "new_prober cfg l =
     (if cfg_Probe cfg = ''tcp''
      then Inr (TCPProber (cfg_Host cfg @ '':'' @ itoa (cfg_Port cfg)))
      else if cfg_Probe cfg = ''http''
      then Inr (HTTPProber (''http://'' @ cfg_Host cfg @ '':'' @ itoa (cfg_Port cfg) @ cfg_Path cfg))
      else if cfg_Probe cfg = ''k8s''
      then Inr (K8sProber l (cfg_Namespace cfg) (cfg_Service cfg))
      else Inl (cfg_Probe cfg))"

subsection \<open>The counter as a provider\<close>

text \<open>What a positive count stands for: a ready endpoint with an address, in a slice of the
  namespace that carries the service's label.\<close>

definition has_ready :: "cache_object list \<Rightarrow> string \<Rightarrow> string \<Rightarrow> bool" where
  "has_ready cache ns svc \<longleftrightarrow> (\<exists>obj \<in> set cache. \<exists>es. obj = SliceObject es \<and>
     es_Namespace es = ns \<and> service_label es = svc \<and>
     (\<exists>ep \<in> set (es_Endpoints es). ep_Ready ep = Some True \<and> ep_Addresses ep \<noteq> []))"

lemma count_endpoints_pos:
  "0 < count_endpoints n eps \<longleftrightarrow>
     0 < n \<or> (\<exists>ep \<in> set eps. ep_Ready ep = Some True \<and> ep_Addresses ep \<noteq> [])"
  by (induction eps arbitrary: n) (auto simp: count_endpoints_def)

lemma ready_loop_pos: "0 < ready_loop ns svc n objs \<longleftrightarrow> 0 < n \<or> has_ready objs ns svc"
proof (induction ns svc n objs rule: ready_loop.induct)
  case (3 ns svc n es objs)
  then show ?case by (simp add: count_endpoints_pos has_ready_def)
qed (simp_all add: has_ready_def)

interpretation kl: endpoint_lister ready_count has_ready
  by unfold_locales (simp add: ready_count_def ready_loop_pos)

subsection \<open>Properties\<close>

text \<open>A k8s probe is up exactly when the responder has a lister and the cache holds a
  slice of the namespace, labelled with the service, one of whose endpoints is ready (its
  condition set and true) and has an address; with no lister it is down.\<close>

theorem k8s_probe_up_iff_ready_address:
  "probe net (K8sProber l ns svc) \<longleftrightarrow> l = InformerLister \<and>
     (\<exists>es ep. SliceObject es \<in> set (net_slices net) \<and> es_Namespace es = ns \<and>
        service_label es = svc \<and> ep \<in> set (es_Endpoints es) \<and>
        ep_Ready ep = Some True \<and> ep_Addresses ep \<noteq> [])"
proof (cases l)
  case InformerLister
  with InformerLister show ?thesis by (auto simp: kl.ready_count_pos has_ready_def)
qed simp

text \<open>A prober is built exactly for the three probe types, and probes what the check
  names: the dialled address determines host and port, an HTTP check is up exactly when a 2xx or
  3xx status comes back within half a second, and every other type is an error that names it.\<close>

theorem new_prober_contract:
  "((\<exists>p. new_prober cfg l = Inr p) \<longleftrightarrow> cfg_Probe cfg \<in> {''tcp'', ''http'', ''k8s''}) \<and>
   (new_prober (cfg\<lparr>cfg_Probe := ''tcp''\<rparr>) l = new_prober (cfg'\<lparr>cfg_Probe := ''tcp''\<rparr>) l \<longleftrightarrow>
      cfg_Host cfg = cfg_Host cfg' \<and> cfg_Port cfg = cfg_Port cfg') \<and>
   (probe net (projr (new_prober (cfg\<lparr>cfg_Probe := ''http''\<rparr>) l)) \<longleftrightarrow>
      (\<exists>d status. d < 500000000 \<and> 200 \<le> status \<and> status < 400 \<and> net_get net
         (''http://'' @ cfg_Host cfg @ '':'' @ itoa (cfg_Port cfg) @ cfg_Path cfg) = Some (d, status)))"
proof (intro conjI)
  show "new_prober (cfg\<lparr>cfg_Probe := ''tcp''\<rparr>) l = new_prober (cfg'\<lparr>cfg_Probe := ''tcp''\<rparr>) l \<longleftrightarrow>
      cfg_Host cfg = cfg_Host cfg' \<and> cfg_Port cfg = cfg_Port cfg'"
    using split_at_last_colon [of "cfg_Host cfg" "itoa (cfg_Port cfg)" "cfg_Host cfg'"
        "itoa (cfg_Port cfg')"] colon_notin_itoa itoa_inj
    by (auto simp: new_prober_def)
qed (auto simp: new_prober_def probeTimeout_def millisecond_def split: option.splits)

end
