(* ===== verification/Machine.thy ===== *)
theory Machine
  imports Interfaces
begin

text \<open>
  The local health state machine of \<^verbatim>\<open>internal/checks/machine.go\<close> and its adapter in
  \<^verbatim>\<open>cmd/zeus-gslb/main.go\<close>. Each method body runs under the machine's mutex, so it is one
  function on the map of targets. The counters count completed checks (at most a few per
  second) and are unbounded here; the thresholds are the \<open>int\<close> values of the bundle.
\<close>

datatype health = Healthy | Unhealthy | Unknown

fun health_str :: "health \<Rightarrow> string" where
  "health_str Healthy = HealthHealthy"
| "health_str Unhealthy = HealthUnhealthy"
| "health_str Unknown = HealthUnknown"

text \<open>Health is ordered from worst to best, so that what a result may do to it can be said with
  the order.\<close>

fun health_rank :: "health \<Rightarrow> nat" where
  "health_rank Unhealthy = 0"
| "health_rank Unknown = 1"
| "health_rank Healthy = 2"

lemma health_rank_inj: "health_rank a = health_rank b \<longleftrightarrow> a = b"
  by (cases a; cases b) simp_all

instantiation health :: linorder
begin

definition less_eq_health :: "health \<Rightarrow> health \<Rightarrow> bool" where
  "less_eq_health a b \<longleftrightarrow> health_rank a \<le> health_rank b"

definition less_health :: "health \<Rightarrow> health \<Rightarrow> bool" where
  "less_health a b \<longleftrightarrow> health_rank a < health_rank b"

instance
  by standard (auto simp: less_eq_health_def less_health_def health_rank_inj)

end

lemma health_bounds [simp]: "Unhealthy \<le> h" "h \<le> Healthy"
  by (cases h; simp add: less_eq_health_def)+

record target_state =
  ts_health :: health
  ts_consecSuccess :: int
  ts_consecFail :: int
  ts_cycles :: int

type_synonym machine = "string \<rightharpoonup> target_state"

definition new_machine :: machine where
  "new_machine = Map.empty"

definition get_or_create :: "machine \<Rightarrow> string \<Rightarrow> target_state" where
  "get_or_create m key = (case m key of
     None \<Rightarrow> \<lparr>ts_health = Unknown, ts_consecSuccess = 0, ts_consecFail = 0, ts_cycles = 0\<rparr>
   | Some t \<Rightarrow> t)"

text \<open>The body of \<open>RecordResult\<close> on the entry of its key.\<close>

definition step_target :: "bool \<Rightarrow> int \<Rightarrow> int \<Rightarrow> target_state \<Rightarrow> target_state" where
  "step_target up failureThreshold recoveryThreshold t0 =
     (let t = t0\<lparr>ts_cycles := ts_cycles t0 + 1\<rparr> in
      if up then
        (let t = t\<lparr>ts_consecSuccess := ts_consecSuccess t + 1, ts_consecFail := 0\<rparr> in
         if ts_health t \<noteq> Healthy \<and> recoveryThreshold \<le> ts_consecSuccess t
         then t\<lparr>ts_health := Healthy\<rparr> else t)
      else
        (let t = t\<lparr>ts_consecFail := ts_consecFail t + 1, ts_consecSuccess := 0\<rparr> in
         if ts_health t \<noteq> Unhealthy \<and> failureThreshold \<le> ts_consecFail t
         then t\<lparr>ts_health := Unhealthy\<rparr> else t))"

definition record_result ::
  "string \<Rightarrow> bool \<Rightarrow> int \<Rightarrow> int \<Rightarrow> machine \<Rightarrow> machine \<times> bool \<times> health" where
  "record_result key up failureThreshold recoveryThreshold m =
     (let ft = (if failureThreshold < 1 then 1 else failureThreshold);
          rt = (if recoveryThreshold < 1 then 1 else recoveryThreshold);
          t = get_or_create m key;
          t' = step_target up ft rt t in
      (m(key \<mapsto> t'), ts_health t' \<noteq> ts_health t, ts_health t'))"

definition State :: "machine \<Rightarrow> string \<Rightarrow> health" where
  "State m key = (case m key of None \<Rightarrow> Unknown | Some t \<Rightarrow> ts_health t)"

definition Ready :: "machine \<Rightarrow> string \<Rightarrow> bool" where
  "Ready m key = (case m key of None \<Rightarrow> False | Some t \<Rightarrow> 1 \<le> ts_cycles t)"

definition States :: "machine \<Rightarrow> (string \<rightharpoonup> string)" where
  "States m k = map_option (\<lambda>t. health_str (ts_health t)) (m k)"

text \<open>\<open>machineAdapter\<close>: the machine as a \<open>dnsserver.LocalHealth\<close>.\<close>

definition adapter_State :: "machine \<Rightarrow> string \<Rightarrow> string" where
  "adapter_State m key = health_str (State m key)"

definition adapter_Ready :: "machine \<Rightarrow> string \<Rightarrow> bool" where
  "adapter_Ready m key = Ready m key"

subsection \<open>The invariant and the provided contracts\<close>

definition target_inv :: "target_state \<Rightarrow> bool" where
  "target_inv t \<longleftrightarrow> 1 \<le> ts_cycles t \<and> 0 \<le> ts_consecSuccess t \<and> 0 \<le> ts_consecFail t \<and>
     (ts_consecSuccess t = 0) \<noteq> (ts_consecFail t = 0) \<and>
     ts_consecSuccess t + ts_consecFail t \<le> ts_cycles t"

definition machine_inv :: "machine \<Rightarrow> bool" where
  "machine_inv m \<longleftrightarrow> (\<forall>t \<in> ran m. target_inv t)"

lemma new_machine_inv [comp_inv]: "machine_inv new_machine"
  by (simp add: machine_inv_def new_machine_def)

lemma machine_inv_lookup: "machine_inv m \<Longrightarrow> m k = Some t \<Longrightarrow> target_inv t"
  by (auto simp: machine_inv_def ran_def)

lemma step_target_inv:
  "0 \<le> ts_cycles t \<Longrightarrow> 0 \<le> ts_consecSuccess t \<Longrightarrow> 0 \<le> ts_consecFail t \<Longrightarrow>
     ts_consecSuccess t + ts_consecFail t \<le> ts_cycles t \<Longrightarrow> target_inv (step_target up ft rt t)"
  by (auto simp: step_target_def target_inv_def Let_def)

lemma record_result_inv [comp_inv]:
  assumes "machine_inv m"
  shows "machine_inv (fst (record_result key up ft rt m))"
proof -
  have "target_inv (step_target up a b (get_or_create m key))" for a b
    using machine_inv_lookup [OF assms, of key]
    by (intro step_target_inv) (auto simp: get_or_create_def target_inv_def split: option.splits)
  then show ?thesis
    using assms by (auto simp: machine_inv_def record_result_def Let_def ran_def split: if_splits)
qed

lemma health_str_inj: "health_str a = health_str b \<longleftrightarrow> a = b"
  by (cases a; cases b) (simp_all add: health_names)

interpretation mh: local_health adapter_State adapter_Ready machine_inv
proof unfold_locales
  show "adapter_State m k \<in> {HealthHealthy, HealthUnhealthy, HealthUnknown}" for m k
    by (cases "State m k") (simp_all add: adapter_State_def)
  show "adapter_State m k = HealthUnknown" if "machine_inv m" "\<not> adapter_Ready m k" for m k
    using that machine_inv_lookup [of m k]
    by (auto simp: adapter_State_def adapter_Ready_def Ready_def State_def target_inv_def
        split: option.splits)
qed

interpretation mt: health_table adapter_State adapter_Ready machine_inv States
proof unfold_locales
  show "adapter_State m k = h" if "States m k = Some h" for m k h
    using that by (auto simp: States_def adapter_State_def State_def)
  show "adapter_State m k = HealthUnknown" if "States m k = None" for m k
    using that by (auto simp: States_def adapter_State_def State_def)
  show "(k \<in> dom (States m)) = adapter_Ready m k" if "machine_inv m" for m k
    using machine_inv_lookup [OF that, of k]
    by (auto simp: States_def adapter_Ready_def Ready_def target_inv_def split: option.splits)
qed

subsection \<open>Histories\<close>

text \<open>
  The results of one target under fixed thresholds, and the specification they are compared
  with: the most recent streak that reached its threshold decides. Histories are newest first.
\<close>

fun record_history :: "string \<Rightarrow> int \<Rightarrow> int \<Rightarrow> bool list \<Rightarrow> machine \<Rightarrow> machine" where
  "record_history key ft rt [] m = m"
| "record_history key ft rt (up # ups) m =
     fst (record_result key up ft rt (record_history key ft rt ups m))"

definition streak :: "bool \<Rightarrow> bool list \<Rightarrow> int" where
  "streak b h = int (length (takeWhile (\<lambda>x. x = b) h))"

fun decided_health :: "int \<Rightarrow> int \<Rightarrow> bool list \<Rightarrow> health" where
  "decided_health ft rt [] = Unknown"
| "decided_health ft rt (up # h) =
     (if up \<and> max 1 rt \<le> streak True (up # h) then Healthy
      else if \<not> up \<and> max 1 ft \<le> streak False (up # h) then Unhealthy
      else decided_health ft rt h)"

lemma streak_simps [simp]:
  "streak b [] = 0"
  "streak b (x # h) = (if x = b then streak b h + 1 else 0)"
  by (simp_all add: streak_def)

definition history_entry :: "int \<Rightarrow> int \<Rightarrow> bool list \<Rightarrow> target_state" where
  "history_entry ft rt h = \<lparr>ts_health = decided_health ft rt h,
     ts_consecSuccess = streak True h, ts_consecFail = streak False h, ts_cycles = int (length h)\<rparr>"

lemma step_history_entry:
  "step_target up (max 1 ft) (max 1 rt) (history_entry ft rt h) = history_entry ft rt (up # h)"
  by (auto simp: step_target_def history_entry_def Let_def)

lemma if_less_max: "(if a < 1 then 1 else a) = max 1 (a :: int)"
  by (simp add: max_def)

lemma record_history_entry:
  "h \<noteq> [] \<Longrightarrow> record_history key ft rt h new_machine = [key \<mapsto> history_entry ft rt h]"
proof (induction h)
  case (Cons up h)
  have "get_or_create (record_history key ft rt h new_machine) key = history_entry ft rt h"
    using Cons.IH by (cases h) (simp_all add: get_or_create_def new_machine_def history_entry_def)
  moreover have "(record_history key ft rt h new_machine)(key \<mapsto> x) = [key \<mapsto> x]" for x
    using Cons.IH by (cases h) (auto simp: new_machine_def fun_eq_iff simp del: record_history.simps(2))
  ultimately show ?case
    by (simp add: record_result_def Let_def if_less_max step_history_entry)
qed simp

text \<open>A success never worsens a target, a failure never improves it.\<close>

lemma record_result_monotone:
  "if up then State m key \<le> State (fst (record_result key up ft rt m)) key
   else State (fst (record_result key up ft rt m)) key \<le> State m key"
  by (auto simp: record_result_def State_def get_or_create_def step_target_def Let_def
      split: option.splits)

text \<open>From any state of the machine, as many failures in a row as the threshold asks for make
  the target unhealthy, a streak of successes healthy.\<close>

lemma steady_streak:
  assumes "machine_inv m"
  shows "\<exists>t. record_history key ft rt (replicate (Suc n) b) m key = Some t \<and>
    int (Suc n) \<le> (if b then ts_consecSuccess t else ts_consecFail t) \<and>
    (max 1 (if b then rt else ft) \<le> (if b then ts_consecSuccess t else ts_consecFail t) \<longrightarrow>
     ts_health t = (if b then Healthy else Unhealthy))"
proof (induction n)
  case 0
  show ?case
    using machine_inv_lookup [OF assms, of key]
    by (auto simp: record_result_def get_or_create_def step_target_def target_inv_def Let_def
        split: option.splits)
next
  case (Suc n)
  then obtain t where "record_history key ft rt (replicate (Suc n) b) m key = Some t"
    "int (Suc n) \<le> (if b then ts_consecSuccess t else ts_consecFail t)" by blast
  then show ?case
    by (subst replicate_Suc) (cases b; simp add: record_result_def get_or_create_def step_target_def Let_def
        del: replicate_Suc)
qed

lemma steady_results_decide:
  assumes "machine_inv m" and "1 \<le> n" and "(if b then rt else ft) \<le> int n"
  shows "State (record_history key ft rt (replicate n b) m) key = (if b then Healthy else Unhealthy) \<and>
    Ready (record_history key ft rt (replicate n b) m) key"
proof -
  obtain n' where n: "n = Suc n'" using assms(2) by (cases n) auto
  obtain t where t: "record_history key ft rt (replicate n b) m key = Some t"
    "ts_health t = (if b then Healthy else Unhealthy)"
    using steady_streak [OF assms(1), of key ft rt n' b] assms(2,3) by (auto simp: n split: if_splits)
  have "machine_inv (record_history key ft rt h m)" for h
    by (induction h) (simp_all add: assms(1) record_result_inv)
  from machine_inv_lookup [OF this t(1)] t show ?thesis
    by (simp add: State_def Ready_def target_inv_def)
qed

lemma failures_make_unhealthy:
  assumes "machine_inv m" and "1 \<le> n" and "ft \<le> int n"
  shows "State (record_history key ft rt (replicate n False) m) key = Unhealthy \<and>
    Ready (record_history key ft rt (replicate n False) m) key"
  using steady_results_decide [OF assms(1,2), where b = False and ft = ft] assms(3) by simp

subsection \<open>Properties\<close>

text \<open>C15. The machine computes the specification: after any history of probe results of a
  target, its health is decided by the most recent streak of successes or failures that
  reached its threshold (unknown when none did), the two counters are the lengths of the
  successes and of the failures that the history ends with, the cycles its length, and the target is ready exactly when it has a result.\<close>

theorem machine_follows_streaks:
  "State (record_history key ft rt h new_machine) key = decided_health ft rt h \<and>
   (Ready (record_history key ft rt h new_machine) key \<longleftrightarrow> h \<noteq> []) \<and>
   (let t = get_or_create (record_history key ft rt h new_machine) key in
      ts_consecSuccess t = streak True h \<and> ts_consecFail t = streak False h \<and> ts_cycles t = int (length h))"
proof (cases h)
  case Nil
  then show ?thesis by (simp add: State_def Ready_def new_machine_def get_or_create_def streak_def)
next
  case (Cons up h')
  then show ?thesis
    by (simp add: State_def Ready_def get_or_create_def record_history_entry history_entry_def Let_def
        del: record_history.simps)
qed

text \<open>One result: it moves a target to unhealthy (healthy) exactly when it completes a
  streak of at least the threshold, thresholds below one counting as one; otherwise the health
  stays; a transition is reported exactly when the health changed; and no other target moves.\<close>

theorem record_result_transition:
  "(case record_result key up ft rt m of (m', transitioned, new) \<Rightarrow>
      new = State m' key \<and> (transitioned \<longleftrightarrow> State m' key \<noteq> State m key) \<and>
      State m' key =
        (if up \<and> max 1 rt \<le> ts_consecSuccess (get_or_create m key) + 1 then Healthy
         else if \<not> up \<and> max 1 ft \<le> ts_consecFail (get_or_create m key) + 1 then Unhealthy
         else State m key) \<and>
      Ready m' = (Ready m)(key := 0 \<le> ts_cycles (get_or_create m key)) \<and>
      (\<forall>other. other = key \<or> m' other = m other))"
  by (auto simp: record_result_def State_def Ready_def get_or_create_def step_target_def Let_def
      max_def fun_eq_iff split: option.splits)

end
