(* ===== verification/ChecksRunner.thy ===== *)
theory ChecksRunner
  imports Prober Machine
begin

text \<open>
  The probe scheduler of \<^verbatim>\<open>internal/checks/runner.go\<close>. A Go map is iterated in an order
  the program does not control: a pass takes the live targets as a list of pairs in the order
  the iteration visits them, and one of the properties is that the order does not matter.
\<close>

record target =
  tg_Config :: local_check_config
  tg_Prober :: prober

definition config_of :: "local_check \<Rightarrow> local_check_config" where
  "config_of lc = \<lparr>cfg_TargetKey = lc_TargetKey lc, cfg_Probe = lc_Probe lc, cfg_Host = lc_Host lc,
     cfg_Port = lc_Port lc, cfg_Path = lc_Path lc, cfg_Namespace = lc_Namespace lc,
     cfg_Service = lc_Service lc, cfg_IntervalMs = lc_IntervalMs lc,
     cfg_FailureThreshold = lc_FailureThreshold lc,
     cfg_RecoveryThreshold = lc_RecoveryThreshold lc\<rparr>"

subsection \<open>Building the targets\<close>

definition add_check ::
  "(string \<rightharpoonup> local_check_config) \<Rightarrow> local_check \<Rightarrow> (string \<rightharpoonup> local_check_config)" where
  "add_check configs lc =
     (let cfg = config_of lc in
      case configs (lc_TargetKey lc) of
        None \<Rightarrow> configs(lc_TargetKey lc \<mapsto> cfg)
      | Some existing \<Rightarrow>
          (if 0 < cfg_IntervalMs cfg \<and>
              (cfg_IntervalMs existing \<le> 0 \<or> cfg_IntervalMs cfg < cfg_IntervalMs existing)
           then configs(lc_TargetKey lc \<mapsto> existing\<lparr>cfg_IntervalMs := cfg_IntervalMs cfg\<rparr>)
           else configs))"

definition build_configs :: "dns_record list \<Rightarrow> (string \<rightharpoonup> local_check_config)" where
  "build_configs records =
     foldl (\<lambda>configs r. foldl add_check configs (rec_LocalChecks r)) Map.empty records"

definition build_targets :: "dns_record list \<Rightarrow> lister \<Rightarrow> (string \<rightharpoonup> target)" where
  "build_targets records l key =
     (case build_configs records key of
        None \<Rightarrow> None
      | Some cfg \<Rightarrow>
          (case new_prober cfg l of
             Inl _ \<Rightarrow> None
           | Inr p \<Rightarrow> Some \<lparr>tg_Config = cfg, tg_Prober = p\<rparr>))"

subsection \<open>A scheduling pass\<close>

record runner =
  rn_lastRun :: "string \<rightharpoonup> go_time"
  rn_machine :: machine
  rn_notifies :: bool  \<comment> \<open>whether \<open>OnTransition\<close> is set\<close>
  rn_emitted :: "(string \<times> health \<times> go_time) list"  \<comment> \<open>its calls so far, oldest first\<close>

definition target_interval :: "target \<Rightarrow> duration" where
  "target_interval t =
     (let interval = wrap64 (cfg_IntervalMs (tg_Config t) * millisecond) in
      if interval \<le> 0 then second else interval)"

definition due :: "go_time \<Rightarrow> runner \<Rightarrow> string \<Rightarrow> target \<Rightarrow> bool" where
  "due now r key t = (case rn_lastRun r key of
     None \<Rightarrow> True
   | Some prev \<Rightarrow> \<not> time_sub now prev < target_interval t)"

definition run_target ::
  "(string \<Rightarrow> network) \<Rightarrow> go_time \<Rightarrow> string \<times> target \<Rightarrow> runner \<Rightarrow> runner" where
  "run_target net now kt r =
     (case kt of (key, t) \<Rightarrow>
        if \<not> due now r key t then r
        else
          (let up = probe (net key) (tg_Prober t) in
           case record_result key up (cfg_FailureThreshold (tg_Config t))
                  (cfg_RecoveryThreshold (tg_Config t)) (rn_machine r) of
             (m', transitioned, new) \<Rightarrow>
               r\<lparr>rn_lastRun := (rn_lastRun r)(key \<mapsto> now), rn_machine := m',
                 rn_emitted := (if transitioned \<and> rn_notifies r
                                then rn_emitted r @ [(key, new, now)] else rn_emitted r)\<rparr>))"

fun run_once ::
  "(string \<Rightarrow> network) \<Rightarrow> go_time \<Rightarrow> (string \<times> target) list \<Rightarrow> runner \<Rightarrow> runner" where
  "run_once net now [] r = r"
| "run_once net now (kt # kts) r = run_once net now kts (run_target net now kt r)"

text \<open>
  \<open>Run\<close>: each round of the select is the context being done or a tick, with the clock, the
  targets in the order the map iteration visits them and the network met on that tick.
\<close>

datatype run_event = RunDone | RunTick go_time "(string \<times> target) list" "string \<Rightarrow> network"

fun run_checks :: "run_event list \<Rightarrow> runner \<Rightarrow> runner" where
  "run_checks [] r = r"
| "run_checks (RunDone # es) r = r"
| "run_checks (RunTick now kts net # es) r = run_checks es (run_once net now kts r)"

subsection \<open>Deduplication\<close>

definition fastest :: "int list \<Rightarrow> int" where
  "fastest is = (let ps = filter (\<lambda>i. 0 < i) is in if ps = [] then hd is else Min (set ps))"

definition merged_config :: "local_check list \<Rightarrow> local_check_config option" where
  "merged_config lcs = (case lcs of
     [] \<Rightarrow> None
   | lc # _ \<Rightarrow> Some ((config_of lc)\<lparr>cfg_IntervalMs := fastest (map lc_IntervalMs lcs)\<rparr>))"

lemma config_of_simps [simp]:
  "cfg_TargetKey (config_of lc) = lc_TargetKey lc"
  "cfg_IntervalMs (config_of lc) = lc_IntervalMs lc"
  by (simp_all add: config_of_def)

lemma add_check_apply:
  "add_check m lc key =
     (if lc_TargetKey lc \<noteq> key then m key
      else Some (case m key of
        None \<Rightarrow> config_of lc
      | Some ex \<Rightarrow>
          (if 0 < lc_IntervalMs lc \<and> (cfg_IntervalMs ex \<le> 0 \<or> lc_IntervalMs lc < cfg_IntervalMs ex)
           then ex\<lparr>cfg_IntervalMs := lc_IntervalMs lc\<rparr> else ex)))"
  by (auto simp: add_check_def Let_def split: option.splits)

lemma fastest_snoc:
  "is \<noteq> [] \<Longrightarrow> fastest (is @ [i]) =
     (if 0 < i \<and> (fastest is \<le> 0 \<or> i < fastest is) then i else fastest is)"
proof -
  assume "is \<noteq> []"
  let ?ps = "filter (\<lambda>i. 0 < i) is"
  show ?thesis
  proof (cases "?ps = []")
    case True
    then have "hd is \<le> 0" using \<open>is \<noteq> []\<close> by (cases "is") (auto split: if_splits)
    with True \<open>is \<noteq> []\<close> show ?thesis by (simp add: fastest_def)
  next
    case False
    then have f: "fastest is = Min (set ?ps)" by (simp add: fastest_def)
    have ne: "finite (set ?ps)" "set ?ps \<noteq> {}" using False by (metis List.finite_set, metis set_empty)
    from Min_in [OF this] have "Min (set ?ps) \<in> set ?ps" .
    then have pos: "0 < Min (set ?ps)" by auto
    have "fastest (is @ [i]) = (if 0 < i then min i (Min (set ?ps)) else Min (set ?ps))"
      using Min_insert [of "set ?ps" i] ne False by (simp add: fastest_def)
    with f pos show ?thesis by auto
  qed
qed

lemma foldl_add_check:
  "foldl add_check Map.empty lcs key = merged_config (filter (\<lambda>lc. lc_TargetKey lc = key) lcs)"
proof (induction lcs rule: rev_induct)
  case (snoc lc lcs)
  let ?same = "filter (\<lambda>lc. lc_TargetKey lc = key) lcs"
  show ?case
  proof (cases "lc_TargetKey lc = key \<and> ?same \<noteq> []")
    case False
    have single: "(config_of lc)\<lparr>cfg_IntervalMs := fastest [lc_IntervalMs lc]\<rparr> = config_of lc"
      by (simp add: fastest_def config_of_def)
    have "filter (\<lambda>lc. lc_TargetKey lc = key) (lcs @ [lc]) =
        (if lc_TargetKey lc = key then [lc] else ?same)"
      using False by simp
    with False snoc single show ?thesis
      using add_check_apply [of "foldl add_check Map.empty lcs" lc key]
      by (cases "lc_TargetKey lc = key") (simp_all add: merged_config_def)
  next
    case True
    then obtain lc0 rest where same: "?same = lc0 # rest" by (cases ?same) auto
    then have ne: "map lc_IntervalMs ?same \<noteq> []" by simp
    have "merged_config (?same @ [lc]) =
        Some ((config_of lc0)\<lparr>cfg_IntervalMs := fastest (map lc_IntervalMs ?same @ [lc_IntervalMs lc])\<rparr>)"
      using same by (simp add: merged_config_def)
    with True same snoc show ?thesis
      using add_check_apply [of "foldl add_check Map.empty lcs" lc key]
      unfolding fastest_snoc [OF ne] by (auto simp: merged_config_def)
  qed
qed (simp add: merged_config_def)

lemma build_configs_flat:
  "build_configs records = foldl add_check Map.empty (concat (map rec_LocalChecks records))"
proof -
  have "foldl (\<lambda>configs r. foldl add_check configs (rec_LocalChecks r)) m records =
      foldl add_check m (concat (map rec_LocalChecks records))" for m
    by (induction records arbitrary: m) simp_all
  then show ?thesis by (simp add: build_configs_def)
qed

subsection \<open>One pass, key by key\<close>

lemma record_result_local:
  assumes "m key = m' key"
  shows "fst (record_result key up ft rt m) key = fst (record_result key up ft rt m') key"
    and "snd (record_result key up ft rt m) = snd (record_result key up ft rt m')"
  using assms by (simp_all add: record_result_def get_or_create_def Let_def)

lemma record_result_State:
  "State (fst (record_result key up ft rt m)) = (State m)(key := snd (snd (record_result key up ft rt m)))"
  "fst (snd (record_result key up ft rt m)) \<longleftrightarrow> State m key \<noteq> snd (snd (record_result key up ft rt m))"
  by (auto simp: record_result_def State_def get_or_create_def Let_def fun_eq_iff split: option.splits)

lemma record_result_other: "k \<noteq> key \<Longrightarrow> fst (record_result key up ft rt m) k = m k"
  by (simp add: record_result_def Let_def)

text \<open>The result a probe of a target would record now.\<close>

abbreviation result_of :: "(string \<Rightarrow> network) \<Rightarrow> runner \<Rightarrow> string \<Rightarrow> target \<Rightarrow> machine \<times> bool \<times> health" where
  "result_of net r key t \<equiv> record_result key (probe (net key) (tg_Prober t))
     (cfg_FailureThreshold (tg_Config t)) (cfg_RecoveryThreshold (tg_Config t)) (rn_machine r)"

definition emits ::
  "(string \<Rightarrow> network) \<Rightarrow> go_time \<Rightarrow> runner \<Rightarrow> string \<times> target \<Rightarrow> (string \<times> health \<times> go_time) list"
where
  "emits net now r kt = (let (key, t) = kt; (_, transitioned, new) = result_of net r key t in
     if due now r key t \<and> transitioned \<and> rn_notifies r then [(key, new, now)] else [])"

lemma run_target_simps:
  "rn_lastRun (run_target net now (key, t) r) =
     (if due now r key t then (rn_lastRun r)(key \<mapsto> now) else rn_lastRun r)"
  "rn_machine (run_target net now (key, t) r) =
     (if due now r key t then fst (result_of net r key t) else rn_machine r)"
  "rn_notifies (run_target net now (key, t) r) = rn_notifies r"
  "rn_emitted (run_target net now (key, t) r) = rn_emitted r @ emits net now r (key, t)"
  by (cases "result_of net r key t"; simp add: run_target_def emits_def Let_def)+

lemma run_target_notifies [simp]: "rn_notifies (run_target net now kt r) = rn_notifies r"
  by (cases kt) (simp add: run_target_simps)

lemma run_target_frame:
  assumes "k \<noteq> fst kt"
  shows "rn_lastRun (run_target net now kt r) k = rn_lastRun r k"
    and "rn_machine (run_target net now kt r) k = rn_machine r k"
  using assms by (cases kt; simp add: run_target_simps record_result_other)+

text \<open>What a pass does to the entries of one key depends on those entries only.\<close>

definition key_step ::
  "(string \<Rightarrow> network) \<Rightarrow> go_time \<Rightarrow> string \<Rightarrow> target \<Rightarrow> runner \<Rightarrow> go_time option \<times> target_state option"
where
  "key_step net now key t r =
     (if due now r key t then (Some now, fst (result_of net r key t) key)
      else (rn_lastRun r key, rn_machine r key))"

lemma key_step_run_target:
  "key_step net now key t r =
     (rn_lastRun (run_target net now (key, t) r) key, rn_machine (run_target net now (key, t) r) key)"
  by (simp add: key_step_def run_target_simps)

lemma local_cong:
  assumes "rn_lastRun r key = rn_lastRun r' key" and "rn_machine r key = rn_machine r' key"
    and "rn_notifies r = rn_notifies r'"
  shows "key_step net now key t r = key_step net now key t r'"
    and "emits net now r (key, t) = emits net now r' (key, t)"
proof -
  have due: "due now r key t = due now r' key t" by (simp add: due_def assms(1))
  note local = record_result_local [of "rn_machine r" key "rn_machine r'", OF assms(2)]
  show "key_step net now key t r = key_step net now key t r'"
    by (simp add: key_step_def due assms local(1))
  show "emits net now r (key, t) = emits net now r' (key, t)"
    unfolding emits_def Let_def by (simp add: due assms(3) local(2) split_beta)
qed

lemma run_once_entries:
  assumes "distinct (map fst kts)"
  shows "(rn_lastRun (run_once net now kts r) k, rn_machine (run_once net now kts r) k) =
    (case map_of kts k of
       None \<Rightarrow> (rn_lastRun r k, rn_machine r k)
     | Some t \<Rightarrow> key_step net now k t r)"
  using assms
proof (induction kts arbitrary: r)
  case (Cons kt kts)
  obtain key t where kt: "kt = (key, t)" by fastforce
  show ?case
  proof (cases "k = key")
    case True
    with Cons.prems have "map_of kts k = None" by (auto simp: kt map_of_eq_None_iff)
    with Cons True show ?thesis by (simp add: kt key_step_run_target)
  next
    case False
    then have "key_step net now k u (run_target net now kt r) = key_step net now k u r" for u
      by (intro local_cong) (simp_all add: run_target_frame kt)
    with Cons False show ?thesis by (simp add: kt run_target_frame split: option.splits)
  qed
qed simp

lemma run_once_emitted:
  assumes "distinct (map fst kts)"
  shows "rn_emitted (run_once net now kts r) = rn_emitted r @ concat (map (emits net now r) kts)"
  using assms
proof (induction kts arbitrary: r)
  case (Cons kt kts)
  have "emits net now (run_target net now kt r) kt' = emits net now r kt'" if "kt' \<in> set kts" for kt'
  proof -
    from Cons.prems have "fst kt \<notin> fst ` set kts" by simp
    with that have "fst kt' \<noteq> fst kt" by (metis imageI)
    then show ?thesis
      using local_cong(2) [of "run_target net now kt r" "fst kt'" r net now "snd kt'"]
      by (simp add: run_target_frame)
  qed
  then have "map (emits net now (run_target net now kt r)) kts = map (emits net now r) kts"
    by simp
  with Cons show ?case by (cases kt) (simp add: run_target_simps cong: map_cong)
qed simp

lemma target_interval_range: "0 < target_interval t \<and> target_interval t \<le> 2 ^ 63 - 1"
  using wrap64_range [of "cfg_IntervalMs (tg_Config t) * millisecond"]
  by (auto simp: target_interval_def Let_def duration_defs)

lemma due_iff:
  "due now r key t \<longleftrightarrow>
     (case rn_lastRun r key of None \<Rightarrow> True | Some prev \<Rightarrow> prev + target_interval t \<le> now)"
  using target_interval_range [of t]
  by (simp add: due_def not_less time_sub_ge_iff split: option.splits)

subsection \<open>What the transitions tell\<close>

definition replay :: "(string \<times> health \<times> go_time) list \<Rightarrow> string \<Rightarrow> health" where
  "replay evs = foldl (\<lambda>s (key, h, at). s(key := h)) (\<lambda>_. Unknown) evs"

lemma run_target_tells:
  assumes "State (rn_machine r) = replay (rn_emitted r)" and "rn_notifies r"
  shows "State (rn_machine (run_target net now kt r)) = replay (rn_emitted (run_target net now kt r))"
proof (cases kt)
  case (Pair key t)
  show ?thesis
    using assms record_result_State [where m = "rn_machine r" and key = key]
    by (simp add: Pair run_target_simps emits_def Let_def split_beta replay_def)
      (metis fun_upd_triv)
qed

lemma run_once_tells:
  "State (rn_machine r) = replay (rn_emitted r) \<Longrightarrow> rn_notifies r \<Longrightarrow>
   State (rn_machine (run_once net now kts r)) = replay (rn_emitted (run_once net now kts r)) \<and>
   rn_notifies (run_once net now kts r)"
  by (induction kts arbitrary: r) (auto simp: run_target_tells)

text \<open>A target that is live and due at every pass of a run has one result recorded per pass.\<close>

definition spaced :: "duration \<Rightarrow> (go_time \<times> 'a) list \<Rightarrow> bool" where
  "spaced d ticks \<longleftrightarrow> sorted_wrt (\<lambda>(s, _) (t, _). s + d \<le> t) ticks"

definition passes :: "(go_time \<times> (string \<times> target) list \<times> (string \<Rightarrow> network)) list \<Rightarrow> run_event list" where
  "passes ticks = map (\<lambda>(now, kts, net). RunTick now kts net) ticks"

lemma record_history_local:
  "m key = m' key \<Longrightarrow> record_history key ft rt h m key = record_history key ft rt h m' key"
  by (induction h) (simp, simp, rule record_result_local(1))

lemma record_history_snoc:
  "record_history key ft rt (h @ [up]) m = record_history key ft rt h (fst (record_result key up ft rt m))"
  by (induction h) simp_all

lemma failing_target_history:
  assumes "\<forall>(now, kts, net) \<in> set ticks. distinct (map fst kts) \<and> map_of kts key = Some t \<and>
      \<not> probe (net key) (tg_Prober t)"
    and "spaced (target_interval t) ticks" and "\<forall>(now, x) \<in> set ticks. due now r key t"
  shows "rn_machine (run_checks (passes ticks) r) key =
    record_history key (cfg_FailureThreshold (tg_Config t)) (cfg_RecoveryThreshold (tg_Config t))
      (replicate (length ticks) False) (rn_machine r) key"
  using assms
proof (induction ticks arbitrary: r)
  case (Cons tick ticks)
  obtain now kts net where tick: "tick = (now, kts, net)" by (cases tick)
  let ?r = "run_once net now kts r"
  have kts: "distinct (map fst kts)" "map_of kts key = Some t" "\<not> probe (net key) (tg_Prober t)"
    and due: "due now r key t"
    using Cons.prems(1,3) by (simp_all add: tick)
  have entries: "rn_lastRun ?r key = Some now"
    "rn_machine ?r key = fst (record_result key False (cfg_FailureThreshold (tg_Config t))
       (cfg_RecoveryThreshold (tg_Config t)) (rn_machine r)) key"
    using run_once_entries [OF kts(1), of net now r key] kts(2,3) due by (simp_all add: key_step_def)
  have "\<forall>(now', x) \<in> set ticks. due now' ?r key t"
    using Cons.prems(2) entries(1) by (auto simp: due_iff spaced_def tick)
  moreover have "spaced (target_interval t) ticks" using Cons.prems(2) by (simp add: spaced_def)
  ultimately have "rn_machine (run_checks (passes ticks) ?r) key =
      record_history key (cfg_FailureThreshold (tg_Config t)) (cfg_RecoveryThreshold (tg_Config t))
        (replicate (length ticks) False) (rn_machine ?r) key"
    using Cons.prems(1) by (intro Cons.IH) simp_all
  also have "\<dots> = record_history key (cfg_FailureThreshold (tg_Config t)) (cfg_RecoveryThreshold (tg_Config t))
      (replicate (length ticks) False) (fst (record_result key False (cfg_FailureThreshold (tg_Config t))
       (cfg_RecoveryThreshold (tg_Config t)) (rn_machine r))) key"
    by (rule record_history_local) (rule entries(2))
  finally show ?case
    by (simp add: passes_def tick record_history_snoc replicate_append_same [symmetric])
qed (simp add: passes_def)

text \<open>Passes without long gaps: each starts at most \<open>d\<close> after the one before, the first after
  \<open>t0\<close>.\<close>

fun gaps :: "duration \<Rightarrow> go_time \<Rightarrow> (go_time \<times> 'a) list \<Rightarrow> bool" where
  "gaps d t0 [] \<longleftrightarrow> True"
| "gaps d t0 ((now, x) # ticks) \<longleftrightarrow> t0 \<le> now \<and> now \<le> t0 + d \<and> gaps d now ticks"

definition last_time :: "go_time \<Rightarrow> (go_time \<times> 'a) list \<Rightarrow> go_time" where
  "last_time t0 ticks = last (t0 # map fst ticks)"

lemma last_time_simps [simp]: "last_time t0 [] = t0" "last_time t0 ((now, x) # ticks) = last_time now ticks"
  by (simp_all add: last_time_def)

text \<open>When the target can next be probed, seen from \<open>t0\<close>.\<close>

definition next_due :: "runner \<Rightarrow> string \<Rightarrow> target \<Rightarrow> go_time \<Rightarrow> go_time" where
  "next_due r key t t0 = (case rn_lastRun r key of None \<Rightarrow> t0 | Some prev \<Rightarrow> max t0 (prev + target_interval t))"

lemma next_due_later:
  assumes "\<not> due now r key t" and "t0 \<le> now"
  shows "next_due r key t now = next_due r key t t0"
  using assms by (auto simp: next_due_def due_iff split: option.splits)

text \<open>A live target whose probes all give \<open>b\<close> has that result recorded a number of times: \<open>k\<close> times
  at least once \<open>k\<close> intervals, each with a gap, have passed since it was due.\<close>

lemma steady_target_history:
  assumes "\<forall>(now, kts, net) \<in> set ticks. distinct (map fst kts) \<and> map_of kts key = Some t \<and>
      probe (net key) (tg_Prober t) = b"
    and "gaps d t0 ticks" and "0 < d"
  shows "\<exists>n. rn_machine (run_checks (passes ticks) r) key =
      record_history key (cfg_FailureThreshold (tg_Config t)) (cfg_RecoveryThreshold (tg_Config t))
        (replicate n b) (rn_machine r) key \<and>
    (\<forall>k. next_due r key t t0 + d + int k * (target_interval t + d) \<le> last_time t0 ticks \<longrightarrow> k < n)"
  using assms
proof (induction ticks arbitrary: r t0)
  case Nil
  have "\<not> next_due r key t t0 + d + int k * (target_interval t + d) \<le> t0" for k
  proof -
    have "0 \<le> int k * (target_interval t + d)" using target_interval_range [of t] assms(3) by simp
    then show ?thesis using assms(3) by (auto simp: next_due_def split: option.splits)
  qed
  then show ?case by (intro exI [of _ "0 :: nat"]) (simp add: passes_def)
next
  case (Cons tick ticks)
  obtain now kts net where tick: "tick = (now, kts, net)" by (cases tick)
  let ?r = "run_once net now kts r"
  have kts: "distinct (map fst kts)" "map_of kts key = Some t" "probe (net key) (tg_Prober t) = b"
    and now: "t0 \<le> now" "now \<le> t0 + d" "gaps d now ticks"
    using Cons.prems by (simp_all add: tick)
  note entries = run_once_entries [OF kts(1), of net now r key]
  obtain n where IH: "rn_machine (run_checks (passes ticks) ?r) key =
      record_history key (cfg_FailureThreshold (tg_Config t)) (cfg_RecoveryThreshold (tg_Config t))
        (replicate n b) (rn_machine ?r) key"
    "\<And>k. next_due ?r key t now + d + int k * (target_interval t + d) \<le> last_time now ticks \<Longrightarrow> k < n"
    using Cons.IH [of now ?r] Cons.prems(1) now(3) assms(3) by auto
  show ?case
  proof (cases "due now r key t")
    case False
    then have "rn_machine ?r key = rn_machine r key" "rn_lastRun ?r key = rn_lastRun r key"
      using entries kts(2) by (simp_all add: key_step_def)
    then show ?thesis
      using IH next_due_later [OF False now(1)] record_history_local [of "rn_machine ?r" key "rn_machine r"]
      by (intro exI [of _ n]) (simp add: tick passes_def next_due_def)
  next
    case True
    then have rec: "rn_machine ?r key = fst (record_result key b (cfg_FailureThreshold (tg_Config t))
        (cfg_RecoveryThreshold (tg_Config t)) (rn_machine r)) key" "rn_lastRun ?r key = Some now"
      using entries kts(2,3) by (simp_all add: key_step_def)
    have later: "next_due ?r key t now + int k * (target_interval t + d) + d \<le>
        next_due r key t t0 + d + int (Suc k) * (target_interval t + d)" for k
    proof -
      have "now \<le> next_due r key t t0 + d"
        using now(2) by (auto simp: next_due_def split: option.splits)
      then show ?thesis
        using rec(2) target_interval_range [of t] by (simp add: next_due_def algebra_simps)
    qed
    have "k < Suc n" if "next_due r key t t0 + d + int k * (target_interval t + d) \<le> last_time now ticks" for k
    proof (cases k)
      case (Suc k')
      then show ?thesis using that later [of k'] IH(2) [of k'] by simp
    qed simp
    moreover have "rn_machine (run_checks (passes ticks) ?r) key =
        record_history key (cfg_FailureThreshold (tg_Config t)) (cfg_RecoveryThreshold (tg_Config t))
          (replicate n b @ [b]) (rn_machine r) key"
      unfolding IH(1) record_history_snoc by (rule record_history_local) (rule rec(1))
    ultimately show ?thesis
      by (intro exI [of _ "Suc n"]) (simp add: tick passes_def replicate_append_same)
  qed
qed

text \<open>The verdict on such a target, once as many intervals have passed as its threshold asks for.\<close>

lemma steady_verdict:
  assumes "machine_inv (rn_machine r)" and "\<forall>prev. rn_lastRun r key = Some prev \<longrightarrow> prev \<le> t0"
    and "\<forall>(now, kts, net) \<in> set ticks. distinct (map fst kts) \<and> map_of kts key = Some t \<and>
      probe (net key) (tg_Prober t) = b"
    and "gaps d t0 ticks" and "0 < d"
    and "threshold = max 1 (if b then cfg_RecoveryThreshold (tg_Config t) else cfg_FailureThreshold (tg_Config t))"
    and "t0 + threshold * (target_interval t + d) \<le> last_time t0 ticks"
  shows "State (rn_machine (run_checks (passes ticks) r)) key = (if b then Healthy else Unhealthy) \<and>
    Ready (rn_machine (run_checks (passes ticks) r)) key"
proof -
  obtain n where n: "rn_machine (run_checks (passes ticks) r) key =
      record_history key (cfg_FailureThreshold (tg_Config t)) (cfg_RecoveryThreshold (tg_Config t))
        (replicate n b) (rn_machine r) key"
    "\<And>k. next_due r key t t0 + d + int k * (target_interval t + d) \<le> last_time t0 ticks \<Longrightarrow> k < n"
    using steady_target_history [OF assms(3-5)] by blast
  have "next_due r key t t0 \<le> t0 + target_interval t"
    using assms(2) target_interval_range [of t] by (auto simp: next_due_def split: option.splits)
  moreover obtain k where k: "threshold = int (Suc k)"
    using assms(6) by (metis max.cobounded1 zero_less_one order_less_le_trans pos_int_cases Suc_pred)
  ultimately have "k < n" using assms(7) by (intro n(2)) (simp add: algebra_simps)
  then have "1 \<le> n" "threshold \<le> int n" using k by linarith+
  from steady_results_decide [OF assms(1) this(1), of b] this(2) assms(6)
  show ?thesis by (simp add: State_def Ready_def n(1) split: if_splits)
qed

subsection \<open>Properties\<close>

definition sample_target :: target where
  "sample_target = \<lparr>tg_Config = (config_of zero_local_check)\<lparr>cfg_IntervalMs := 1000\<rparr>,
     tg_Prober = TCPProber ''h:1''\<rparr>"

definition fresh_runner :: runner where
  "fresh_runner = \<lparr>rn_lastRun = Map.empty, rn_machine = new_machine, rn_notifies = True,
     rn_emitted = []\<rparr>"

text \<open>C34. Deduplication: a target key that any record checks is probed with the definition and
  thresholds of its first occurrence, at the fastest positive interval any record asks for
  (the first one's when none is positive), and is skipped when its probe type is unknown.\<close>

theorem build_targets_dedupes:
  "build_targets records l key =
     (case filter (\<lambda>lc. lc_TargetKey lc = key) (concat (map rec_LocalChecks records)) of
        [] \<Rightarrow> None
      | lc # lcs \<Rightarrow>
          (let cfg = (config_of lc)\<lparr>cfg_IntervalMs := fastest (map lc_IntervalMs (lc # lcs))\<rparr> in
           case new_prober cfg l of
             Inl _ \<Rightarrow> None
           | Inr p \<Rightarrow> Some \<lparr>tg_Config = cfg, tg_Prober = p\<rparr>))"
  by (simp add: build_targets_def build_configs_flat foldl_add_check merged_config_def Let_def
      split: list.splits)

text \<open>C16. Detection in time: while passes keep coming with gaps of at most \<open>d\<close> and a live target's
  probes all fail (or all succeed), the machine calls it unhealthy (or healthy) at the latest when
  as many intervals, each with one gap, have passed as the threshold asks for results, whatever
  was recorded or scheduled before.\<close>

theorem verdict_in_time:
  assumes "machine_inv (rn_machine r)" and "\<forall>prev. rn_lastRun r key = Some prev \<longrightarrow> prev \<le> t0"
    and "\<forall>(now, kts, net) \<in> set ticks. distinct (map fst kts) \<and> map_of kts key = Some t \<and>
      probe (net key) (tg_Prober t) = b"
    and "gaps d t0 ticks" and "0 < d"
    and "threshold = max 1 (if b then cfg_RecoveryThreshold (tg_Config t) else cfg_FailureThreshold (tg_Config t))"
    and "t0 + threshold * (target_interval t + d) \<le> last_time t0 ticks"
  shows "State (rn_machine (run_checks (passes ticks) r)) key = (if b then Healthy else Unhealthy) \<and>
    Ready (rn_machine (run_checks (passes ticks) r)) key"
  by (rule steady_verdict [OF assms])

theorem verdict_in_time_witness:
  "State (rn_machine (run_checks (passes (map (\<lambda>i. (i * second, [(''k'', sample_target)],
     \<lambda>_. \<lparr>net_dial = Map.empty, net_get = Map.empty, net_slices = []\<rparr>)) [1, 2, 3])) fresh_runner)) ''k'' = Unhealthy"
proof -
  let ?down = "\<lambda>_ :: string. \<lparr>net_dial = Map.empty, net_get = Map.empty, net_slices = []\<rparr>"
  let ?ticks = "map (\<lambda>i. (i * second, [(''k'', sample_target)], ?down)) [1, 2, 3]"
  have "target_interval sample_target = second"
    by (simp add: target_interval_def sample_target_def duration_defs wrap64_def)
  then show ?thesis
    using verdict_in_time [of fresh_runner "''k''" 0 ?ticks sample_target False second 1]
    by (simp add: fresh_runner_def new_machine_inv sample_target_def config_of_def zero_local_check_def duration_defs)
qed

text \<open>The schedule: in a pass at \<open>now\<close>, a key is probed exactly when it is a live target
  that never ran or last ran at least its interval ago; only then is its last run set and a
  result recorded. A key that is not a live target keeps its last run: nothing is forgotten.\<close>

theorem run_once_schedule:
  assumes "distinct (map fst kts)"
  shows "rn_lastRun (run_once net now kts r) k =
      (case map_of kts k of
         None \<Rightarrow> rn_lastRun r k
       | Some t \<Rightarrow>
           (case rn_lastRun r k of
              None \<Rightarrow> Some now
            | Some prev \<Rightarrow> if prev + target_interval t \<le> now then Some now else Some prev)) \<and>
    rn_machine (run_once net now kts r) k =
      (case map_of kts k of
         None \<Rightarrow> rn_machine r k
       | Some t \<Rightarrow>
           (if due now r k t
            then fst (record_result k (probe (net k) (tg_Prober t))
                   (cfg_FailureThreshold (tg_Config t)) (cfg_RecoveryThreshold (tg_Config t))
                   (rn_machine r)) k
            else rn_machine r k))"
  using run_once_entries [OF assms, of net now r k]
  by (auto simp: key_step_def due_iff split: option.splits)

theorem run_once_schedule_witness:
  "rn_lastRun (run_once (\<lambda>_. undefined) (9 * second) [(''k'', sample_target)]
     (fresh_runner\<lparr>rn_lastRun := [''k'' \<mapsto> 8 * second, ''gone'' \<mapsto> second]\<rparr>)) ''k'' = Some (9 * second) \<and>
   rn_lastRun (run_once (\<lambda>_. undefined) (9 * second) [(''k'', sample_target)]
     (fresh_runner\<lparr>rn_lastRun := [''k'' \<mapsto> 8 * second, ''gone'' \<mapsto> second]\<rparr>)) ''gone'' = Some second"
proof -
  have "target_interval sample_target = second"
    by (simp add: target_interval_def sample_target_def duration_defs wrap64_def)
  then show ?thesis
    using run_once_schedule [of "[(''k'', sample_target)]" "\<lambda>_. undefined" "9 * second"
        "fresh_runner\<lparr>rn_lastRun := [''k'' \<mapsto> 8 * second, ''gone'' \<mapsto> second]\<rparr>" "''k''"]
      run_once_schedule [of "[(''k'', sample_target)]" "\<lambda>_. undefined" "9 * second"
        "fresh_runner\<lparr>rn_lastRun := [''k'' \<mapsto> 8 * second, ''gone'' \<mapsto> second]\<rparr>" "''gone''"]
    by (simp add: duration_defs)
qed

text \<open>C33. The order in which a pass visits the targets makes no difference: not to the
  schedule, not to the health states, and not to which transitions are reported.\<close>

theorem run_once_order_irrelevant:
  assumes "distinct (map fst kts)" and "mset kts = mset kts'"
  shows "rn_lastRun (run_once net now kts r) = rn_lastRun (run_once net now kts' r) \<and>
    rn_machine (run_once net now kts r) = rn_machine (run_once net now kts' r) \<and>
    mset (rn_emitted (run_once net now kts r)) = mset (rn_emitted (run_once net now kts' r))"
proof -
  have d: "distinct (map fst kts')"
    using assms by (metis mset_map mset_eq_imp_distinct_iff)
  have "map_of kts = map_of kts'"
    using assms d by (metis map_of_inject_set set_mset_mset)
  then have "(rn_lastRun (run_once net now kts r) k, rn_machine (run_once net now kts r) k) =
      (rn_lastRun (run_once net now kts' r) k, rn_machine (run_once net now kts' r) k)" for k
    by (simp add: run_once_entries assms(1) d)
  moreover have "mset (concat (map (emits net now r) xs)) = (\<Sum>x\<in>#mset xs. mset (emits net now r x))" for xs
    by (induction xs) simp_all
  ultimately show ?thesis
    by (simp add: run_once_emitted assms d fun_eq_iff)
qed

definition up_net :: network where
  "up_net = \<lparr>net_dial = (\<lambda>_. Some 0), net_get = (\<lambda>_. None), net_slices = []\<rparr>"

theorem run_once_order_irrelevant_witness:
  "rn_machine (run_once (\<lambda>_. up_net) 1 [(''a'', sample_target), (''b'', sample_target)] fresh_runner) =
   rn_machine (run_once (\<lambda>_. up_net) 1 [(''b'', sample_target), (''a'', sample_target)] fresh_runner)"
proof -
  show ?thesis
    using run_once_order_irrelevant [of "[(''a'', sample_target), (''b'', sample_target)]"
        "[(''b'', sample_target), (''a'', sample_target)]" "\<lambda>_. up_net" 1 fresh_runner] by simp
qed

text \<open>The transitions reported tell the whole story: replaying all calls of
  \<open>OnTransition\<close> since the start, in order, over "every target unknown" gives exactly the
  health of every target, whatever the targets, probe results and clock were.\<close>

theorem transitions_tell_health:
  "State (rn_machine (run_checks es fresh_runner)) = replay (rn_emitted (run_checks es fresh_runner))"
proof -
  have "State (rn_machine (run_checks es r)) = replay (rn_emitted (run_checks es r))"
    if "State (rn_machine r) = replay (rn_emitted r)" "rn_notifies r" for r
    using that by (induction es r rule: run_checks.induct) (auto simp: run_once_tells)
  then show ?thesis
    by (simp add: fresh_runner_def State_def new_machine_def replay_def fun_eq_iff)
qed

text \<open>The interval of a target is always positive: the milliseconds asked for as long as
  their nanoseconds fit 63 bits, and one second for a missing, negative or zero interval; past
  that bound the product wraps, and the smallest such interval also falls back to a second.\<close>

theorem target_interval_contract:
  "0 < target_interval t \<and>
   target_interval t =
     (let ms = cfg_IntervalMs (tg_Config t) in
      if 1 \<le> ms \<and> ms \<le> 9223372036854 then ms * 1000000
      else if ms \<le> 0 \<and> - 9223372036854 \<le> ms then second
      else (let w = wrap64 (ms * 1000000) in if w \<le> 0 then second else w)) \<and>
   target_interval (t\<lparr>tg_Config := (tg_Config t)\<lparr>cfg_IntervalMs := 9223372036855\<rparr>\<rparr>) = second"
proof (intro conjI)
  show "0 < target_interval t" using target_interval_range by blast
  show "target_interval (t\<lparr>tg_Config := (tg_Config t)\<lparr>cfg_IntervalMs := 9223372036855\<rparr>\<rparr>) = second"
    by (simp add: target_interval_def wrap64_def duration_defs)
qed (auto simp: target_interval_def Let_def millisecond_def)

end
