(* ===== verification/Damper.thy ===== *)
theory Damper
  imports Interfaces
begin

text \<open>
  Flap damping (\<^verbatim>\<open>internal/dnsserver/damper.go\<close>). The clock is an argument. One name's
  bookkeeping is a record, a name never seen has none; \<open>damp_step\<close> is \<open>Evaluate\<close> on that
  entry and \<open>damper_evaluate\<close> on the whole table.
\<close>

definition dampWindow :: duration where "dampWindow = 10 * minute"
definition dampChangeThreshold :: nat where "dampChangeThreshold = 3"
definition unfreezeQuietPeriod :: duration where "unfreezeQuietPeriod = 20 * minute"

lemmas damp_constants = dampWindow_def dampChangeThreshold_def unfreezeQuietPeriod_def duration_defs

record damp_state =
  d_served :: "answer list"
  d_changeLog :: "go_time list"
  d_frozen :: bool
  d_lastSuppressed :: go_time

type_synonym damper = "string \<rightharpoonup> damp_state"

definition new_damper :: damper where
  "new_damper = Map.empty"

subsection \<open>Comparing answer sets\<close>

definition answer_key :: "answer \<Rightarrow> string" where
  "answer_key a = ans_IP a @ '':'' @ itoa (ans_Port a)"

definition count_keys :: "answer list \<Rightarrow> string \<Rightarrow> int" where
  "count_keys xs = foldl (\<lambda>m a. m(answer_key a := m (answer_key a) + 1)) (\<lambda>_. 0) xs"

fun consume_keys :: "(string \<Rightarrow> int) \<Rightarrow> answer list \<Rightarrow> bool" where
  "consume_keys m [] = True"
| "consume_keys m (a # as) =
     (let k = answer_key a in
      if m k = 0 then False else consume_keys (m(k := m k - 1)) as)"

definition answer_set_equal :: "answer list \<Rightarrow> answer list \<Rightarrow> bool" where
  "answer_set_equal a b \<longleftrightarrow> (if length a \<noteq> length b then False else consume_keys (count_keys a) b)"

subsection \<open>Evaluation\<close>

definition prune_window :: "go_time list \<Rightarrow> go_time \<Rightarrow> go_time list" where
  "prune_window ts now = (let cutoff = now - dampWindow in filter (\<lambda>t. cutoff < t) ts)"

definition maybe_auto_unfreeze :: "damp_state \<Rightarrow> go_time \<Rightarrow> damp_state" where
  "maybe_auto_unfreeze rs now =
     (if \<not> d_frozen rs then rs
      else if unfreezeQuietPeriod \<le> time_sub now (d_lastSuppressed rs)
      then rs\<lparr>d_frozen := False, d_changeLog := []\<rparr>
      else rs)"

definition fresh_damp_state :: "answer list \<Rightarrow> damp_state" where
  "fresh_damp_state candidate =
     \<lparr>d_served = candidate, d_changeLog = [], d_frozen = False, d_lastSuppressed = zero_time\<rparr>"

definition damp_known :: "damp_state \<Rightarrow> go_time \<Rightarrow> answer list \<Rightarrow> bool \<Rightarrow> damp_state \<times> answer list" where
  "damp_known rs now candidate forced =
     (if answer_set_equal (d_served rs) candidate then (rs, d_served rs)
      else if forced then (rs\<lparr>d_served := candidate\<rparr>, candidate)
      else if d_frozen rs then (rs\<lparr>d_lastSuppressed := now\<rparr>, d_served rs)
      else
        (let tentative = prune_window (d_changeLog rs @ [now]) now in
         if dampChangeThreshold < length tentative
         then (rs\<lparr>d_frozen := True, d_lastSuppressed := now\<rparr>, d_served rs)
         else (rs\<lparr>d_changeLog := tentative, d_served := candidate\<rparr>, candidate)))"

definition damp_step ::
  "damp_state option \<Rightarrow> go_time \<Rightarrow> answer list \<Rightarrow> bool \<Rightarrow> damp_state \<times> answer list" where
  "damp_step entry now candidate forced =
     (case entry of
        None \<Rightarrow> (fresh_damp_state candidate, candidate)
      | Some rs \<Rightarrow> damp_known (maybe_auto_unfreeze rs now) now candidate forced)"

definition damper_evaluate ::
  "damper \<Rightarrow> go_time \<Rightarrow> string \<Rightarrow> answer list \<Rightarrow> bool \<Rightarrow> damper \<times> answer list" where
  "damper_evaluate d now fqdn candidate forced =
     (case damp_step (d fqdn) now candidate forced of (rs, out) \<Rightarrow> (d(fqdn \<mapsto> rs), out))"

definition Frozen :: "damper \<Rightarrow> string \<Rightarrow> bool" where
  "Frozen d fqdn = (case d fqdn of None \<Rightarrow> False | Some rs \<Rightarrow> d_frozen rs)"

definition served_answers :: "damper \<Rightarrow> string \<Rightarrow> answer list option" where
  "served_answers d fqdn = map_option d_served (d fqdn)"

subsection \<open>Answer sets are multisets\<close>

lemma answer_key_inj: "answer_key a = answer_key b \<longleftrightarrow> a = b"
proof
  assume "answer_key a = answer_key b"
  then have "ans_IP a = ans_IP b \<and> itoa (ans_Port a) = itoa (ans_Port b)"
    using split_at_last_colon [of "ans_IP a" "itoa (ans_Port a)" "ans_IP b" "itoa (ans_Port b)"]
    by (simp add: answer_key_def colon_notin_itoa)
  then show "a = b" by (auto dest: itoa_inj intro: answer.equality)
qed simp

lemma count_keys_count: "count_keys xs (answer_key a) = int (count (mset xs) a)"
  by (induction xs rule: rev_induct) (auto simp: count_keys_def answer_key_inj)

lemma consume_keys_iff:
  assumes "\<And>a. m (answer_key a) = int (count M a)"
  shows "consume_keys m xs \<longleftrightarrow> mset xs \<subseteq># M"
  using assms
proof (induction xs arbitrary: m M)
  case (Cons x xs)
  show ?case
  proof (cases "x \<in># M")
    case False
    then have "m (answer_key x) = 0" using Cons.prems [of x] by (simp add: not_in_iff)
    moreover have "\<not> add_mset x (mset xs) \<subseteq># M"
      using False mset_subset_eqD by force
    ultimately show ?thesis by simp
  next
    case True
    then have pos: "m (answer_key x) \<noteq> 0" using Cons.prems [of x] by simp
    let ?m = "m(answer_key x := m (answer_key x) - 1)"
    have "?m (answer_key a) = int (count (M - {#x#}) a)" for a
      using Cons.prems True by (auto simp: answer_key_inj of_nat_diff Suc_leI)
    then have "consume_keys ?m xs \<longleftrightarrow> mset xs \<subseteq># M - {#x#}" by (rule Cons.IH)
    with pos have "consume_keys m (x # xs) \<longleftrightarrow> mset xs \<subseteq># M - {#x#}"
      by (simp only: consume_keys.simps Let_def if_False)
    with True show ?thesis by (simp add: insert_subset_eq_iff)
  qed
qed simp

lemma answer_set_equal_mset: "answer_set_equal a b \<longleftrightarrow> mset a = mset b"
proof
  assume "answer_set_equal a b"
  then have "length a = length b" "mset b \<subseteq># mset a"
    using consume_keys_iff [OF count_keys_count, of a b]
    by (auto simp: answer_set_equal_def split: if_splits)
  then show "mset a = mset b"
    by (metis mset_subset_size size_mset subset_mset.le_less nat_less_le)
next
  assume "mset a = mset b"
  then show "answer_set_equal a b"
    using consume_keys_iff [OF count_keys_count, of a b]
    by (auto simp: answer_set_equal_def dest: mset_eq_length)
qed

subsection \<open>The damper as a provider\<close>

lemma maybe_auto_unfreeze_served [simp]: "d_served (maybe_auto_unfreeze rs now) = d_served rs"
  by (simp add: maybe_auto_unfreeze_def)

lemma damp_known_served: "damp_known rs now c fo = (rs', out) \<Longrightarrow> d_served rs' = out"
  by (auto simp: damp_known_def Let_def split: if_splits)

lemma damp_known_choice: "damp_known rs now c fo = (rs', out) \<Longrightarrow> out = c \<or> out = d_served rs"
  by (auto simp: damp_known_def Let_def split: if_splits)

interpretation ad: answer_damper damper_evaluate served_answers answer_set_equal
proof unfold_locales
  fix d d' t f c fo out g
  show "answer_set_equal c c" by (simp add: answer_set_equal_mset)
  show "served_answers d' f = Some out" if "damper_evaluate d t f c fo = (d', out)"
    using that damp_known_served
    by (fastforce simp: damper_evaluate_def damp_step_def served_answers_def fresh_damp_state_def
        split: prod.splits option.splits)
  show "out = c \<or> served_answers d f = Some out" if "damper_evaluate d t f c fo = (d', out)"
    using that damp_known_choice
    by (fastforce simp: damper_evaluate_def damp_step_def served_answers_def
        split: prod.splits option.splits)
  show "snd (damper_evaluate d t f c fo) = c" if "served_answers d f = None"
    using that by (simp add: damper_evaluate_def damp_step_def served_answers_def)
  show "answer_set_equal (snd (damper_evaluate d t f c True)) c"
    by (auto simp: damper_evaluate_def damp_step_def damp_known_def answer_set_equal_mset
        split: prod.splits option.splits if_splits)
  show "served_answers d' g = served_answers d g"
    if "damper_evaluate d t f c fo = (d', out)" "g \<noteq> f"
    using that by (auto simp: damper_evaluate_def served_answers_def split: prod.splits)
qed

subsection \<open>Runs of one name\<close>

text \<open>
  Successive evaluations of one name: the time, the fresh answers, whether the move is forced.
  An evaluation is an accepted change when it is not forced, its answers differ from the ones
  served, and they are served.
\<close>

type_synonym damp_event = "go_time \<times> answer list \<times> bool"

fun damp_run :: "damp_state option \<Rightarrow> damp_event list \<Rightarrow> damp_state option \<times> answer list list" where
  "damp_run s [] = (s, [])"
| "damp_run s ((now, c, fo) # es) =
     (case damp_step s now c fo of
        (rs, out) \<Rightarrow> (case damp_run (Some rs) es of (s', outs) \<Rightarrow> (s', out # outs)))"

definition accepted_change :: "damp_state option \<Rightarrow> damp_event \<Rightarrow> bool" where
  "accepted_change s e = (case e of (now, c, fo) \<Rightarrow>
     (case s of
        None \<Rightarrow> False
      | Some rs \<Rightarrow> \<not> fo \<and> \<not> answer_set_equal (d_served rs) c \<and>
          answer_set_equal (snd (damp_step s now c fo)) c))"

fun accepted_times :: "damp_state option \<Rightarrow> damp_event list \<Rightarrow> go_time list" where
  "accepted_times s [] = []"
| "accepted_times s ((now, c, fo) # es) =
     (if accepted_change s (now, c, fo) then [now] else []) @
     accepted_times (Some (fst (damp_step s now c fo))) es"

text \<open>How many instants lie after a cutoff; the log keeps at least as many as the history.\<close>

definition after :: "go_time \<Rightarrow> go_time list \<Rightarrow> nat" where
  "after c ts = length (filter (\<lambda>t. c < t) ts)"

definition log_inv :: "damp_state \<Rightarrow> go_time list \<Rightarrow> go_time \<Rightarrow> bool" where
  "log_inv rs hist now \<longleftrightarrow> (\<forall>t \<in> set hist. t \<le> now) \<and>
     (\<forall>c \<ge> now - dampWindow. after c hist \<le> after c (d_changeLog rs)) \<and>
     (d_frozen rs \<longrightarrow> (\<forall>t \<in> set hist. t \<le> d_lastSuppressed rs))"

definition rate_ok :: "go_time list \<Rightarrow> bool" where
  "rate_ok hist \<longleftrightarrow> (\<forall>t. length (filter (\<lambda>u. t - dampWindow < u \<and> u \<le> t) hist) \<le> dampChangeThreshold)"

lemma after_simps [simp]:
  "after c [] = 0"
  "after c (ts @ us) = after c ts + after c us"
  "after c [t] = (if c < t then 1 else 0)"
  by (simp_all add: after_def)

lemma after_zero: "\<forall>t \<in> set ts. t \<le> c \<Longrightarrow> after c ts = 0"
  by (auto simp: after_def filter_empty_conv)

lemma after_prune: "now - dampWindow \<le> c \<Longrightarrow> after c (prune_window ts now) = after c ts"
  by (induction ts) (auto simp: after_def prune_window_def Let_def)

lemma log_inv_later: "log_inv rs hist now \<Longrightarrow> now \<le> now' \<Longrightarrow> log_inv rs hist now'"
  by (fastforce simp: log_inv_def)

lemma unfreeze_threshold:
  "unfreezeQuietPeriod \<le> time_sub now t \<longleftrightarrow> t + unfreezeQuietPeriod \<le> now"
  by (rule time_sub_ge_iff) (simp_all add: damp_constants)

lemma log_inv_unfreeze:
  assumes "log_inv rs hist now"
  shows "log_inv (maybe_auto_unfreeze rs now) hist now"
proof (cases "d_frozen rs \<and> d_lastSuppressed rs + unfreezeQuietPeriod \<le> now")
  case True
  then have "\<forall>t \<in> set hist. t \<le> now - unfreezeQuietPeriod"
    using assms by (fastforce simp: log_inv_def)
  then have old: "\<forall>t \<in> set hist. t \<le> now - dampWindow"
    by (fastforce simp: damp_constants)
  have "after c hist = 0" if "now - dampWindow \<le> c" for c
    using old that by (intro after_zero) fastforce
  with True assms show ?thesis
    by (simp add: maybe_auto_unfreeze_def unfreeze_threshold log_inv_def)
next
  case False
  then have "maybe_auto_unfreeze rs now = rs"
    by (auto simp: maybe_auto_unfreeze_def unfreeze_threshold)
  with assms show ?thesis by simp
qed

text \<open>An accepted change leaves at most three logged changes in the window.\<close>

lemma rate_ok_snoc:
  assumes "rate_ok hist" and "\<forall>t \<in> set hist. t \<le> now"
    and "after (now - dampWindow) (hist @ [now]) \<le> dampChangeThreshold"
  shows "rate_ok (hist @ [now])"
  unfolding rate_ok_def
proof
  fix t
  show "length (filter (\<lambda>u. t - dampWindow < u \<and> u \<le> t) (hist @ [now])) \<le> dampChangeThreshold"
  proof (cases "now \<le> t")
    case True
    then have "length (filter (\<lambda>u. t - dampWindow < u \<and> u \<le> t) (hist @ [now])) \<le>
        after (now - dampWindow) (hist @ [now])"
      unfolding after_def by (intro length_filter_mono) auto
    with assms(3) show ?thesis by simp
  next
    case False
    with assms(1) show ?thesis by (simp add: rate_ok_def)
  qed
qed

lemma damp_known_log_inv:
  assumes "log_inv rs hist now" and "rate_ok hist"
    and "damp_known rs now c fo = (rs', out)"
    and "hist' = (if \<not> fo \<and> \<not> answer_set_equal (d_served rs) c \<and> answer_set_equal out c
                  then hist @ [now] else hist)"
  shows "log_inv rs' hist' now \<and> rate_ok hist'"
proof (cases "\<not> fo \<and> \<not> answer_set_equal (d_served rs) c \<and> \<not> d_frozen rs \<and>
    length (prune_window (d_changeLog rs @ [now]) now) \<le> dampChangeThreshold")
  case False
  then have "hist' = hist" "d_changeLog rs' = d_changeLog rs"
    "d_frozen rs' \<longrightarrow> d_lastSuppressed rs' = now \<or> d_frozen rs \<and> d_lastSuppressed rs' = d_lastSuppressed rs"
    using assms(3,4) by (auto simp: damp_known_def Let_def split: if_splits)
  with assms(1,2) show ?thesis by (auto simp: log_inv_def)
next
  case True
  let ?log = "prune_window (d_changeLog rs @ [now]) now"
  from True assms(3) have rs': "rs' = rs\<lparr>d_changeLog := ?log, d_served := c\<rparr>" "out = c"
    by (auto simp: damp_known_def Let_def)
  with True assms(4) have hist': "hist' = hist @ [now]" by (simp add: answer_set_equal_mset)
  have le: "after x hist' \<le> after x ?log" if "now - dampWindow \<le> x" for x
    using assms(1) that by (simp add: hist' after_prune log_inv_def)
  have "after (now - dampWindow) ?log \<le> length ?log" by (simp add: after_def)
  with le [of "now - dampWindow"] True have "after (now - dampWindow) hist' \<le> dampChangeThreshold"
    by simp
  then have "rate_ok hist'"
    using assms(1,2) unfolding hist' by (intro rate_ok_snoc) (auto simp: log_inv_def)
  moreover have "log_inv rs' hist' now"
    using le assms(1) True by (auto simp: log_inv_def hist' rs')
  ultimately show ?thesis by blast
qed

lemma damp_step_log_inv:
  assumes "log_inv rs hist t" and "t \<le> now" and "rate_ok hist"
  shows "let hist' = hist @ (if accepted_change (Some rs) (now, c, fo) then [now] else []) in
    log_inv (fst (damp_step (Some rs) now c fo)) hist' now \<and> rate_ok hist'"
proof -
  obtain rs' out where step: "damp_known (maybe_auto_unfreeze rs now) now c fo = (rs', out)"
    by fastforce
  have "log_inv (maybe_auto_unfreeze rs now) hist now"
    using log_inv_later [OF assms(1,2)] by (rule log_inv_unfreeze)
  from damp_known_log_inv [OF this assms(3) step refl] show ?thesis
    by (auto simp: accepted_change_def damp_step_def step Let_def)
qed

lemma accepted_times_rate:
  assumes "log_inv rs hist t" and "rate_ok hist" and "sorted (t # map fst es)"
  shows "rate_ok (hist @ accepted_times (Some rs) es)"
  using assms
proof (induction es arbitrary: rs hist t)
  case (Cons e es)
  obtain now c fo where e: "e = (now, c, fo)" by (cases e)
  let ?hist = "hist @ (if accepted_change (Some rs) (now, c, fo) then [now] else [])"
  have "log_inv (fst (damp_step (Some rs) now c fo)) ?hist now \<and> rate_ok ?hist"
    using damp_step_log_inv [OF Cons.prems(1) _ Cons.prems(2), of now c fo] Cons.prems(3)
    by (simp add: e Let_def)
  then show ?case
    using Cons.IH [of "fst (damp_step (Some rs) now c fo)" ?hist now] Cons.prems(3)
    by (simp add: e)
qed simp

subsection \<open>Properties\<close>

definition ans1 :: "nat \<Rightarrow> answer list" where
  "ans1 n = [\<lparr>ans_IP = ''10.0.0.'' @ itoa (int n), ans_Port = 1\<rparr>]"

text \<open>C17. The rate limit: along any run of evaluations of a name with a clock that does not go
  back, no ten-minute window holds more than three accepted unforced changes, through freezes,
  automatic unfreezes and forced moves alike.\<close>

theorem at_most_three_changes_per_window:
  assumes "sorted (map fst es)"
  shows "length (filter (\<lambda>u. t - dampWindow < u \<and> u \<le> t) (accepted_times None es)) \<le> 3"
proof (cases es)
  case (Cons e es')
  obtain now c fo where e: "e = (now, c, fo)" by (cases e)
  have "rate_ok ([] @ accepted_times (Some (fresh_damp_state c)) es')"
    using assms Cons
    by (intro accepted_times_rate [where t = now])
      (auto simp: log_inv_def rate_ok_def fresh_damp_state_def e)
  then have "rate_ok (accepted_times None es)"
    by (simp add: Cons e accepted_change_def damp_step_def)
  then show ?thesis by (simp add: rate_ok_def dampChangeThreshold_def)
qed simp

theorem at_most_three_changes_per_window_witness:
  "length (filter (\<lambda>u. 5 - dampWindow < u \<and> u \<le> 5)
     (accepted_times None [(1, ans1 1, False), (2, ans1 2, False), (3, ans1 3, True)])) \<le> 3"
  using at_most_three_changes_per_window
    [of "[(1, ans1 1, False), (2, ans1 2, False), (3, ans1 3, True)]" 5] by simp

text \<open>One evaluation of a known name serves the fresh answers or goes on serving the old
  ones; the old ones only for an unforced change of a name that is frozen and has had no quiet
  period of twenty minutes since the last suppressed change, or that would exceed three changes
  in the window; and suppressing a change always leaves the name frozen.\<close>

theorem suppression_only_when_flapping:
  "(case damp_step (Some rs) now c fo of (rs', out) \<Rightarrow>
      d_served rs' = out \<and> out \<in> {c, d_served rs} \<and>
      (answer_set_equal out c \<or>
         \<not> fo \<and> d_frozen rs' \<and> d_lastSuppressed rs' = now \<and> out = d_served rs \<and>
         (d_frozen rs \<and> now < d_lastSuppressed rs + unfreezeQuietPeriod \<or>
          \<not> d_frozen rs \<and> 3 < length (prune_window (d_changeLog rs @ [now]) now))))"
proof -
  have "length (prune_window [now] now) \<le> 1"
    by (simp add: prune_window_def Let_def)
  then show ?thesis
    by (auto simp: damp_step_def damp_known_def maybe_auto_unfreeze_def unfreeze_threshold Let_def
        answer_set_equal_mset dampChangeThreshold_def not_le)
qed

text \<open>A freeze has no time limit of its own: while evaluations whose answers differ from
  the ones served keep coming less than twenty minutes apart, every one of them serves the
  frozen answers, for any length of time.\<close>

theorem freeze_outlives_steady_queries:
  assumes "d_frozen rs"
    and "list_all (\<lambda>(t, c, fo). \<not> fo \<and> \<not> answer_set_equal (d_served rs) c) es"
    and "successively (\<lambda>t u. u < t + unfreezeQuietPeriod) (d_lastSuppressed rs # map fst es)"
  shows "snd (damp_run (Some rs) es) = replicate (length es) (d_served rs)"
  using assms
proof (induction es arbitrary: rs)
  case (Cons e es)
  obtain now c fo where e: "e = (now, c, fo)" by (cases e)
  have "damp_step (Some rs) now c fo = (rs\<lparr>d_lastSuppressed := now\<rparr>, d_served rs)"
    using Cons.prems
    by (simp add: e damp_step_def maybe_auto_unfreeze_def unfreeze_threshold damp_known_def)
  moreover have "snd (damp_run (Some (rs\<lparr>d_lastSuppressed := now\<rparr>)) es) =
      replicate (length es) (d_served rs)"
    using Cons.IH [of "rs\<lparr>d_lastSuppressed := now\<rparr>"] Cons.prems
    by (cases es) (auto simp: e)
  ultimately show ?case by (simp add: e split_beta)
qed simp

theorem freeze_outlives_steady_queries_witness:
  "snd (damp_run (Some ((fresh_damp_state (ans1 1))\<lparr>d_frozen := True, d_lastSuppressed := 0\<rparr>))
     [(19 * minute, ans1 2, False), (38 * minute, ans1 2, False), (57 * minute, ans1 2, False)]) =
   [ans1 1, ans1 1, ans1 1]"
proof -
  let ?rs = "(fresh_damp_state (ans1 1))\<lparr>d_frozen := True, d_lastSuppressed := 0\<rparr>"
  have "ans1 1 \<noteq> ans1 2" by (auto simp: ans1_def dest: itoa_inj)
  then have "snd (damp_run (Some ?rs)
      [(19 * minute, ans1 2, False), (38 * minute, ans1 2, False), (57 * minute, ans1 2, False)]) =
    replicate (length [(19 * minute, ans1 2, False), (38 * minute, ans1 2, False),
      (57 * minute, ans1 2, False)]) (d_served ?rs)"
    by (intro freeze_outlives_steady_queries)
      (simp_all add: answer_set_equal_mset fresh_damp_state_def ans1_def damp_constants itoa_inj)
  then show ?thesis by (simp add: fresh_damp_state_def numeral_3_eq_3)
qed

text \<open>Two answer lists count as the same set exactly when they are permutations of each
  other: the comparison of counted \<open>IP:port\<close> keys loses nothing, IPv6 addresses included.\<close>

theorem answer_set_equal_is_permutation:
  "answer_set_equal a b \<longleftrightarrow> mset a = mset b"
  by (rule answer_set_equal_mset)

end
