(* ===== verification/Evaluator.thy ===== *)
theory Evaluator
  imports Damper Machine
begin

text \<open>
  The candidate walk of \<^verbatim>\<open>internal/dnsserver/evaluate.go\<close>. The local health machine
  is an interface value: nil, or its two methods. \<open>Resolve\<close> runs in three sections that the code
  locks separately (reading the active keys, the damper, writing the active keys); they are three
  definitions, composed by \<open>resolve\<close>.
\<close>

subsection \<open>State\<close>

record local_health_iface =
  lh_State :: "string \<Rightarrow> string"
  lh_Ready :: "string \<Rightarrow> bool"

record evaluator =
  ev_damper :: damper
  ev_activeKeys :: "string \<rightharpoonup> string list"

definition new_evaluator :: evaluator where
  "new_evaluator = \<lparr>ev_damper = new_damper, ev_activeKeys = Map.empty\<rparr>"

text \<open>\<open>machineAdapter\<close> as the interface value that \<open>main\<close> passes.\<close>

definition machine_iface :: "machine \<Rightarrow> local_health_iface" where
  "machine_iface m = \<lparr>lh_State = adapter_State m, lh_Ready = adapter_Ready m\<rparr>"

subsection \<open>One candidate\<close>

definition viable ::
  "local_health_iface option \<Rightarrow> candidate \<Rightarrow> (string \<Rightarrow> bool) \<Rightarrow> bool \<times> bool" where
  "viable mach cand localTargets =
     (case (localTargets (cand_TargetKey cand), mach) of
        (True, Some lh) \<Rightarrow>
          (let lcl = lh_State lh (cand_TargetKey cand);
               effective = (if lcl = HealthUnknown \<and> \<not> lh_Ready lh (cand_TargetKey cand)
                            then cand_Health cand else lcl) in
           (effective \<noteq> HealthUnhealthy, effective = HealthUnhealthy))
      | _ \<Rightarrow> (cand_Health cand \<noteq> HealthUnhealthy, cand_Health cand = HealthUnhealthy))"

subsection \<open>The walk\<close>

text \<open>
  The loop over the candidates with its accumulators: the keys and answer groups taken so far
  and the \<open>forced\<close> flag; \<open>single\<close> mode leaves the loop at the first candidate taken.
\<close>

fun walk ::
  "(candidate \<Rightarrow> bool \<times> bool) \<Rightarrow> (string \<Rightarrow> bool) \<Rightarrow> bool \<Rightarrow> candidate list \<Rightarrow>
     string list \<Rightarrow> answer list list \<Rightarrow> bool \<Rightarrow> string list \<times> answer list list \<times> bool" where
  "walk via prevActive all [] keys groups forced = (keys, groups, forced)"
| "walk via prevActive all (cand # cands) keys groups forced =
     (case via cand of
        (v, effectiveUnhealthy) \<Rightarrow>
          (let forced' = (if prevActive (cand_TargetKey cand) \<and> effectiveUnhealthy
                          then True else forced) in
           if v \<and> cand_Answers cand = [] then walk via prevActive all cands keys groups forced'
           else if v then
             (let keys' = keys @ [cand_TargetKey cand]; groups' = groups @ [cand_Answers cand] in
              if \<not> all then (keys', groups', forced')
              else walk via prevActive all cands keys' groups' forced')
           else walk via prevActive all cands keys groups forced'))"

definition local_targets :: "dns_record \<Rightarrow> string \<Rightarrow> bool" where
  "local_targets r key \<longleftrightarrow> key \<in> set (map lc_TargetKey (rec_LocalChecks r))"

definition walk_record ::
  "local_health_iface option \<Rightarrow> string list \<Rightarrow> dns_record \<Rightarrow> candidate list \<Rightarrow>
     string list \<times> answer list list \<times> bool" where
  "walk_record mach prevKeys r cands =
     walk (\<lambda>cand. viable mach cand (local_targets r)) (\<lambda>k. k \<in> set prevKeys)
       (rec_Mode r = ModeAll) cands [] [] False"

subsection \<open>Resolve\<close>

text \<open>The first critical section: a name with no entry has no active keys.\<close>

definition active_keys :: "evaluator \<Rightarrow> string \<Rightarrow> string list" where
  "active_keys e fqdn = (case ev_activeKeys e fqdn of None \<Rightarrow> [] | Some ks \<Rightarrow> ks)"

text \<open>The last critical section.\<close>

definition commit_active ::
  "string \<Rightarrow> string list \<Rightarrow> answer list \<Rightarrow> answer list \<Rightarrow> evaluator \<Rightarrow> evaluator" where
  "commit_active fqdn viableKeys fresh served e =
     (if answer_set_equal served fresh
      then e\<lparr>ev_activeKeys := (ev_activeKeys e)(fqdn \<mapsto> viableKeys)\<rparr> else e)"

definition resolve ::
  "local_health_iface option \<Rightarrow> go_time \<Rightarrow> dns_record \<Rightarrow> evaluator \<Rightarrow> evaluator \<times> answer list option"
where
  "resolve mach now r e =
     (case rec_Candidates r of
        None \<Rightarrow>
          (if rec_State r = StateOK \<or> rec_State r = StateDegraded
           then (e, Some (rec_Answers r)) else (e, None))
      | Some cands \<Rightarrow>
          (case walk_record mach (active_keys e (rec_FQDN r)) r cands of
             (viableKeys, groups, forced) \<Rightarrow>
               (if groups = [] then (e, None)
                else
                  (let fresh = concat groups in
                   case damper_evaluate (ev_damper e) now (rec_FQDN r) fresh forced of
                     (d', served) \<Rightarrow>
                       (commit_active (rec_FQDN r) viableKeys fresh served (e\<lparr>ev_damper := d'\<rparr>),
                        Some served)))))"

subsection \<open>What the walk computes\<close>

definition servable :: "local_health_iface option \<Rightarrow> dns_record \<Rightarrow> candidate \<Rightarrow> bool" where
  "servable mach r cand \<longleftrightarrow> fst (viable mach cand (local_targets r)) \<and> cand_Answers cand \<noteq> []"

text \<open>The candidates the walk looks at, and the ones it takes: all servable ones, or in
  \<open>single\<close> mode the first.\<close>

fun visited :: "(candidate \<Rightarrow> bool) \<Rightarrow> bool \<Rightarrow> candidate list \<Rightarrow> candidate list" where
  "visited P all [] = []"
| "visited P all (c # cs) = (if P c \<and> \<not> all then [c] else c # visited P all cs)"

definition taken :: "local_health_iface option \<Rightarrow> dns_record \<Rightarrow> candidate list \<Rightarrow> candidate list" where
  "taken mach r cands = filter (servable mach r) (visited (servable mach r) (rec_Mode r = ModeAll) cands)"

lemma walk_eq:
  "walk via prevActive all cands keys groups forced =
     (let P = (\<lambda>c. fst (via c) \<and> cand_Answers c \<noteq> []); vis = visited P all cands in
      (keys @ map cand_TargetKey (filter P vis), groups @ map cand_Answers (filter P vis),
       forced \<or> (\<exists>c \<in> set vis. prevActive (cand_TargetKey c) \<and> snd (via c))))"
proof (induction cands arbitrary: keys groups forced)
  case (Cons c cands)
  then show ?case by (cases "via c") (auto simp: Let_def)
qed (simp add: Let_def)

lemma walk_record_eq:
  "walk_record mach prevKeys r cands =
     (map cand_TargetKey (taken mach r cands), map cand_Answers (taken mach r cands),
      \<exists>c \<in> set (visited (servable mach r) (rec_Mode r = ModeAll) cands).
        cand_TargetKey c \<in> set prevKeys \<and> snd (viable mach c (local_targets r)))"
  by (simp add: walk_record_def walk_eq taken_def servable_def [abs_def] Let_def)

lemma visited_all [simp]: "visited P True cands = cands"
  by (induction cands) simp_all

lemma filter_visited_single: "filter P (visited P False cands) = take 1 (filter P cands)"
  by (induction cands) auto

lemma taken_eq:
  "taken mach r cands =
     (if rec_Mode r = ModeAll then filter (servable mach r) cands
      else take 1 (filter (servable mach r) cands))"
  by (simp add: taken_def filter_visited_single)

text \<open>The answers the walk proposes; none exactly when no candidate is servable.\<close>

definition fresh_answers :: "local_health_iface option \<Rightarrow> dns_record \<Rightarrow> candidate list \<Rightarrow> answer list" where
  "fresh_answers mach r cands = concat (map cand_Answers (taken mach r cands))"

lemma taken_empty_iff: "taken mach r cands = [] \<longleftrightarrow> (\<nexists>c. c \<in> set cands \<and> servable mach r c)"
  by (auto simp: taken_eq filter_empty_conv)

lemma fresh_answers_empty_iff:
  "fresh_answers mach r cands = [] \<longleftrightarrow> (\<nexists>c. c \<in> set cands \<and> servable mach r c)"
proof -
  have "\<forall>c \<in> set (taken mach r cands). cand_Answers c \<noteq> []"
    by (auto simp: taken_def servable_def)
  then have "fresh_answers mach r cands = [] \<longleftrightarrow> taken mach r cands = []"
    by (cases "taken mach r cands") (auto simp: fresh_answers_def)
  then show ?thesis by (simp add: taken_empty_iff)
qed

definition walk_forced :: "local_health_iface option \<Rightarrow> evaluator \<Rightarrow> dns_record \<Rightarrow> candidate list \<Rightarrow> bool" where
  "walk_forced mach e r cands \<longleftrightarrow>
     (\<exists>c \<in> set (visited (servable mach r) (rec_Mode r = ModeAll) cands).
        cand_TargetKey c \<in> set (active_keys e (rec_FQDN r)) \<and> snd (viable mach c (local_targets r)))"

lemma resolve_candidates:
  assumes "rec_Candidates r = Some cands"
  shows "resolve mach now r e =
    (if taken mach r cands = [] then (e, None)
     else (case damper_evaluate (ev_damper e) now (rec_FQDN r) (fresh_answers mach r cands)
                  (walk_forced mach e r cands) of
             (d', served) \<Rightarrow>
               (commit_active (rec_FQDN r) (map cand_TargetKey (taken mach r cands))
                  (fresh_answers mach r cands) served (e\<lparr>ev_damper := d'\<rparr>),
                Some served)))"
  using assms
  by (simp add: resolve_def walk_record_eq fresh_answers_def walk_forced_def Let_def)

lemma commit_active_damper [simp]: "ev_damper (commit_active f ks u s e) = ev_damper e"
  by (simp add: commit_active_def)

subsection \<open>Health under the local contract\<close>

context local_health
begin

text \<open>
  For a locally checked target the pushed health matters only before its first completed check;
  from then on the local verdict alone decides.
\<close>

lemma viable_ready:
  assumes "ready m (cand_TargetKey cand)" and "localTargets (cand_TargetKey cand)"
  shows "fst (viable (Some \<lparr>lh_State = state m, lh_Ready = ready m\<rparr>) cand localTargets) \<longleftrightarrow>
    state m (cand_TargetKey cand) \<noteq> HealthUnhealthy"
  using assms by (simp add: viable_def Let_def)

lemma viable_unready:
  assumes "inv m" and "\<not> ready m (cand_TargetKey cand)"
  shows "viable (Some \<lparr>lh_State = state m, lh_Ready = ready m\<rparr>) cand localTargets =
    viable None cand localTargets"
  using assms unready_unknown [OF assms]
  by (simp add: viable_def Let_def split: bool.splits)

lemma viable_not_unhealthy:
  "fst (viable (Some \<lparr>lh_State = state m, lh_Ready = ready m\<rparr>) cand localTargets) =
   (\<not> snd (viable (Some \<lparr>lh_State = state m, lh_Ready = ready m\<rparr>) cand localTargets))"
  by (simp add: viable_def Let_def split: bool.splits)

end

text \<open>The health the code acts on: the verdict of the local check where there is one that
  completed a cycle or reached a verdict, the pushed health otherwise.\<close>

definition effective_health :: "local_health_iface option \<Rightarrow> dns_record \<Rightarrow> candidate \<Rightarrow> string" where
  "effective_health mach r c =
     (case mach of
        None \<Rightarrow> cand_Health c
      | Some lh \<Rightarrow>
          (if cand_TargetKey c \<in> lc_TargetKey ` set (rec_LocalChecks r) \<and>
              (lh_State lh (cand_TargetKey c) \<noteq> HealthUnknown \<or> lh_Ready lh (cand_TargetKey c))
           then lh_State lh (cand_TargetKey c) else cand_Health c))"

lemma viable_effective:
  "viable mach c (local_targets r) =
     (effective_health mach r c \<noteq> HealthUnhealthy, effective_health mach r c = HealthUnhealthy)"
  by (auto simp: viable_def effective_health_def local_targets_def Let_def
      split: option.splits bool.splits)

lemma servable_iff:
  "servable mach r c \<longleftrightarrow> effective_health mach r c \<noteq> HealthUnhealthy \<and> cand_Answers c \<noteq> []"
  by (simp add: servable_def viable_effective)

lemma set_taken: "set (taken mach r cands) \<subseteq> {c \<in> set cands. servable mach r c}"
  using set_take_subset [of 1 "filter (servable mach r) cands"] by (auto simp: taken_eq)

subsection \<open>Sequences of queries\<close>

text \<open>One query: the health seen, the time, the record looked up.\<close>

type_synonym query = "local_health_iface option \<times> go_time \<times> dns_record"

fun resolve_all :: "query list \<Rightarrow> evaluator \<Rightarrow> evaluator \<times> answer list option list" where
  "resolve_all [] e = (e, [])"
| "resolve_all ((mach, now, r) # qs) e =
     (case resolve mach now r e of (e', out) \<Rightarrow>
      (case resolve_all qs e' of (e'', outs) \<Rightarrow> (e'', out # outs)))"

text \<open>The answer lists that queries of a name propose: at a query whose record carries
  candidates, those of the walk.\<close>

definition proposed :: "query list \<Rightarrow> string \<Rightarrow> answer list set" where
  "proposed qs f = {fresh_answers mach r cands | mach now r cands.
     (mach, now, r) \<in> set qs \<and> rec_FQDN r = f \<and> rec_Candidates r = Some cands \<and>
     taken mach r cands \<noteq> []}"

lemma fresh_answers_nonempty: "taken mach r cands \<noteq> [] \<Longrightarrow> fresh_answers mach r cands \<noteq> []"
  by (simp add: fresh_answers_empty_iff taken_empty_iff)

lemma resolve_legacy:
  assumes "rec_Candidates r = None"
  shows "resolve mach now r e =
    (e, if rec_State r = StateOK \<or> rec_State r = StateDegraded then Some (rec_Answers r) else None)"
  using assms by (simp add: resolve_def)

text \<open>One query leaves every name's served answers among the old and the proposed ones.\<close>

lemma resolve_served:
  assumes "resolve mach now r e = (e', out)"
  shows "(served_answers (ev_damper e') g = served_answers (ev_damper e) g \<or>
      (\<exists>c \<in> proposed [(mach, now, r)] g. served_answers (ev_damper e') g = Some c)) \<and>
    (case rec_Candidates r of None \<Rightarrow> True
     | Some _ \<Rightarrow> out = None \<or> served_answers (ev_damper e') (rec_FQDN r) = out)"
proof (cases "rec_Candidates r")
  case None
  with assms show ?thesis by (simp add: resolve_legacy)
next
  case (Some cands)
  show ?thesis
  proof (cases "taken mach r cands = []")
    case True
    with assms Some show ?thesis by (simp add: resolve_candidates)
  next
    case False
    let ?c = "fresh_answers mach r cands"
    obtain d' s where ev: "damper_evaluate (ev_damper e) now (rec_FQDN r) ?c
        (walk_forced mach e r cands) = (d', s)" by fastforce
    have e': "ev_damper e' = d'" "out = Some s"
      using assms Some False by (auto simp: resolve_candidates ev)
    have inprop: "?c \<in> proposed [(mach, now, r)] (rec_FQDN r)"
      using Some False by (auto simp: proposed_def)
    show ?thesis
      using ad.evaluate_served [OF ev] ad.evaluate_choice [OF ev] ad.evaluate_frame [OF ev, of g]
        e' inprop Some by (cases "g = rec_FQDN r") auto
  qed
qed

lemma proposed_mono: "set qs \<subseteq> set qs' \<Longrightarrow> proposed qs f \<subseteq> proposed qs' f"
  by (fastforce simp: proposed_def)

lemma proposed_nonempty: "c \<in> proposed qs f \<Longrightarrow> c \<noteq> []"
  by (auto simp: proposed_def fresh_answers_nonempty)

lemma resolve_all_provenance:
  assumes "\<And>f a. served_answers (ev_damper e) f = Some a \<Longrightarrow> a \<in> proposed past f"
    and "i < length qs" and "qs ! i = (mach, now, r)" and "rec_Candidates r \<noteq> None"
    and "snd (resolve_all qs e) ! i = Some a"
  shows "a \<in> proposed (past @ take (Suc i) qs) (rec_FQDN r)"
  using assms
proof (induction qs arbitrary: e i past)
  case (Cons q qs)
  obtain m n r0 where q: "q = (m, n, r0)" by (cases q)
  obtain e' out where res: "resolve m n r0 e = (e', out)" by fastforce
  have mono: "proposed past f \<subseteq> proposed (past @ [q]) f"
    "proposed [q] f \<subseteq> proposed (past @ [q]) f" for f
    by (rule proposed_mono, force)+
  have step: "a' \<in> proposed (past @ [q]) f" if "served_answers (ev_damper e') f = Some a'" for f a'
    using resolve_served [OF res, of f] that Cons.prems(1) [of f a'] mono [of f]
    by (auto simp: q)
  show ?case
  proof (cases i)
    case 0
    then have "served_answers (ev_damper e') (rec_FQDN r) = Some a"
      using resolve_served [OF res] res Cons.prems by (auto simp: q split_beta)
    then show ?thesis using step 0 by simp
  next
    case (Suc j)
    have "a \<in> proposed ((past @ [q]) @ take (Suc j) qs) (rec_FQDN r)"
      using Cons.IH [of e' "past @ [q]" j, OF step] Cons.prems Suc by (simp add: q res split_beta)
    then show ?thesis using Suc by simp
  qed
qed simp

lemma resolve_all_append: "fst (resolve_all (qs @ qs') e) = fst (resolve_all qs' (fst (resolve_all qs e)))"
  by (induction qs arbitrary: e) (auto simp: split_beta)

lemma resolve_all_length [simp]: "length (snd (resolve_all qs e)) = length qs"
  by (induction qs arbitrary: e) (auto simp: split_beta)

subsection \<open>The active keys\<close>

text \<open>What is recorded as active names the candidates whose answers are being served.\<close>

definition describes_served :: "query list \<Rightarrow> evaluator \<Rightarrow> string \<Rightarrow> string list \<Rightarrow> bool" where
  "describes_served qs e f ks \<longleftrightarrow>
     (\<exists>mach now r cands served. (mach, now, r) \<in> set qs \<and> rec_FQDN r = f \<and> rec_Candidates r = Some cands \<and>
        ks = map cand_TargetKey (taken mach r cands) \<and> served_answers (ev_damper e) f = Some served \<and>
        mset served = mset (fresh_answers mach r cands))"

definition active_inv :: "query list \<Rightarrow> evaluator \<Rightarrow> bool" where
  "active_inv qs e \<longleftrightarrow> (\<forall>f ks. ev_activeKeys e f = Some ks \<longrightarrow> describes_served qs e f ks)"

lemma describes_served_mono:
  assumes "describes_served qs e f ks" and "set qs \<subseteq> set qs'"
    and "served_answers (ev_damper e') f = served_answers (ev_damper e) f"
  shows "describes_served qs' e' f ks"
  using assms unfolding describes_served_def by fastforce

lemma resolve_active_inv:
  assumes "active_inv qs e" and "resolve mach now r e = (e', out)"
  shows "active_inv (qs @ [(mach, now, r)]) e'"
proof (cases "rec_Candidates r = None \<or> taken mach r (the (rec_Candidates r)) = []")
  case True
  then have "e' = e"
    using assms(2) by (cases "rec_Candidates r") (auto simp: resolve_legacy resolve_candidates)
  with assms(1) show ?thesis
    using describes_served_mono [of qs e _ _ "qs @ [(mach, now, r)]" e'] by (auto simp: active_inv_def)
next
  case False
  then obtain cands where c: "rec_Candidates r = Some cands" and t: "taken mach r cands \<noteq> []" by auto
  let ?fresh = "fresh_answers mach r cands" and ?f = "rec_FQDN r"
  obtain d' served where ev: "damper_evaluate (ev_damper e) now ?f ?fresh (walk_forced mach e r cands) = (d', served)"
    by fastforce
  have e': "e' = commit_active ?f (map cand_TargetKey (taken mach r cands)) ?fresh served (e\<lparr>ev_damper := d'\<rparr>)"
    using assms(2) t by (simp add: resolve_candidates [OF c] ev)
  have d': "served_answers (ev_damper e') g = (if g = ?f then Some served else served_answers (ev_damper e) g)" for g
    using ad.evaluate_served [OF ev] ad.evaluate_frame [OF ev] by (simp add: e')
  have "describes_served (qs @ [(mach, now, r)]) e' g ks" if "ev_activeKeys e' g = Some ks" for g ks
  proof (cases "g = ?f \<and> answer_set_equal served ?fresh")
    case True
    then have "ks = map cand_TargetKey (taken mach r cands)" using that by (simp add: e' commit_active_def)
    with True c d' [of g] show ?thesis
      unfolding describes_served_def by (force simp: answer_set_equal_mset)
  next
    case False
    then have old: "ev_activeKeys e g = Some ks"
      using that by (auto simp: e' commit_active_def split: if_splits)
    have "served_answers (ev_damper e') g = served_answers (ev_damper e) g"
      using False d' [of g] ad.evaluate_choice [OF ev] ad.same_refl [of ?fresh] by auto
    with old assms(1) show ?thesis
      using describes_served_mono [of qs e g ks "qs @ [(mach, now, r)]" e'] by (auto simp: active_inv_def)
  qed
  then show ?thesis by (simp add: active_inv_def)
qed

lemma resolve_all_active_inv: "active_inv past e \<Longrightarrow> active_inv (past @ qs) (fst (resolve_all qs e))"
proof (induction qs arbitrary: past e)
  case (Cons q qs)
  obtain mach now r where q: "q = (mach, now, r)" by (cases q)
  obtain e' out where res: "resolve mach now r e = (e', out)" by fastforce
  from Cons.IH [OF resolve_active_inv [OF Cons.prems res]] show ?case by (simp add: q res split_beta)
qed simp

subsection \<open>What is being served\<close>

text \<open>
  The backends being served for a name, read off the queries and their answers alone: those that
  the walk took at the last query of the name that was answered, up to order, with what its own walk
  proposed (a suppressed query is answered with older answers, and changes nothing).
\<close>

definition applied :: "string \<Rightarrow> query \<times> answer list option \<Rightarrow> string list \<Rightarrow> string list" where
  "applied f x ks = (case x of ((mach, now, r), out) \<Rightarrow>
     (case (rec_Candidates r, out) of
        (Some cands, Some a) \<Rightarrow>
          (if rec_FQDN r = f \<and> mset a = mset (fresh_answers mach r cands)
           then map cand_TargetKey (taken mach r cands) else ks)
      | _ \<Rightarrow> ks))"

definition serving :: "query list \<Rightarrow> string \<Rightarrow> string list" where
  "serving qs f = fold (applied f) (zip qs (snd (resolve_all qs new_evaluator))) []"

lemma resolve_applied:
  assumes "resolve mach now r e = (e', out)"
  shows "active_keys e' f = applied f ((mach, now, r), out) (active_keys e f)"
proof (cases "rec_Candidates r")
  case None
  then show ?thesis using assms by (auto simp: resolve_legacy applied_def)
next
  case (Some cands)
  then show ?thesis
    using assms by (auto simp: resolve_candidates applied_def commit_active_def active_keys_def
        answer_set_equal_mset split: if_splits prod.splits)
qed

lemma resolve_all_applied:
  "active_keys (fst (resolve_all qs e)) f = fold (applied f) (zip qs (snd (resolve_all qs e))) (active_keys e f)"
proof (induction qs arbitrary: e)
  case (Cons q qs)
  obtain mach now r where q: "q = (mach, now, r)" by (cases q)
  obtain e' out where "resolve mach now r e = (e', out)" by fastforce
  from Cons.IH [of e'] resolve_applied [OF this] this show ?case by (simp add: q split_beta)
qed simp

text \<open>As long as calls do not overlap, the keys recorded as active are the backends being served.\<close>

lemma active_keys_serving: "active_keys (fst (resolve_all qs new_evaluator)) f = serving qs f"
  using resolve_all_applied [of qs new_evaluator f] by (simp add: serving_def active_keys_def new_evaluator_def)

lemma serving_first:
  assumes "rec_Candidates r = Some cands" and "taken mach r cands \<noteq> []"
  shows "serving [(mach, now, r)] (rec_FQDN r) = map cand_TargetKey (taken mach r cands)"
  using assms by (simp add: serving_def resolve_candidates new_evaluator_def new_damper_def
      damper_evaluate_def damp_step_def applied_def)

text \<open>A query that finds a recorded backend unhealthy and another candidate servable.\<close>

lemma forced_answer:
  assumes "rec_Candidates r = Some cands" and "rec_Mode r = ModeAll"
    and "c \<in> set cands" and "cand_TargetKey c \<in> set (active_keys e (rec_FQDN r))"
    and "effective_health mach r c = HealthUnhealthy"
    and "\<exists>c \<in> set cands. servable mach r c"
    and "resolve mach now r e = (e', out)"
  shows "\<exists>a. out = Some a \<and> a \<noteq> [] \<and>
    mset a = mset (concat (map cand_Answers (filter (servable mach r) cands))) \<and>
    active_keys e' (rec_FQDN r) = map cand_TargetKey (filter (servable mach r) cands)"
proof -
  have taken: "taken mach r cands = filter (servable mach r) cands" "taken mach r cands \<noteq> []"
    using assms(2,6) by (auto simp: taken_eq filter_empty_conv)
  have forced: "walk_forced mach e r cands"
    using assms(2-5) by (auto simp: walk_forced_def viable_effective)
  obtain d' s where ev: "damper_evaluate (ev_damper e) now (rec_FQDN r) (fresh_answers mach r cands)
      True = (d', s)" by fastforce
  have "mset s = mset (fresh_answers mach r cands)"
    using ad.evaluate_forced [of "ev_damper e" now "rec_FQDN r" "fresh_answers mach r cands"]
    by (simp add: ev answer_set_equal_mset)
  moreover have "resolve mach now r e = (commit_active (rec_FQDN r) (map cand_TargetKey
      (taken mach r cands)) (fresh_answers mach r cands) s (e\<lparr>ev_damper := d'\<rparr>), Some s)"
    using taken(2) forced ev by (simp add: resolve_candidates [OF assms(1)])
  ultimately show ?thesis
    using assms(7) taken(1) fresh_answers_nonempty [OF taken(2)]
    by (auto simp: commit_active_def active_keys_def answer_set_equal_mset fresh_answers_def)
qed

subsection \<open>Properties\<close>

text \<open>C7. A record with candidates is answered exactly when one of its candidates has
  addresses and an effective health other than unhealthy; a record without the key follows
  its pushed state. A refused query changes nothing.\<close>

theorem resolve_answers_iff:
  "(snd (resolve mach now r e) \<noteq> None \<longleftrightarrow>
     (case rec_Candidates r of
        None \<Rightarrow> rec_State r \<in> {StateOK, StateDegraded}
      | Some cands \<Rightarrow>
          \<exists>c \<in> set cands. cand_Answers c \<noteq> [] \<and> effective_health mach r c \<noteq> HealthUnhealthy)) \<and>
   (snd (resolve mach now r e) = None \<longleftrightarrow> resolve mach now r e = (e, None))"
  by (auto simp: resolve_legacy resolve_candidates taken_empty_iff servable_iff split_beta
      split: option.splits)

text \<open>Whatever the sequence of queries from start-up, every answer list served for a record
  with candidates is nonempty and is one that the walk proposed for that same name, at this
  query or an earlier one: the damper never invents, mixes or empties answers.\<close>

theorem served_answers_were_proposed:
  assumes "i < length qs" and "qs ! i = (mach, now, r)" and "rec_Candidates r \<noteq> None"
    and "snd (resolve_all qs new_evaluator) ! i = Some a"
  shows "a \<noteq> [] \<and> (\<exists>j \<le> i. \<exists>mach' now' r' cands.
    qs ! j = (mach', now', r') \<and> rec_FQDN r' = rec_FQDN r \<and> rec_Candidates r' = Some cands \<and>
    a = fresh_answers mach' r' cands)"
proof -
  have "a \<in> proposed ([] @ take (Suc i) qs) (rec_FQDN r)"
    using assms by (intro resolve_all_provenance)
      (auto simp: new_evaluator_def new_damper_def served_answers_def)
  then show ?thesis
    using assms(1) by (auto simp: proposed_nonempty) (auto simp: proposed_def in_set_conv_nth less_Suc_eq_le)
qed

definition cand1 :: "nat \<Rightarrow> string \<Rightarrow> candidate" where
  "cand1 n h = \<lparr>cand_Cluster = ''c'', cand_TargetKey = itoa (int n), cand_Health = h,
     cand_Answers = ans1 n\<rparr>"

definition rec2 :: "string \<Rightarrow> string \<Rightarrow> string \<Rightarrow> dns_record" where
  "rec2 mode h1 h2 =
     \<lparr>rec_FQDN = ''a.z.'', rec_TTL = 30, rec_State = StateOK, rec_Mode = mode, rec_Answers = [],
      rec_Candidates = Some [cand1 1 h1, cand1 2 h2], rec_LocalChecks = []\<rparr>"

lemma ans1_simps [simp]: "ans1 n \<noteq> []" "mset (ans1 m) = mset (ans1 n) \<longleftrightarrow> m = n" "ans1 m = ans1 n \<longleftrightarrow> m = n"
  by (auto simp: ans1_def dest: itoa_inj)

lemma itoa_eq_iff [simp]: "itoa i = itoa j \<longleftrightarrow> i = j"
  by (auto dest: itoa_inj)

lemmas rec2_eval = rec2_def cand1_def servable_iff effective_health_def health_names

lemma serving_rec2: "serving [(None, now, rec2 ModeAll HealthHealthy HealthHealthy)] ''a.z.'' = [itoa 1, itoa 2]"
proof -
  let ?r = "rec2 ModeAll HealthHealthy HealthHealthy" and ?cs = "[cand1 1 HealthHealthy, cand1 2 HealthHealthy]"
  have t: "taken None ?r ?cs = ?cs" by (simp add: taken_eq rec2_eval)
  have "serving [(None, now, ?r)] (rec_FQDN ?r) = map cand_TargetKey (taken None ?r ?cs)"
    by (rule serving_first) (simp add: rec2_def, simp only: t, simp)
  then show ?thesis unfolding t by (simp add: rec2_def cand1_def)
qed

theorem served_answers_were_proposed_witness:
  "\<exists>j \<le> 0. \<exists>mach now r cands.
    [(None, 0, rec2 ModeAll HealthHealthy HealthUnhealthy)] ! j = (mach, now, r) \<and>
    rec_Candidates r = Some cands \<and> ans1 1 = fresh_answers mach r cands"
proof -
  let ?r = "rec2 ModeAll HealthHealthy HealthUnhealthy"
  have cands: "rec_Candidates ?r = Some [cand1 1 HealthHealthy, cand1 2 HealthUnhealthy]"
    by (simp add: rec2_def)
  have "snd (resolve_all [(None, 0, ?r)] new_evaluator) ! 0 = Some (ans1 1)"
    by (simp add: resolve_candidates [OF cands] split_beta)
      (simp add: new_evaluator_def new_damper_def taken_eq rec2_eval damper_evaluate_def
        damp_step_def fresh_answers_def)
  from served_answers_were_proposed [OF _ _ _ this] show ?thesis by (auto simp: rec2_def)
qed

text \<open>C18. As long as calls do not overlap: in mode \<open>all\<close>, whatever the queries so far, once a
  backend that is being served turns unhealthy while another candidate can serve, the very next
  answer is the list of the servable candidates' addresses, up to order, and these candidates are the
  ones served from then on: a freeze does not hold it back.\<close>

theorem unhealthy_active_backend_is_dropped:
  assumes "rec_Candidates r = Some cands" and "rec_Mode r = ModeAll"
    and "c \<in> set cands" and "cand_TargetKey c \<in> set (serving qs (rec_FQDN r))"
    and "effective_health mach r c = HealthUnhealthy"
    and "\<exists>c \<in> set cands. servable mach r c"
  shows "\<exists>a. snd (resolve mach now r (fst (resolve_all qs new_evaluator))) = Some a \<and> a \<noteq> [] \<and>
    mset a = mset (concat (map cand_Answers (filter (servable mach r) cands))) \<and>
    serving (qs @ [(mach, now, r)]) (rec_FQDN r) = map cand_TargetKey (filter (servable mach r) cands)"
proof -
  obtain e' out where res: "resolve mach now r (fst (resolve_all qs new_evaluator)) = (e', out)" by fastforce
  have e': "e' = fst (resolve_all (qs @ [(mach, now, r)]) new_evaluator)"
    by (simp add: resolve_all_append res)
  show ?thesis
    using forced_answer [OF assms(1-3) _ assms(5,6) res] assms(4) res
    by (simp add: e' active_keys_serving)
qed

theorem unhealthy_active_backend_is_dropped_witness:
  "\<exists>a. snd (resolve None 5 (rec2 ModeAll HealthUnhealthy HealthHealthy)
        (fst (resolve_all [(None, 0, rec2 ModeAll HealthHealthy HealthHealthy)] new_evaluator))) = Some a \<and>
     mset a = mset (ans1 2)"
proof -
  let ?r = "rec2 ModeAll HealthUnhealthy HealthHealthy"
  let ?cs = "[cand1 1 HealthUnhealthy, cand1 2 HealthHealthy]"
  have c: "rec_Candidates ?r = Some ?cs" "rec_FQDN ?r = ''a.z.''" "rec_Mode ?r = ModeAll" by (simp_all add: rec2_def)
  have h: "effective_health None ?r (cand1 1 HealthUnhealthy) = HealthUnhealthy"
    by (simp add: effective_health_def cand1_def)
  have s: "filter (servable None ?r) ?cs = [cand1 2 HealthHealthy]" by (simp add: rec2_eval)
  have "\<exists>x \<in> set ?cs. servable None ?r x" by (simp add: rec2_eval)
  from unhealthy_active_backend_is_dropped [OF c(1,3) _ _ h this, of "[(None, 0, rec2 ModeAll HealthHealthy HealthHealthy)]" 5]
  moreover have "cand_TargetKey (cand1 1 HealthUnhealthy) \<in> set (serving [(None, 0, rec2 ModeAll HealthHealthy HealthHealthy)] (rec_FQDN ?r))"
    unfolding c(2) serving_rec2 by (simp add: cand1_def)
  ultimately show ?thesis unfolding s by (simp add: cand1_def del: resolve_all.simps One_nat_def) blast
qed

text \<open>C23. In mode \<open>single\<close> the walk stops at the first servable candidate, so a backend
  being served that sits behind it is never looked at: its turning unhealthy forces no move, and
  a frozen record goes on serving its answers.\<close>

theorem frozen_single_record_keeps_unhealthy_backend:
  assumes "rec_Candidates r = Some (front @ c # back)" and "rec_Mode r \<noteq> ModeAll"
    and "\<forall>x \<in> set front. \<not> servable mach r x \<and>
      cand_TargetKey x \<notin> set (active_keys e (rec_FQDN r))"
    and "servable mach r c" and "cand_TargetKey c \<notin> set (active_keys e (rec_FQDN r))"
    and "ev_damper e (rec_FQDN r) = Some rs" and "d_frozen rs"
    and "now < d_lastSuppressed rs + unfreezeQuietPeriod"
    and "\<not> answer_set_equal (d_served rs) (cand_Answers c)"
  shows "snd (resolve mach now r e) = Some (d_served rs)"
proof -
  let ?P = "servable mach r"
  have "visited ?P False (front @ c # back) = front @ [c]"
    using assms(3,4) by (induction front) auto
  moreover have "taken mach r (front @ c # back) = [c]"
    using assms(2-4) by (auto simp: taken_eq filter_empty_conv)
  ultimately have fresh: "fresh_answers mach r (front @ c # back) = cand_Answers c"
    and not_forced: "\<not> walk_forced mach e r (front @ c # back)"
    and taken: "taken mach r (front @ c # back) \<noteq> []"
    using assms(2,3,5) by (auto simp: fresh_answers_def walk_forced_def)
  have "damp_step (Some rs) now (cand_Answers c) False =
      (rs\<lparr>d_lastSuppressed := now\<rparr>, d_served rs)"
    using assms(7-9) by (simp add: damp_step_def maybe_auto_unfreeze_def unfreeze_threshold
        damp_known_def)
  then show ?thesis
    using assms(1,6) fresh not_forced taken
    by (simp add: resolve_candidates damper_evaluate_def)
qed

definition stuck_evaluator :: evaluator where
  "stuck_evaluator =
     \<lparr>ev_damper = [''a.z.'' \<mapsto>
        (fresh_damp_state (ans1 2))\<lparr>d_frozen := True, d_lastSuppressed := 0\<rparr>],
      ev_activeKeys = [''a.z.'' \<mapsto> [itoa 2]]\<rparr>"

theorem frozen_single_record_keeps_unhealthy_backend_witness:
  "snd (resolve None minute (rec2 ModeSingle HealthHealthy HealthUnhealthy) stuck_evaluator) =
     Some (cand_Answers (cand1 2 HealthUnhealthy))"
  using frozen_single_record_keeps_unhealthy_backend
    [of "rec2 ModeSingle HealthHealthy HealthUnhealthy" "[]" "cand1 1 HealthHealthy"
      "[cand1 2 HealthUnhealthy]" None stuck_evaluator
      "(fresh_damp_state (ans1 2))\<lparr>d_frozen := True, d_lastSuppressed := 0\<rparr>" minute]
  by (simp add: rec2_eval stuck_evaluator_def active_keys_def ModeSingle_def ModeAll_def
      answer_set_equal_mset fresh_damp_state_def damp_constants)

text \<open>C19. As long as calls do not overlap, the keys recorded as active for a name are those of the
  candidates that the walk of some query took and whose answers, up to order, are being served: the
  forced-move test looks at the right backends, through freezes and bundle changes alike.\<close>

theorem active_keys_describe_served:
  assumes "ev_activeKeys (fst (resolve_all qs new_evaluator)) f = Some ks"
  shows "\<exists>mach now r cands served. (mach, now, r) \<in> set qs \<and> rec_FQDN r = f \<and>
    rec_Candidates r = Some cands \<and> ks = map cand_TargetKey (taken mach r cands) \<and>
    served_answers (ev_damper (fst (resolve_all qs new_evaluator))) f = Some served \<and>
    mset served = mset (fresh_answers mach r cands)"
proof -
  have "active_inv [] new_evaluator" by (simp add: active_inv_def new_evaluator_def)
  from resolve_all_active_inv [OF this, of qs] assms show ?thesis
    by (simp add: active_inv_def describes_served_def)
qed

theorem active_keys_describe_served_witness:
  "\<exists>mach r cands. rec_Candidates r = Some cands \<and> [itoa 2] = map cand_TargetKey (taken mach r cands) \<and>
     mset (ans1 2) = mset (fresh_answers mach r cands)"
proof -
  let ?r = "rec2 ModeAll HealthUnhealthy HealthHealthy"
  let ?cs = "[cand1 1 HealthUnhealthy, cand1 2 HealthHealthy]"
  have c: "rec_Candidates ?r = Some ?cs" "rec_FQDN ?r = ''a.z.''" by (simp_all add: rec2_def)
  have t: "taken None ?r ?cs = [cand1 2 HealthHealthy]" by (simp add: taken_eq rec2_eval)
  have f: "fresh_answers None ?r ?cs = ans1 2" unfolding fresh_answers_def t by (simp add: cand1_def)
  have e: "fst (resolve_all [(None, 0, ?r)] new_evaluator) =
      \<lparr>ev_damper = [''a.z.'' \<mapsto> fresh_damp_state (ans1 2)], ev_activeKeys = [''a.z.'' \<mapsto> [itoa 2]]\<rparr>"
    by (simp add: resolve_candidates [OF c(1)] c(2) t f new_evaluator_def new_damper_def
        damper_evaluate_def damp_step_def commit_active_def answer_set_equal_mset del: One_nat_def)
      (simp add: cand1_def)
  show ?thesis
    using active_keys_describe_served [of "[(None, 0, ?r)]" "''a.z.''" "[itoa 2]", unfolded e]
    by (simp add: served_answers_def fresh_damp_state_def del: map_eq_Cons_conv Cons_eq_map_conv) metis
qed

text \<open>For a locally checked target, with the responder's own machine: before its first
  completed check the pushed health decides, afterwards the local state alone does, even
  against the pushed value.\<close>

theorem local_verdict_overrides_pushed_health:
  assumes "machine_inv m" and "cand_TargetKey c \<in> lc_TargetKey ` set (rec_LocalChecks r)"
  shows "viable (Some (machine_iface m)) c (local_targets r) =
    (let h = (if Ready m (cand_TargetKey c) then health_str (State m (cand_TargetKey c))
              else cand_Health c)
     in (h \<noteq> HealthUnhealthy, h = HealthUnhealthy))"
proof -
  have loc: "local_targets r (cand_TargetKey c)"
    using assms(2) by (simp add: local_targets_def)
  show ?thesis
    using mh.viable_ready [of m c "local_targets r"] mh.viable_unready [OF assms(1), of c "local_targets r"]
      mh.viable_not_unhealthy [of m c "local_targets r"] loc
    by (cases "Ready m (cand_TargetKey c)")
      (auto simp: machine_iface_def adapter_Ready_def adapter_State_def Let_def prod_eq_iff viable_def)
qed

theorem local_verdict_overrides_pushed_health_witness:
  "viable (Some (machine_iface (fst (record_result (itoa 1) False 1 1 new_machine))))
     (cand1 1 HealthHealthy)
     (local_targets ((rec2 ModeAll HealthHealthy HealthHealthy)\<lparr>rec_LocalChecks :=
        [\<lparr>lc_TargetKey = itoa 1, lc_Probe = ''tcp'', lc_Host = [], lc_Port = 1, lc_Path = [],
          lc_Namespace = [], lc_Service = [], lc_IntervalMs = 5000, lc_FailureThreshold = 1,
          lc_RecoveryThreshold = 1\<rparr>]\<rparr>)) = (False, True)"
  by (subst local_verdict_overrides_pushed_health)
    (simp add: record_result_inv new_machine_inv, simp add: cand1_def,
      simp add: rec2_eval record_result_def step_target_def get_or_create_def new_machine_def
        Ready_def State_def Let_def)

end
