(* ===== verification/GoIP.thy ===== *)
theory GoIP
  imports GoJson
begin

text \<open>
  The address parsing of the Go library that the DNS handler uses: \<open>net.ParseIP\<close> (the
  grammar of \<open>netip.ParseAddr\<close>: four decimal octets without leading zeros, or hexadecimal
  groups with one ellipsis and an optional dotted tail; a zone makes it nil) and
  \<open>net.IP.To4\<close>, which also turns an IPv4-mapped IPv6 address into its four bytes.
\<close>

fun ipv4_loop :: "char option \<Rightarrow> nat \<Rightarrow> nat \<Rightarrow> nat list \<Rightarrow> string \<Rightarrow> nat list option" where
  "ipv4_loop prev acc digLen fields [] =
     (if length fields < 3 then None else Some (fields @ [acc]))"
| "ipv4_loop prev acc digLen fields (c # cs) =
     (if is_digit c then
        (if digLen = 1 \<and> acc = 0 then None
         else
           (let acc' = acc * 10 + (of_char c - 48) in
            if 255 < acc' then None else ipv4_loop (Some c) acc' (digLen + 1) fields cs))
      else if c = CHR ''.'' then
        (if prev = None \<or> cs = [] \<or> prev = Some (CHR ''.'') then None
         else if length fields = 3 then None
         else ipv4_loop (Some c) 0 0 (fields @ [acc]) cs)
      else None)"

definition parse_ipv4 :: "string \<Rightarrow> nat list option" where
  "parse_ipv4 s = ipv4_loop None 0 0 [] s"

definition hex_acc :: "string \<Rightarrow> nat" where
  "hex_acc ds = foldl (\<lambda>a c. a * 16 + (case hex_val c of None \<Rightarrow> 0 | Some d \<Rightarrow> d)) 0 ds"

text \<open>The groups of an IPv6 address: the bytes read, the position of the ellipsis, what is
  left of the text. The first argument counts the groups that still fit into sixteen bytes.\<close>

fun ipv6_loop ::
  "nat \<Rightarrow> string \<Rightarrow> nat list \<Rightarrow> nat option \<Rightarrow> (nat list \<times> nat option \<times> string) option" where
  "ipv6_loop 0 s ip ellipsis = Some (ip, ellipsis, s)"
| "ipv6_loop (Suc k) s ip ellipsis =
     (let ds = takeWhile (\<lambda>c. hex_val c \<noteq> None) s; rest = drop (length ds) s in
      if 4 < length ds \<or> ds = [] then None
      else if rest \<noteq> [] \<and> hd rest = CHR ''.'' then
        (if ellipsis = None \<and> length ip \<noteq> 12 then None
         else if 16 < length ip + 4 then None
         else (case parse_ipv4 s of None \<Rightarrow> None | Some fields \<Rightarrow> Some (ip @ fields, ellipsis, [])))
      else
        (let ip' = ip @ [hex_acc ds div 256, hex_acc ds mod 256] in
         if rest = [] then Some (ip', ellipsis, [])
         else if hd rest \<noteq> CHR '':'' \<or> tl rest = [] then None
         else if hd (tl rest) = CHR '':'' then
           (if ellipsis \<noteq> None then None
            else if tl (tl rest) = [] then Some (ip', Some (length ip'), [])
            else ipv6_loop k (tl (tl rest)) ip' (Some (length ip')))
         else ipv6_loop k (tl rest) ip' ellipsis))"

definition ipv6_expand :: "nat list \<times> nat option \<times> string \<Rightarrow> nat list option" where
  "ipv6_expand r = (case r of (ip, ellipsis, rest) \<Rightarrow>
     if rest \<noteq> [] then None
     else if length ip < 16 then
       (case ellipsis of
          None \<Rightarrow> None
        | Some p \<Rightarrow> Some (take p ip @ replicate (16 - length ip) 0 @ drop p ip))
     else if ellipsis \<noteq> None then None else Some ip)"

definition parse_ipv6 :: "string \<Rightarrow> nat list option" where
  "parse_ipv6 s =
     (if CHR ''%'' \<in> set s then None
      else if has_prefix s ''::'' then
        (if drop 2 s = [] then Some (replicate 16 0)
         else Option.bind (ipv6_loop 8 (drop 2 s) [] (Some 0)) ipv6_expand)
      else Option.bind (ipv6_loop 8 s [] None) ipv6_expand)"

text \<open>The sixteen-byte form, an IPv4 address with the mapped prefix.\<close>

definition parse_ip :: "string \<Rightarrow> nat list option" where
  "parse_ip s = (case find (\<lambda>c. c \<in> set ''.:%'') s of
     Some c \<Rightarrow>
       (if c = CHR ''.'' then map_option (\<lambda>b. replicate 10 0 @ [255, 255] @ b) (parse_ipv4 s)
        else if c = CHR '':'' then parse_ipv6 s else None)
   | None \<Rightarrow> None)"

definition to4 :: "nat list \<Rightarrow> 8 word list option" where
  "to4 ip = (if length ip = 16 \<and> take 10 ip = replicate 10 0 \<and> ip ! 10 = 255 \<and> ip ! 11 = 255
             then Some (map of_nat (drop 12 ip)) else None)"

text \<open>\<open>net.ParseIP(s).To4()\<close>; the nil address has no four-byte form.\<close>

definition parse_ip4 :: "string \<Rightarrow> 8 word list option" where
  "parse_ip4 s = Option.bind (parse_ip s) to4"

lemma parse_ip4_length: "parse_ip4 s = Some b \<Longrightarrow> length b = 4"
  by (auto simp: parse_ip4_def to4_def split: bind_splits if_splits)

subsection \<open>Dotted addresses are read back\<close>

definition dotted :: "nat \<Rightarrow> nat \<Rightarrow> nat \<Rightarrow> nat \<Rightarrow> string" where
  "dotted a b c d = itoa (int a) @ ''.'' @ itoa (int b) @ ''.'' @ itoa (int c) @ ''.'' @ itoa (int d)"

lemma is_digit_digit_char [simp]: "d < 10 \<Longrightarrow> is_digit (digit_char d)"
  by (simp add: is_digit_def)

text \<open>One printed octet takes the loop to its value.\<close>

lemma ipv4_loop_octet:
  assumes "n < 256"
  shows "\<exists>c k. c \<noteq> CHR ''.'' \<and>
    ipv4_loop prev 0 0 fields (itoa (int n) @ rest) = ipv4_loop (Some c) n k fields rest"
proof -
  have ne: "digit_char d \<noteq> CHR ''.''" if "d < 10" for d
    using digit_char_neq [OF that, of "CHR ''.''"] by simp
  consider "n < 10" | "10 \<le> n" "n < 100" | "100 \<le> n" by linarith
  then show ?thesis
  proof cases
    case 1
    then show ?thesis using ne [of n] by (auto simp: itoa_def dec_digits.simps [of n])
  next
    case 2
    then have less: "n div 10 < 10" "n div 10 \<noteq> 0" by auto
    then have ds: "dec_digits n = [n div 10, n mod 10]"
      using 2 by (simp only: dec_digits.simps [of n] dec_digits.simps [of "n div 10"]) simp
    from less show ?thesis using ds ne [of "n mod 10"] assms by (auto simp: itoa_def Let_def)
  next
    case 3
    then have less: "\<not> n < 10" "\<not> n div 10 < 10" "n div 100 < 10" "n div 100 \<noteq> 0"
      using assms by auto
    have "n div 10 div 10 = n div 100" by (simp add: div_mult2_eq [symmetric])
    then have ds: "dec_digits n = [n div 100, n div 10 mod 10, n mod 10]"
      using less by (simp add: dec_digits.simps [of n] dec_digits.simps [of "n div 10"]
          dec_digits.simps [of "n div 100"])
    moreover have "n div 100 * 10 + n div 10 mod 10 = n div 10"
      using div_mult_mod_eq [of "n div 10" 10] by (simp add: div_mult2_eq [symmetric])
    moreover have "n div 10 * 10 + n mod 10 = n" "n div 10 < 256"
      using assms by auto
    ultimately show ?thesis using less ds ne [of "n mod 10"] assms by (simp add: itoa_def Let_def) blast
  qed
qed

lemma ipv4_loop_dot:
  "c \<noteq> CHR ''.'' \<Longrightarrow> rest \<noteq> [] \<Longrightarrow> length fields \<noteq> 3 \<Longrightarrow>
   ipv4_loop (Some c) n k fields (CHR ''.'' # rest) = ipv4_loop (Some (CHR ''.'')) 0 0 (fields @ [n]) rest"
  by (simp add: is_digit_def)

lemma itoa_nonempty [simp]: "itoa i \<noteq> []"
  by (simp add: itoa_def dec_digits.simps)

lemma ipv4_loop_field:
  assumes "n < 256" and "rest \<noteq> []" and "length fields \<noteq> 3"
  shows "ipv4_loop prev 0 0 fields (itoa (int n) @ CHR ''.'' # rest) =
    ipv4_loop (Some (CHR ''.'')) 0 0 (fields @ [n]) rest"
  using ipv4_loop_octet [OF assms(1), of prev fields "CHR ''.'' # rest"] ipv4_loop_dot assms(2,3)
  by auto

lemma parse_ipv4_dotted:
  assumes "a < 256" and "b < 256" and "c < 256" and "d < 256"
  shows "parse_ipv4 (dotted a b c d) = Some [a, b, c, d]"
  using ipv4_loop_octet [OF assms(4), of "Some (CHR ''.'')" "[a, b, c]" "[]"] assms
  by (auto simp: parse_ipv4_def dotted_def ipv4_loop_field)

lemma find_dotted: "find (\<lambda>c. c \<in> set ''.:%'') (dotted a b c d) = Some (CHR ''.'')"
proof -
  have "find (\<lambda>c. c \<in> set ''.:%'') (xs @ CHR ''.'' # rest) = Some (CHR ''.'')"
    if "\<forall>c \<in> set xs. is_digit c" for xs rest
    using that by (induction xs) (auto simp: is_digit_def)
  then show ?thesis by (simp add: dotted_def itoa_def dec_digits_lt10)
qed

text \<open>The usual spelling of an IPv4 address is read as its four bytes.\<close>

lemma parse_ip4_dotted:
  assumes "a < 256" and "b < 256" and "c < 256" and "d < 256"
  shows "parse_ip4 (dotted a b c d) = Some [of_nat a, of_nat b, of_nat c, of_nat d]"
proof -
  have "parse_ip (dotted a b c d) = Some (replicate 10 0 @ [255, 255] @ [a, b, c, d])"
    unfolding parse_ip_def find_dotted by (simp add: parse_ipv4_dotted [OF assms])
  then show ?thesis by (simp add: parse_ip4_def to4_def eval_nat_numeral)
qed

end
