(* ===== verification/Cache.thy ===== *)
theory Cache
  imports Bundle
begin

text \<open>
  Files and the last-good cache (\<^verbatim>\<open>internal/bundle/bundle.go\<close>: \<open>LoadFile\<close>,
  \<open>CachePath\<close>, \<open>SaveCache\<close>, \<open>LoadCache\<close>). A file system maps paths to files; a
  file knows whether its bytes have reached the disk. Every system call of \<open>SaveCache\<close>
  can fail as the operating system decides (\<open>save_outcome\<close>), and the model keeps the file
  system after each call, so that a crash between any two of them can be stated.
\<close>

subsection \<open>The file system\<close>

record file_node =
  f_data :: bytes
  f_mtime :: go_time
  f_synced :: bool
  f_readable :: bool

type_synonym fs = "string \<rightharpoonup> file_node"

definition read_file :: "fs \<Rightarrow> string \<Rightarrow> bytes option" where
  "read_file fs p = Option.bind (fs p) (\<lambda>f. if f_readable f then Some (f_data f) else None)"

definition open_trunc :: "go_time \<Rightarrow> string \<Rightarrow> fs \<Rightarrow> fs" where
  "open_trunc now p fs = fs(p \<mapsto>
     \<lparr>f_data = [], f_mtime = now, f_synced = False,
      f_readable = (case fs p of None \<Rightarrow> True | Some f \<Rightarrow> f_readable f)\<rparr>)"

definition write_bytes :: "go_time \<Rightarrow> string \<Rightarrow> bytes \<Rightarrow> fs \<Rightarrow> fs" where
  "write_bytes now p raw fs = fs(p := map_option
     (\<lambda>f. f\<lparr>f_data := f_data f @ raw, f_mtime := now, f_synced := False\<rparr>) (fs p))"

definition fsync :: "string \<Rightarrow> fs \<Rightarrow> fs" where
  "fsync p fs = fs(p := map_option (f_synced_update (\<lambda>_. True)) (fs p))"

definition rename_file :: "string \<Rightarrow> string \<Rightarrow> fs \<Rightarrow> fs" where
  "rename_file p q fs = fs(q := fs p, p := None)"

definition remove_file :: "bool \<Rightarrow> string \<Rightarrow> fs \<Rightarrow> fs" where
  "remove_file ok p fs = (if ok then fs(p := None) else fs)"

text \<open>
  After a crash, a file whose bytes were synced is as it was, a file that was not synced has
  any content or is gone, and no file appears.
\<close>

definition crash :: "fs \<Rightarrow> fs \<Rightarrow> bool" where
  "crash fs fs' \<longleftrightarrow> (\<forall>p. case fs p of
     None \<Rightarrow> fs' p = None
   | Some f \<Rightarrow> f_synced f \<longrightarrow> fs' p = Some f)"

definition durable :: "fs \<Rightarrow> string \<Rightarrow> bool" where
  "durable fs p \<longleftrightarrow> (case fs p of None \<Rightarrow> True | Some f \<Rightarrow> f_synced f)"

lemma crash_durable: "crash fs fs' \<Longrightarrow> durable fs p \<Longrightarrow> fs' p = fs p"
  by (auto simp: crash_def durable_def dest: spec [of _ p] split: option.splits)

subsection \<open>Paths\<close>

text \<open>\<open>filepath.Join\<close>: the parts joined by slashes and cleaned (\<open>path.Clean\<close>).\<close>

fun split_slash :: "string \<Rightarrow> string list" where
  "split_slash [] = [[]]"
| "split_slash (c # cs) =
     (if c = CHR ''/'' then [] # split_slash cs
      else (c # hd (split_slash cs)) # tl (split_slash cs))"

fun clean_parts :: "bool \<Rightarrow> string list \<Rightarrow> string list \<Rightarrow> string list" where
  "clean_parts rooted acc [] = rev acc"
| "clean_parts rooted acc (p # ps) =
     (if p = [] \<or> p = ''.'' then clean_parts rooted acc ps
      else if p = ''..'' then
        (if acc \<noteq> [] \<and> hd acc \<noteq> ''..'' then clean_parts rooted (tl acc) ps
         else if rooted then clean_parts rooted acc ps
         else clean_parts rooted (p # acc) ps)
      else clean_parts rooted (p # acc) ps)"

fun join_slash :: "string list \<Rightarrow> string" where
  "join_slash [] = []"
| "join_slash [p] = p"
| "join_slash (p # ps) = p @ ''/'' @ join_slash ps"

definition path_clean :: "string \<Rightarrow> string" where
  "path_clean p =
     (let rooted = (take 1 p = ''/''); q = join_slash (clean_parts rooted [] (split_slash p)) in
      if rooted then ''/'' @ q else if q = [] then ''.'' else q)"

definition path_join :: "string \<Rightarrow> string \<Rightarrow> string" where
  "path_join dir name = path_clean (if dir = [] then name else dir @ ''/'' @ name)"

subsection \<open>Loading\<close>

datatype load_error = StatFailed string | ReadFailed string | InvalidBundle bundle_error

definition load_file :: "fs \<Rightarrow> string \<Rightarrow> load_error + decision_bundle" where
  "load_file fs p = (case read_file fs p of
     None \<Rightarrow> Inl (ReadFailed p)
   | Some raw \<Rightarrow> (case parse_and_validate raw of
       Inl e \<Rightarrow> Inl (InvalidBundle e)
     | Inr b \<Rightarrow> Inr b))"

definition cacheFileName :: string where "cacheFileName = ''bundle.json''"

definition cache_path :: "string \<Rightarrow> string" where
  "cache_path dir = path_join dir cacheFileName"

definition load_cache :: "fs \<Rightarrow> string \<Rightarrow> load_error + decision_bundle" where
  "load_cache fs dir = load_file fs (cache_path dir)"

lemma load_file_Inr_iff:
  "load_file fs p = Inr b \<longleftrightarrow> (\<exists>raw. read_file fs p = Some raw \<and> parse_and_validate raw = Inr b)"
  by (auto simp: load_file_def split: option.splits sum.splits)

lemma load_file_valid: "load_file fs p = Inr b \<Longrightarrow> valid_bundle b"
  by (auto simp: load_file_Inr_iff parse_and_validate_valid)

subsection \<open>Saving\<close>

record save_outcome =
  mkdir_ok :: bool
  open_ok :: bool
  short_write :: "nat option"  \<comment> \<open>\<open>Some n\<close>: the write failed after \<open>n\<close> bytes\<close>
  sync_ok :: bool
  close_ok :: bool
  rename_ok :: bool
  remove_ok :: bool

definition all_ok :: save_outcome where
  "all_ok = \<lparr>mkdir_ok = True, open_ok = True, short_write = None, sync_ok = True,
     close_ok = True, rename_ok = True, remove_ok = True\<rparr>"

datatype save_error =
  MkdirFailed | OpenFailed | WriteFailed | SyncFailed | CloseFailed | RenameFailed

definition tmp_path :: "string \<Rightarrow> string" where
  "tmp_path dir = cache_path dir @ ''.tmp''"

text \<open>
  \<open>SaveCache\<close>: the file systems it passes through, the last one being the one it leaves,
  and its error.
\<close>

definition save_cache_trace ::
  "save_outcome \<Rightarrow> go_time \<Rightarrow> string \<Rightarrow> bytes \<Rightarrow> fs \<Rightarrow> fs list \<times> save_error option" where
  "save_cache_trace oc now dir raw fs =
     (if \<not> mkdir_ok oc then ([fs], Some MkdirFailed)
      else if \<not> open_ok oc then ([fs], Some OpenFailed)
      else
        (let tmp = tmp_path dir; fs1 = open_trunc now tmp fs in
         case short_write oc of
           Some n \<Rightarrow>
             (let fs2 = write_bytes now tmp (take n raw) fs1 in
              ([fs, fs1, fs2, remove_file (remove_ok oc) tmp fs2], Some WriteFailed))
         | None \<Rightarrow>
             (let fs2 = write_bytes now tmp raw fs1 in
              if \<not> sync_ok oc
              then ([fs, fs1, fs2, remove_file (remove_ok oc) tmp fs2], Some SyncFailed)
              else
                (let fs3 = fsync tmp fs2 in
                 if \<not> close_ok oc
                 then ([fs, fs1, fs2, fs3, remove_file (remove_ok oc) tmp fs3], Some CloseFailed)
                 else if \<not> rename_ok oc
                 then ([fs, fs1, fs2, fs3, remove_file (remove_ok oc) tmp fs3], Some RenameFailed)
                 else ([fs, fs1, fs2, fs3, rename_file tmp (cache_path dir) fs3], None)))))"

definition save_cache ::
  "save_outcome \<Rightarrow> go_time \<Rightarrow> string \<Rightarrow> bytes \<Rightarrow> fs \<Rightarrow> fs \<times> save_error option" where
  "save_cache oc now dir raw fs =
     (case save_cache_trace oc now dir raw fs of (states, err) \<Rightarrow> (last states, err))"

lemma tmp_path_neq [simp]: "tmp_path dir \<noteq> cache_path dir" "cache_path dir \<noteq> tmp_path dir"
  by (simp_all add: tmp_path_def)

text \<open>What each call does to the file it names, and that it touches no other file.\<close>

lemma fs_ops_other [simp]:
  "p \<noteq> q \<Longrightarrow> open_trunc now q fs p = fs p"
  "p \<noteq> q \<Longrightarrow> write_bytes now q raw fs p = fs p"
  "p \<noteq> q \<Longrightarrow> fsync q fs p = fs p"
  "p \<noteq> q \<Longrightarrow> remove_file ok q fs p = fs p"
  "p \<noteq> q \<Longrightarrow> p \<noteq> r \<Longrightarrow> rename_file q r fs p = fs p"
  "q \<noteq> r \<Longrightarrow> rename_file q r fs r = fs q"
  "q \<noteq> r \<Longrightarrow> rename_file q r fs q = None"
  by (simp_all add: open_trunc_def write_bytes_def fsync_def remove_file_def rename_file_def)

text \<open>The file that a successful save puts in place.\<close>

definition saved_file :: "go_time \<Rightarrow> string \<Rightarrow> bytes \<Rightarrow> fs \<Rightarrow> file_node" where
  "saved_file now dir raw fs = \<lparr>f_data = raw, f_mtime = now, f_synced = True,
     f_readable = (case fs (tmp_path dir) of None \<Rightarrow> True | Some f \<Rightarrow> f_readable f)\<rparr>"

lemma written_file [simp]:
  "fsync (tmp_path dir) (write_bytes now (tmp_path dir) raw (open_trunc now (tmp_path dir) fs))
     (tmp_path dir) = Some (saved_file now dir raw fs)"
  by (simp add: fsync_def write_bytes_def open_trunc_def saved_file_def)

lemma save_cache_trace_states:
  "st \<in> set (fst (save_cache_trace oc now dir raw fs)) \<Longrightarrow>
     st (cache_path dir) = fs (cache_path dir) \<or> st (cache_path dir) = Some (saved_file now dir raw fs)"
  unfolding save_cache_trace_def Let_def
  by (cases "short_write oc") (force split: if_splits)+

lemma save_cache_Some:
  "save_cache oc now dir raw fs = (fs', Some e) \<Longrightarrow> p \<noteq> tmp_path dir \<Longrightarrow> fs' p = fs p"
  unfolding save_cache_def save_cache_trace_def Let_def
  by (cases "short_write oc") (force split: if_splits)+

lemma save_cache_None:
  assumes "save_cache oc now dir raw fs = (fs', None)"
  shows "fs' = fs(cache_path dir \<mapsto> saved_file now dir raw fs, tmp_path dir := None)"
proof
  fix p
  from assms have "fs' = rename_file (tmp_path dir) (cache_path dir) (fsync (tmp_path dir)
      (write_bytes now (tmp_path dir) raw (open_trunc now (tmp_path dir) fs)))"
    unfolding save_cache_def save_cache_trace_def Let_def
    by (cases "short_write oc") (force split: if_splits)+
  then show "fs' p = (fs(cache_path dir \<mapsto> saved_file now dir raw fs, tmp_path dir := None)) p"
    by (cases "p = tmp_path dir"; cases "p = cache_path dir") auto
qed

lemma save_cache_frame:
  "p \<noteq> tmp_path dir \<Longrightarrow> p \<noteq> cache_path dir \<Longrightarrow>
     fst (save_cache oc now dir raw fs) p = fs p"
  using save_cache_Some [of oc now dir raw fs] save_cache_None [of oc now dir raw fs]
  by (cases "save_cache oc now dir raw fs"; cases "snd (save_cache oc now dir raw fs)") auto

subsection \<open>Properties\<close>

lemma save_all_ok:
  "save_cache all_ok now dir raw fs =
     (fs(cache_path dir \<mapsto> saved_file now dir raw fs, tmp_path dir := None), None)"
proof -
  have "snd (save_cache all_ok now dir raw fs) = None"
    by (simp add: save_cache_def save_cache_trace_def Let_def all_ok_def)
  then show ?thesis
    using save_cache_None [of all_ok now dir raw fs] by (cases "save_cache all_ok now dir raw fs") auto
qed

text \<open>C9. A crash at any moment of a save leaves the cache as it was, or complete: whichever
  file system the save has reached when the machine stops, the cache file that the next boot
  finds is the old one or one that holds all the new bytes, synced.\<close>

theorem save_cache_crash_atomic:
  assumes "durable fs (cache_path dir)"
    and "st \<in> set (fst (save_cache_trace oc now dir raw fs))"
    and "crash st fs'"
  shows "fs' (cache_path dir) = fs (cache_path dir) \<or>
    (\<exists>f. fs' (cache_path dir) = Some f \<and> f_data f = raw \<and> f_synced f)"
  using save_cache_trace_states [OF assms(2)]
proof
  assume st: "st (cache_path dir) = fs (cache_path dir)"
  with assms(1) have "durable st (cache_path dir)" by (simp add: durable_def)
  with assms(3) st show ?thesis by (simp add: crash_durable)
next
  assume st: "st (cache_path dir) = Some (saved_file now dir raw fs)"
  then have "durable st (cache_path dir)" by (simp add: durable_def saved_file_def)
  with assms(3) st show ?thesis by (simp add: crash_durable saved_file_def)
qed

theorem save_cache_crash_atomic_witness:
  "\<exists>f. fst (save_cache all_ok 7 ''c'' ''xy'' Map.empty) (cache_path ''c'') = Some f \<and>
     f_data f = ''xy'' \<and> f_synced f"
proof -
  let ?st = "fst (save_cache all_ok 7 ''c'' ''xy'' Map.empty)"
  have "fst (save_cache_trace all_ok 7 ''c'' ''xy'' Map.empty) \<noteq> []"
    by (simp add: save_cache_trace_def all_ok_def Let_def)
  then have "?st \<in> set (fst (save_cache_trace all_ok 7 ''c'' ''xy'' Map.empty))"
    by (cases "save_cache_trace all_ok 7 ''c'' ''xy'' Map.empty") (simp add: save_cache_def)
  moreover have "crash ?st ?st" by (simp add: crash_def split: option.splits)
  ultimately have "?st (cache_path ''c'') = None \<or>
      (\<exists>f. ?st (cache_path ''c'') = Some f \<and> f_data f = ''xy'' \<and> f_synced f)"
    using save_cache_crash_atomic [of Map.empty "''c''" ?st all_ok 7 "''xy''" ?st]
    by (simp add: durable_def)
  moreover have "?st (cache_path ''c'') \<noteq> None" by (simp add: save_all_ok)
  ultimately show ?thesis by simp
qed

text \<open>A save that reports success has put exactly the given bytes, synced, in the cache
  file and removed its temporary file; one that reports any error has left the cache file
  untouched; neither touches another file, and success is reported exactly when every system
  call succeeded.\<close>

theorem save_cache_outcome:
  "(case save_cache oc now dir raw fs of
      (fs', None) \<Rightarrow> fs' = fs(cache_path dir \<mapsto> saved_file now dir raw fs, tmp_path dir := None)
    | (fs', Some e) \<Rightarrow> fs' = fs(tmp_path dir := fs' (tmp_path dir))) \<and>
   (snd (save_cache oc now dir raw fs) = None \<longleftrightarrow>
      mkdir_ok oc \<and> open_ok oc \<and> short_write oc = None \<and> sync_ok oc \<and> close_ok oc \<and> rename_ok oc)"
proof
  obtain fs' r where r: "save_cache oc now dir raw fs = (fs', r)" by fastforce
  show "case save_cache oc now dir raw fs of
      (fs', None) \<Rightarrow> fs' = fs(cache_path dir \<mapsto> saved_file now dir raw fs, tmp_path dir := None)
    | (fs', Some e) \<Rightarrow> fs' = fs(tmp_path dir := fs' (tmp_path dir))"
  proof (cases r)
    case None
    with r show ?thesis using save_cache_None [of oc now dir raw fs fs'] by simp
  next
    case (Some e)
    with r have "\<And>p. p \<noteq> tmp_path dir \<Longrightarrow> fs' p = fs p"
      using save_cache_Some [of oc now dir raw fs fs' e] by simp
    with r Some show ?thesis by (auto simp: fun_eq_iff)
  qed
  show "snd (save_cache oc now dir raw fs) = None \<longleftrightarrow>
      mkdir_ok oc \<and> open_ok oc \<and> short_write oc = None \<and> sync_ok oc \<and> close_ok oc \<and> rename_ok oc"
    unfolding save_cache_def save_cache_trace_def Let_def by (cases "short_write oc") auto
qed

text \<open>What a save wrote is what the next load reads.\<close>

lemma load_after_save:
  assumes "save_cache oc now dir raw fs = (fs', None)" and "fs (tmp_path dir) = None"
  shows "read_file fs' (cache_path dir) = Some raw"
  using save_cache_None [OF assms(1)] assms(2) by (simp add: read_file_def saved_file_def)

lemma load_cache_saved:
  "parse_and_validate raw = Inr b \<Longrightarrow> fs (tmp_path dir) = None \<Longrightarrow>
     load_cache (fst (save_cache all_ok now dir raw fs)) dir = Inr b"
  using load_after_save [OF save_all_ok] by (simp add: load_cache_def load_file_def save_all_ok)

end
