(* ===== verification/Store.thy ===== *)
theory Store
  imports Cache Interfaces
begin

text \<open>
  The bundle store of \<^verbatim>\<open>internal/bundle/store.go\<close>: the boot from a file with the
  cache as fallback, hot reload by modification time, and the swap shared by reload and fetch.
  Every operation takes the file system explicitly. Between the system calls of one operation
  other processes may write files; \<open>itf n\<close> is what they do before the \<open>n\<close>-th call, and
  \<open>quiet\<close> the case that they do nothing.
\<close>

record store =
  s_bundlePath :: string
  s_cacheDir :: string
  s_current :: "decision_bundle option"
  s_modTime :: go_time

type_synonym interference = "nat \<Rightarrow> fs \<Rightarrow> fs"

definition quiet :: interference where
  "quiet n fs = fs"

definition set_current :: "decision_bundle \<Rightarrow> go_time \<Rightarrow> store \<Rightarrow> store" where
  "set_current b mt s = s\<lparr>s_current := Some b, s_modTime := mt\<rparr>"

definition Current :: "store \<Rightarrow> decision_bundle option" where
  "Current s = s_current s"

subsection \<open>Boot\<close>

definition try_load_bundle_file ::
  "interference \<Rightarrow> store \<Rightarrow> fs \<Rightarrow> fs \<times> (load_error + decision_bundle \<times> go_time)" where
  "try_load_bundle_file itf s fs =
     (let fs1 = itf 0 fs in
      case fs1 (s_bundlePath s) of
        None \<Rightarrow> (fs1, Inl (StatFailed (s_bundlePath s)))
      | Some fi \<Rightarrow>
          (let fs2 = itf 1 fs1 in
           case load_file fs2 (s_bundlePath s) of
             Inl e \<Rightarrow> (fs2, Inl e)
           | Inr b \<Rightarrow> (fs2, Inr (b, f_mtime fi))))"

definition empty_store :: "string \<Rightarrow> string \<Rightarrow> store" where
  "empty_store bp cd =
     \<lparr>s_bundlePath = bp, s_cacheDir = cd, s_current = None, s_modTime = zero_time\<rparr>"

definition new_store ::
  "interference \<Rightarrow> save_outcome \<Rightarrow> go_time \<Rightarrow> string \<Rightarrow> string \<Rightarrow> fs \<Rightarrow> fs \<times> (load_error + store)"
where
  "new_store itf oc now bp cd fs =
     (let s = empty_store bp cd in
      case try_load_bundle_file itf s fs of
        (fs2, Inr (b, mt)) \<Rightarrow>
          (let s' = set_current b mt s; fs3 = itf 2 fs2 in
           case read_file fs3 bp of
             Some raw \<Rightarrow> (fst (save_cache oc now cd raw fs3), Inr s')
           | None \<Rightarrow> (fs3, Inr s'))
      | (fs2, Inl _) \<Rightarrow>
          (let fs3 = itf 2 fs2 in
           case load_cache fs3 cd of
             Inl e \<Rightarrow> (fs3, Inl e)
           | Inr b \<Rightarrow> (fs3, Inr (set_current b zero_time s))))"

subsection \<open>The swap\<close>

definition apply_bundle ::
  "save_outcome \<Rightarrow> go_time \<Rightarrow> bytes \<Rightarrow> go_time \<Rightarrow> fs \<times> store \<Rightarrow>
     (fs \<times> store) \<times> (bundle_error + decision_bundle)" where
  "apply_bundle oc now raw mt w =
     (case w of (fs, s) \<Rightarrow>
        (case parse_and_validate raw of
           Inl e \<Rightarrow> (w, Inl e)
         | Inr b \<Rightarrow>
             ((fst (save_cache oc now (s_cacheDir s) raw fs), set_current b mt s), Inr b)))"

definition apply_if_changed ::
  "save_outcome \<Rightarrow> go_time \<Rightarrow> bytes \<Rightarrow> fs \<times> store \<Rightarrow> (fs \<times> store) \<times> (bundle_error + bool)" where
  "apply_if_changed oc now raw w =
     (case parse_and_validate raw of
        Inl e \<Rightarrow> (w, Inl e)
      | Inr b \<Rightarrow>
          (let unchanged = (case s_current (snd w) of
               None \<Rightarrow> False
             | Some c \<Rightarrow> b_ContentHash b \<noteq> [] \<and> b_ContentHash c = b_ContentHash b) in
           if unchanged then (w, Inr False)
           else (case apply_bundle oc now raw now w of
                   (w', Inl e) \<Rightarrow> (w', Inl e)
                 | (w', Inr _) \<Rightarrow> (w', Inr True))))"

subsection \<open>Hot reload\<close>

definition reload_if_changed ::
  "interference \<Rightarrow> save_outcome \<Rightarrow> go_time \<Rightarrow> fs \<times> store \<Rightarrow> fs \<times> store" where
  "reload_if_changed itf oc now w =
     (case w of (fs, s) \<Rightarrow>
        (let fs1 = itf 0 fs in
         case fs1 (s_bundlePath s) of
           None \<Rightarrow> (fs1, s)
         | Some fi \<Rightarrow>
             (if f_mtime fi = s_modTime s then (fs1, s)
              else
                (let fs2 = itf 1 fs1 in
                 case read_file fs2 (s_bundlePath s) of
                   None \<Rightarrow> (fs2, s)
                 | Some raw \<Rightarrow>
                     (case apply_bundle oc now raw (f_mtime fi) (fs2, s) of
                        ((fs3, s'), Inl e) \<Rightarrow> (fs3, s'\<lparr>s_modTime := f_mtime fi\<rparr>)
                      | (w', Inr b) \<Rightarrow> w')))))"


datatype watch_event = WatchDone | WatchTick interference save_outcome go_time

fun watch_and_reload :: "watch_event list \<Rightarrow> fs \<times> store \<Rightarrow> fs \<times> store" where
  "watch_and_reload [] w = w"
| "watch_and_reload (WatchDone # es) w = w"
| "watch_and_reload (WatchTick itf oc now # es) w =
     watch_and_reload es (reload_if_changed itf oc now w)"

subsection \<open>The invariant\<close>

definition store_inv :: "store \<Rightarrow> bool" where
  "store_inv s \<longleftrightarrow> (\<exists>b. s_current s = Some b \<and> valid_bundle b)"

lemma store_inv_set_current [simp]: "store_inv (set_current b mt s) \<longleftrightarrow> valid_bundle b"
  by (simp add: store_inv_def set_current_def)

lemma store_inv_modTime [simp]: "store_inv (s\<lparr>s_modTime := t\<rparr>) \<longleftrightarrow> store_inv s"
  by (simp add: store_inv_def)

lemma set_current_simps [simp]:
  "s_current (set_current b mt s) = Some b"
  "s_modTime (set_current b mt s) = mt"
  "s_bundlePath (set_current b mt s) = s_bundlePath s"
  "s_cacheDir (set_current b mt s) = s_cacheDir s"
  by (simp_all add: set_current_def)

lemma apply_bundle_Inl:
  "apply_bundle oc now raw mt w = (w', Inl e) \<longleftrightarrow> parse_and_validate raw = Inl e \<and> w' = w"
  by (auto simp: apply_bundle_def split: prod.splits sum.splits)

lemma apply_bundle_Inr:
  "apply_bundle oc now raw mt w = (w', Inr b) \<longleftrightarrow>
     parse_and_validate raw = Inr b \<and>
     w' = (fst (save_cache oc now (s_cacheDir (snd w)) raw (fst w)), set_current b mt (snd w))"
  by (auto simp: apply_bundle_def split: prod.splits sum.splits)

lemmas apply_bundle_iff = apply_bundle_Inl apply_bundle_Inr

lemma apply_bundle_inv [comp_inv]:
  "store_inv (snd w) \<Longrightarrow> store_inv (snd (fst (apply_bundle oc now raw mt w)))"
  by (auto simp: apply_bundle_def parse_and_validate_valid split: prod.splits sum.splits)

lemma new_store_inv:
  "new_store itf oc now bp cd fs = (fs', Inr s) \<Longrightarrow> store_inv s"
  by (auto simp: new_store_def try_load_bundle_file_def load_cache_def Let_def
      dest: load_file_valid split: prod.splits sum.splits option.splits)

lemma reload_if_changed_inv [comp_inv]:
  "store_inv (snd w) \<Longrightarrow> store_inv (snd (reload_if_changed itf oc now w))"
  by (auto simp: reload_if_changed_def Let_def apply_bundle_iff parse_and_validate_valid
      split: prod.splits sum.splits option.splits if_splits)

lemma watch_and_reload_inv [comp_inv]:
  "store_inv (snd w) \<Longrightarrow> store_inv (snd (watch_and_reload es w))"
proof (induction es w rule: watch_and_reload.induct)
  case (3 itf oc now es w)
  then show ?case by (simp add: comp_inv)
qed simp_all

subsection \<open>The store as a provider\<close>

abbreviation world_current :: "fs \<times> store \<Rightarrow> decision_bundle option" where
  "world_current w \<equiv> Current (snd w)"

abbreviation world_inv :: "fs \<times> store \<Rightarrow> bool" where
  "world_inv w \<equiv> store_inv (snd w)"

lemma apply_if_changed_cases:
  obtains (invalid) e where "parse_and_validate raw = Inl e"
      "apply_if_changed oc now raw w = (w, Inl e)"
  | (unchanged) b c where "parse_and_validate raw = Inr b" "s_current (snd w) = Some c"
      "b_ContentHash b \<noteq> []" "b_ContentHash c = b_ContentHash b"
      "apply_if_changed oc now raw w = (w, Inr False)"
  | (applied) b where "parse_and_validate raw = Inr b"
      "\<forall>c. s_current (snd w) = Some c \<longrightarrow> b_ContentHash b = [] \<or> b_ContentHash c \<noteq> b_ContentHash b"
      "apply_if_changed oc now raw w =
         ((fst (save_cache oc now (s_cacheDir (snd w)) raw (fst w)), set_current b now (snd w)),
          Inr True)"
proof (cases "parse_and_validate raw")
  case (Inl e)
  then show ?thesis by (intro invalid [of e]) (simp_all add: apply_if_changed_def)
next
  case (Inr b)
  show ?thesis
  proof (cases "\<exists>c. s_current (snd w) = Some c \<and> b_ContentHash b \<noteq> [] \<and>
      b_ContentHash c = b_ContentHash b")
    case True
    then show ?thesis
      using Inr unchanged [of b] by (auto simp: apply_if_changed_def)
  next
    case False
    then show ?thesis
      using Inr applied [of b]
      by (auto simp: apply_if_changed_def apply_bundle_def split: option.splits prod.splits)
  qed
qed

interpretation st: served_store Current store_inv
  by unfold_locales (auto simp: store_inv_def Current_def)

interpretation ws: fetch_store world_current world_inv "apply_if_changed oc now" for oc now
proof unfold_locales
  fix raw :: bytes and s s' :: "fs \<times> store" and e
  show "\<exists>b. Current (snd s) = Some b \<and> valid_bundle b" if "store_inv (snd s)"
    using that by (rule st.current_valid)
  show "store_inv (snd (fst (apply_if_changed oc now raw s)))" if "store_inv (snd s)"
    using that
    by (cases rule: apply_if_changed_cases [of raw oc now s]) (simp_all add: parse_and_validate_valid)
  show "Current (snd s') = Current (snd s)" if "apply_if_changed oc now raw s = (s', Inl e)"
    using that by (cases rule: apply_if_changed_cases [of raw oc now s]) auto
  show "Current (snd s') = Current (snd s)" if "apply_if_changed oc now raw s = (s', Inr False)"
    using that by (cases rule: apply_if_changed_cases [of raw oc now s]) auto
  show "\<exists>b. parse_and_validate raw = Inr b \<and> Current (snd s') = Some b"
    if "apply_if_changed oc now raw s = (s', Inr True)"
    using that
    by (cases rule: apply_if_changed_cases [of raw oc now s]) (auto simp: Current_def)
qed

subsection \<open>Properties\<close>

text \<open>A readable, synced file, and the file system of a freshly installed responder.\<close>

definition plain_file :: "go_time \<Rightarrow> bytes \<Rightarrow> file_node" where
  "plain_file t raw = \<lparr>f_data = raw, f_mtime = t, f_synced = True, f_readable = True\<rparr>"

definition sample_fs :: fs where
  "sample_fs = [''b.json'' \<mapsto> plain_file 5 sample_raw]"

lemma read_plain_file: "fs p = Some (plain_file t raw) \<Longrightarrow> read_file fs p = Some raw"
  by (simp add: read_file_def plain_file_def)

lemma sample_load: "load_file sample_fs ''b.json'' = Inr sample_bundle"
  by (simp add: load_file_def sample_fs_def read_plain_file sample_accepted)

lemma new_store_from_file:
  assumes "fs bp = Some fi" and "read_file fs bp = Some raw" and "parse_and_validate raw = Inr b"
  shows "new_store quiet oc now bp cd fs =
    (fst (save_cache oc now cd raw fs), Inr (set_current b (f_mtime fi) (empty_store bp cd)))"
  using assms
  by (simp add: new_store_def try_load_bundle_file_def quiet_def load_file_def empty_store_def Let_def)

lemma new_store_from_cache:
  assumes "\<And>b. load_file fs bp \<noteq> Inr b"
  shows "new_store quiet oc now bp cd fs =
    (fs, map_sum id (\<lambda>b. set_current b zero_time (empty_store bp cd)) (load_cache fs cd))"
proof (cases "fs bp")
  case None
  then show ?thesis
    by (simp add: new_store_def try_load_bundle_file_def quiet_def empty_store_def Let_def
        split: sum.splits)
next
  case (Some fi)
  obtain e where "load_file fs bp = Inl e"
    using assms by (cases "load_file fs bp") auto
  with Some show ?thesis
    by (simp add: new_store_def try_load_bundle_file_def quiet_def empty_store_def Let_def
        split: sum.splits)
qed

lemma load_file_raw:
  "load_file fs p = Inr b \<Longrightarrow>
     \<exists>fi raw. fs p = Some fi \<and> read_file fs p = Some raw \<and> parse_and_validate raw = Inr b"
  by (auto simp: load_file_Inr_iff read_file_def split: bind_splits)

text \<open>C36. With no other process at work, a boot fails exactly when both the bundle file and
  the cached bundle are unusable.\<close>

theorem boot_fails_iff_nothing_usable:
  "(\<exists>e. snd (new_store quiet oc now bp cd fs) = Inl e) \<longleftrightarrow>
     (\<nexists>b. load_file fs bp = Inr b) \<and> (\<nexists>b. load_cache fs cd = Inr b)"
proof (cases "\<exists>b. load_file fs bp = Inr b")
  case True
  then show ?thesis
    by (auto dest!: load_file_raw simp: new_store_from_file)
next
  case False
  then show ?thesis
    by (cases "load_cache fs cd") (auto simp: new_store_from_cache)
qed

text \<open>C5. Whatever other processes do to the files during a boot and during every later poll,
  and whichever system calls fail, a store that booted serves a validated bundle for ever:
  hot reload never leaves it without one.\<close>

theorem served_bundle_always_valid:
  assumes "new_store itf oc now bp cd fs = (fs', Inr s)"
  shows "\<exists>b. Current (snd (watch_and_reload es (fs', s))) = Some b \<and> valid_bundle b"
proof -
  have "store_inv s" using assms by (rule new_store_inv)
  then have "store_inv (snd (watch_and_reload es (fs', s)))"
    by (simp add: watch_and_reload_inv)
  then show ?thesis by (rule st.current_valid)
qed

theorem served_bundle_always_valid_witness:
  "\<exists>b. Current (snd (watch_and_reload [WatchTick quiet all_ok 9, WatchDone]
     (fst (save_cache all_ok 6 ''c'' sample_raw sample_fs),
      set_current sample_bundle 5 (empty_store ''b.json'' ''c'')))) = Some b \<and> valid_bundle b"
proof -
  have "new_store quiet all_ok 6 ''b.json'' ''c'' sample_fs =
      (fst (save_cache all_ok 6 ''c'' sample_raw sample_fs),
       Inr (set_current sample_bundle 5 (empty_store ''b.json'' ''c'')))"
    using new_store_from_file [of sample_fs "''b.json''" "plain_file 5 sample_raw" sample_raw
        sample_bundle all_ok 6 "''c''"] sample_accepted
    by (simp add: sample_fs_def read_plain_file plain_file_def)
  then show ?thesis by (rule served_bundle_always_valid)
qed

text \<open>A reload candidate that is rejected leaves the served bundle and the files alone,
  and the next poll that finds the same file does nothing, not even parse it.\<close>

theorem rejected_reload_not_retried:
  assumes "fs (s_bundlePath s) = Some fi" and "f_mtime fi \<noteq> s_modTime s"
    and "read_file fs (s_bundlePath s) = Some raw" and "parse_and_validate raw = Inl e"
  shows "reload_if_changed quiet oc now (fs, s) = (fs, s\<lparr>s_modTime := f_mtime fi\<rparr>) \<and>
    reload_if_changed quiet oc' now' (reload_if_changed quiet oc now (fs, s)) =
      reload_if_changed quiet oc now (fs, s)"
  using assms by (simp add: reload_if_changed_def quiet_def apply_bundle_def Let_def)

theorem rejected_reload_not_retried_witness:
  "reload_if_changed quiet all_ok 9
      ([''b'' \<mapsto> plain_file 8 []], set_current sample_bundle 5 (empty_store ''b'' ''c'')) =
    ([''b'' \<mapsto> plain_file 8 []], set_current sample_bundle 8 (empty_store ''b'' ''c''))"
proof -
  let ?s = "set_current sample_bundle 5 (empty_store ''b'' ''c'')"
  have "s_bundlePath ?s = ''b''" by (simp add: empty_store_def)
  then have "reload_if_changed quiet all_ok 9 ([''b'' \<mapsto> plain_file 8 []], ?s) =
      ([''b'' \<mapsto> plain_file 8 []], ?s\<lparr>s_modTime := f_mtime (plain_file 8 [])\<rparr>)"
    using rejected_reload_not_retried [of "[''b'' \<mapsto> plain_file 8 []]" ?s "plain_file 8 []" "[]"
        ParseError all_ok 9 all_ok 9] empty_rejected
    by (simp add: read_plain_file plain_file_def)
  then show ?thesis by (simp add: set_current_def plain_file_def)
qed






text \<open>Applying fetched bytes changes the store exactly when they validate and their hash
  is empty or not the one served; then the fetched bundle is served, and applying bytes that
  carry a hash a second time is a no-op that writes no file.\<close>

theorem apply_if_changed_contract:
  "(case apply_if_changed oc now raw w of
      (w', Inl e) \<Rightarrow> parse_and_validate raw = Inl e \<and> w' = w
    | (w', Inr False) \<Rightarrow> w' = w \<and> (\<exists>b c. parse_and_validate raw = Inr b \<and>
        s_current (snd w) = Some c \<and> b_ContentHash b \<noteq> [] \<and> b_ContentHash c = b_ContentHash b)
    | (w', Inr True) \<Rightarrow> (\<exists>b. parse_and_validate raw = Inr b \<and> s_current (snd w') = Some b \<and>
        (b_ContentHash b = [] \<or> apply_if_changed oc' now' raw w' = (w', Inr False))))"
proof (cases rule: apply_if_changed_cases [of raw oc now w])
  case (applied b)
  let ?w' = "(fst (save_cache oc now (s_cacheDir (snd w)) raw (fst w)), set_current b now (snd w))"
  have "b_ContentHash b \<noteq> [] \<longrightarrow> apply_if_changed oc' now' raw ?w' = (?w', Inr False)"
    using applied(1) by (simp add: apply_if_changed_def)
  with applied show ?thesis by auto
qed auto

text \<open>C35. What the responder serves survives a restart without its bundle file: after a boot
  from the file whose cache write succeeds, a boot with the file gone serves the same bundle
  from the cache.\<close>

theorem restart_serves_cached_bundle:
  assumes "fs bp = Some fi" and "load_file fs bp = Inr b"
    and "fs (tmp_path cd) = None" and "bp \<noteq> cache_path cd"
  shows "snd (new_store quiet all_ok now bp cd fs) =
      Inr (set_current b (f_mtime fi) (empty_store bp cd)) \<and>
    snd (new_store quiet oc later bp cd ((fst (new_store quiet all_ok now bp cd fs))(bp := None))) =
      Inr (set_current b zero_time (empty_store bp cd))"
proof -
  obtain raw where raw: "read_file fs bp = Some raw" "parse_and_validate raw = Inr b"
    using assms(2) by (auto simp: load_file_Inr_iff)
  let ?fs = "(fst (save_cache all_ok now cd raw fs))(bp := None)"
  have "load_cache (fst (save_cache all_ok now cd raw fs)) cd = Inr b"
    using raw(2) assms(3) by (rule load_cache_saved)
  then have "load_cache ?fs cd = Inr b"
    using assms(4) by (simp add: load_cache_def load_file_def read_file_def)
  moreover have "load_file ?fs bp \<noteq> Inr b'" for b'
    by (simp add: load_file_def read_file_def)
  ultimately show ?thesis
    using raw assms(1) by (simp add: new_store_from_file new_store_from_cache)
qed

theorem restart_serves_cached_bundle_witness:
  "snd (new_store quiet all_ok 9 ''b.json'' ''c''
      ((fst (new_store quiet all_ok 6 ''b.json'' ''c'' sample_fs))(''b.json'' := None))) =
    Inr (set_current sample_bundle zero_time (empty_store ''b.json'' ''c''))"
proof -
  have "sample_fs (tmp_path ''c'') = None" "''b.json'' \<noteq> cache_path ''c''"
    by code_simp+
  moreover have "sample_fs ''b.json'' = Some (plain_file 5 sample_raw)"
    by (simp add: sample_fs_def)
  ultimately show ?thesis
    using restart_serves_cached_bundle [of sample_fs "''b.json''" _ sample_bundle "''c''" 6 all_ok 9]
      sample_load by simp
qed

text \<open>Another process that rewrites a file just before the third system call.\<close>

definition rewrite_before_cache :: "string \<Rightarrow> file_node \<Rightarrow> interference" where
  "rewrite_before_cache p f n fs = (if n = 2 then fs(p \<mapsto> f) else fs)"

text \<open>C37. The boot reads the bundle file twice, once to validate it and once for the cache:
  when another process rewrites the file between the two reads, the responder serves the
  bundle it validated but caches the new bytes, valid or not.\<close>

theorem boot_caches_unvalidated_bytes:
  assumes "load_file fs bp = Inr b" and "fs (tmp_path cd) = None"
    and "bp \<noteq> tmp_path cd"
  shows "\<exists>s. snd (new_store (rewrite_before_cache bp (plain_file t raw)) all_ok now bp cd fs) = Inr s \<and>
    Current s = Some b \<and>
    read_file (fst (new_store (rewrite_before_cache bp (plain_file t raw)) all_ok now bp cd fs))
      (cache_path cd) = Some raw"
proof -
  obtain fi where fi: "fs bp = Some fi" using load_file_raw [OF assms(1)] by blast
  let ?fs = "fs(bp \<mapsto> plain_file t raw)"
  have "read_file (fst (save_cache all_ok now cd raw ?fs)) (cache_path cd) = Some raw"
    using load_after_save [OF save_all_ok, of ?fs cd now raw] assms(2,3) by (simp add: save_all_ok)
  moreover have "read_file ?fs bp = Some raw" by (simp add: read_plain_file)
  ultimately show ?thesis
    using fi assms(1)
    by (simp add: new_store_def try_load_bundle_file_def rewrite_before_cache_def Let_def
        empty_store_def Current_def)
qed

theorem boot_caches_unvalidated_bytes_witness:
  "\<exists>s. snd (new_store (rewrite_before_cache ''b.json'' (plain_file 6 [])) all_ok 7 ''b.json'' ''c''
      sample_fs) = Inr s \<and> Current s = Some sample_bundle \<and>
    read_file (fst (new_store (rewrite_before_cache ''b.json'' (plain_file 6 [])) all_ok 7 ''b.json''
      ''c'' sample_fs)) (cache_path ''c'') = Some []"
proof -
  have "sample_fs (tmp_path ''c'') = None" "''b.json'' \<noteq> tmp_path ''c''"
    by code_simp+
  with sample_load show ?thesis by (intro boot_caches_unvalidated_bytes)
qed

end
