(* ===== verification/Handler.thy ===== *)
theory Handler
  imports Evaluator GoIP Store
begin

text \<open>
  The DNS handler (\<^verbatim>\<open>internal/dnsserver/handler.go\<close>). The DNS library's own functions
  (\<open>dns.Fqdn\<close>, \<open>dns.IsSubDomain\<close>, \<open>Msg.SetReply\<close>) are not part of the
  repository: they are the parameter \<open>dns_lib\<close>; its types are records of the fields the
  handler reads or writes. \<open>clean_reply\<close> names what the handler relies on: a reply made on
  a zero message carries no records and the success code.
\<close>

subsection \<open>Messages\<close>

datatype rrtype = TypeA | TypeAAAA | TypeSOA | TypeOther "16 word"
datatype rrclass = ClassINET | ClassOther "16 word"
datatype rcode = RcodeSuccess | RcodeServerFailure | RcodeNameError | RcodeRefused | RcodeOther nat

record rr_header =
  rr_Name :: string
  rr_Rrtype :: rrtype
  rr_Class :: rrclass
  rr_Ttl :: "32 word"

record soa_data =
  soa_Ns :: string
  soa_Mbox :: string
  soa_Serial :: "32 word"
  soa_Refresh :: "32 word"
  soa_Retry :: "32 word"
  soa_Expire :: "32 word"
  soa_Minttl :: "32 word"

datatype rr = RR_A (rr_Hdr: rr_header) (rr_IP: "8 word list") | RR_SOA (rr_Hdr: rr_header) soa_data

record question =
  q_Name :: string
  q_Qtype :: rrtype

record dns_msg =
  m_Id :: "16 word"
  m_Response :: bool
  m_Authoritative :: bool
  m_Truncated :: bool
  m_RecursionDesired :: bool
  m_RecursionAvailable :: bool
  m_Rcode :: rcode
  m_Question :: "question list"
  m_Answer :: "rr list"
  m_Ns :: "rr list"

definition zero_msg :: dns_msg where
  "zero_msg = \<lparr>m_Id = 0, m_Response = False, m_Authoritative = False, m_Truncated = False,
     m_RecursionDesired = False, m_RecursionAvailable = False, m_Rcode = RcodeSuccess,
     m_Question = [], m_Answer = [], m_Ns = []\<rparr>"

record dns_lib =
  lib_Fqdn :: "string \<Rightarrow> string"
  lib_IsSubDomain :: "string \<Rightarrow> string \<Rightarrow> bool"
  lib_SetReply :: "dns_msg \<Rightarrow> dns_msg \<Rightarrow> dns_msg"

definition clean_reply :: "dns_lib \<Rightarrow> bool" where
  "clean_reply lib \<longleftrightarrow> (\<forall>req. m_Rcode (lib_SetReply lib zero_msg req) = RcodeSuccess \<and>
     m_Answer (lib_SetReply lib zero_msg req) = [] \<and> m_Ns (lib_SetReply lib zero_msg req) = [])"

subsection \<open>The handler\<close>

definition negativeTTL :: "32 word" where "negativeTTL = 5"

definition lookup :: "dns_lib \<Rightarrow> decision_bundle \<Rightarrow> string \<Rightarrow> dns_record option" where
  "lookup lib b name = find (\<lambda>r. to_lower (lib_Fqdn lib (rec_FQDN r)) = to_lower name) (b_Records b)"

definition set_nxdomain :: "string \<Rightarrow> dns_msg \<Rightarrow> dns_msg" where
  "set_nxdomain zone msg =
     (let soa = RR_SOA \<lparr>rr_Name = zone, rr_Rrtype = TypeSOA, rr_Class = ClassINET, rr_Ttl = negativeTTL\<rparr>
        \<lparr>soa_Ns = ''ns.'' @ zone, soa_Mbox = ''hostmaster.'' @ zone, soa_Serial = 1,
         soa_Refresh = negativeTTL, soa_Retry = negativeTTL, soa_Expire = negativeTTL,
         soa_Minttl = negativeTTL\<rparr> in
      msg\<lparr>m_Rcode := RcodeNameError, m_Ns := m_Ns msg @ [soa]\<rparr>)"

text \<open>The loop of \<open>answerA\<close>: an address that is not IPv4 is skipped.\<close>

fun append_answers :: "string \<Rightarrow> dns_record \<Rightarrow> answer list \<Rightarrow> dns_msg \<Rightarrow> dns_msg" where
  "append_answers name r [] msg = msg"
| "append_answers name r (ans # answers) msg =
     (case parse_ip4 (ans_IP ans) of
        None \<Rightarrow> append_answers name r answers msg
      | Some ip \<Rightarrow> append_answers name r answers (msg\<lparr>m_Answer := m_Answer msg @
          [RR_A \<lparr>rr_Name = name, rr_Rrtype = TypeA, rr_Class = ClassINET,
                 rr_Ttl = word_of_int (rec_TTL r)\<rparr> ip]\<rparr>))"

definition answerA ::
  "dns_lib \<Rightarrow> local_health_iface option \<Rightarrow> go_time \<Rightarrow> decision_bundle \<Rightarrow> string \<Rightarrow> string \<Rightarrow>
     evaluator \<Rightarrow> dns_msg \<Rightarrow> evaluator \<times> dns_msg" where
  "answerA lib mach now b zone name e msg =
     (case lookup lib b name of
        None \<Rightarrow> (e, set_nxdomain zone msg)
      | Some r \<Rightarrow>
          (case resolve mach now r e of
             (e', None) \<Rightarrow> (e', msg\<lparr>m_Rcode := RcodeServerFailure\<rparr>)
           | (e', Some answers) \<Rightarrow>
               (let msg' = append_answers name r answers msg in
                (e', if m_Answer msg' = [] then msg'\<lparr>m_Rcode := RcodeServerFailure\<rparr> else msg'))))"

definition answerAAAA :: "dns_lib \<Rightarrow> decision_bundle \<Rightarrow> string \<Rightarrow> string \<Rightarrow> dns_msg \<Rightarrow> dns_msg" where
  "answerAAAA lib b zone name msg =
     (case lookup lib b name of None \<Rightarrow> set_nxdomain zone msg | Some _ \<Rightarrow> msg)"

definition answerOther :: "dns_lib \<Rightarrow> decision_bundle \<Rightarrow> string \<Rightarrow> string \<Rightarrow> dns_msg \<Rightarrow> dns_msg" where
  "answerOther lib b zone name msg =
     (case lookup lib b name of None \<Rightarrow> set_nxdomain zone msg | Some _ \<Rightarrow> msg)"

text \<open>\<open>ServeDNS\<close> with the message it writes as its result; \<open>current\<close> is what the
  store returns. A failed write is only logged.\<close>

definition serve_dns ::
  "dns_lib \<Rightarrow> local_health_iface option \<Rightarrow> go_time \<Rightarrow> decision_bundle option \<Rightarrow> dns_msg \<Rightarrow>
     evaluator \<Rightarrow> evaluator \<times> dns_msg" where
  "serve_dns lib mach now current req e =
     (let msg = (lib_SetReply lib zero_msg req)
            \<lparr>m_Authoritative := True, m_RecursionAvailable := False\<rparr> in
      case m_Question req of
        [q] \<Rightarrow>
          (case current of
             None \<Rightarrow> (e, msg\<lparr>m_Rcode := RcodeServerFailure\<rparr>)
           | Some b \<Rightarrow>
               (let zone = lib_Fqdn lib (b_Domain b); name = lib_Fqdn lib (q_Name q) in
                if \<not> lib_IsSubDomain lib zone name then (e, msg\<lparr>m_Rcode := RcodeRefused\<rparr>)
                else
                  (case q_Qtype q of
                     TypeA \<Rightarrow> answerA lib mach now b zone name e msg
                   | TypeAAAA \<Rightarrow> (e, answerAAAA lib b zone name msg)
                   | _ \<Rightarrow> (e, answerOther lib b zone name msg))))
      | _ \<Rightarrow> (e, msg\<lparr>m_Rcode := RcodeRefused\<rparr>))"

subsection \<open>The address records of an answer\<close>

definition a_record :: "string \<Rightarrow> dns_record \<Rightarrow> 8 word list \<Rightarrow> rr" where
  "a_record name r ip = RR_A \<lparr>rr_Name = name, rr_Rrtype = TypeA, rr_Class = ClassINET,
     rr_Ttl = word_of_int (rec_TTL r)\<rparr> ip"

lemma append_answers_eq:
  "append_answers name r answers msg =
     msg\<lparr>m_Answer := m_Answer msg @
       map (a_record name r) (List.map_filter (\<lambda>a. parse_ip4 (ans_IP a)) answers)\<rparr>"
  by (induction answers arbitrary: msg)
    (auto simp: map_filter_simps a_record_def split: option.splits)

lemma append_answers_fields [simp]:
  "m_Rcode (append_answers name r answers msg) = m_Rcode msg"
  "m_Ns (append_answers name r answers msg) = m_Ns msg"
  by (simp_all add: append_answers_eq)

lemma map_filter_empty_iff: "List.map_filter f xs = [] \<longleftrightarrow> (\<forall>x \<in> set xs. f x = None)"
  by (induction xs) (auto simp: map_filter_simps split: option.splits)

lemma set_map_filter: "set (List.map_filter f xs) = {y. \<exists>x \<in> set xs. f x = Some y}"
  by (induction xs) (auto simp: map_filter_simps split: option.splits)

text \<open>What the three question branches make of a clean message.\<close>

definition ip4s :: "answer list \<Rightarrow> 8 word list list" where
  "ip4s answers = List.map_filter (\<lambda>a. parse_ip4 (ans_IP a)) answers"

lemma ip4s_empty_iff: "ip4s answers = [] \<longleftrightarrow> (\<forall>a \<in> set answers. parse_ip4 (ans_IP a) = None)"
  by (simp add: ip4s_def map_filter_empty_iff)

lemma answerA_eq:
  assumes "m_Answer msg = []"
  shows "answerA lib mach now b zone name e msg =
    (case lookup lib b name of
       None \<Rightarrow> (e, set_nxdomain zone msg)
     | Some r \<Rightarrow>
         (fst (resolve mach now r e),
          case snd (resolve mach now r e) of
            None \<Rightarrow> msg\<lparr>m_Rcode := RcodeServerFailure\<rparr>
          | Some answers \<Rightarrow>
              (if ip4s answers = [] then msg\<lparr>m_Rcode := RcodeServerFailure\<rparr>
               else msg\<lparr>m_Answer := map (a_record name r) (ip4s answers)\<rparr>)))"
  using assms
  by (auto simp: answerA_def append_answers_eq ip4s_def Let_def split: option.splits prod.splits)

lemma set_nxdomain_simps [simp]:
  "m_Rcode (set_nxdomain zone msg) = RcodeNameError"
  "m_Answer (set_nxdomain zone msg) = m_Answer msg"
  by (simp_all add: set_nxdomain_def)

lemma clean_replyD:
  assumes "clean_reply lib"
  shows "m_Rcode (lib_SetReply lib zero_msg req) = RcodeSuccess"
    "m_Answer (lib_SetReply lib zero_msg req) = []" "m_Ns (lib_SetReply lib zero_msg req) = []"
  using assms by (simp_all add: clean_reply_def)

text \<open>The question the handler answers: the only one of the message, under the zone of the
  bundle in force. It is given with the zone and the full name.\<close>

definition in_zone_question ::
  "dns_lib \<Rightarrow> decision_bundle option \<Rightarrow> dns_msg \<Rightarrow> (decision_bundle \<times> string \<times> string \<times> rrtype) option"
where
  "in_zone_question lib current req =
     (case (m_Question req, current) of
        ([q], Some b) \<Rightarrow>
          (if lib_IsSubDomain lib (lib_Fqdn lib (b_Domain b)) (lib_Fqdn lib (q_Name q))
           then Some (b, lib_Fqdn lib (b_Domain b), lib_Fqdn lib (q_Name q), q_Qtype q) else None)
      | _ \<Rightarrow> None)"

abbreviation start_reply :: "dns_lib \<Rightarrow> dns_msg \<Rightarrow> dns_msg" where
  "start_reply lib req \<equiv> (lib_SetReply lib zero_msg req)
     \<lparr>m_Authoritative := True, m_RecursionAvailable := False\<rparr>"

lemma serve_dns_in_zone:
  assumes "in_zone_question lib current req = Some (b, zone, name, t)"
  shows "serve_dns lib mach now current req e =
    (if t = TypeA then answerA lib mach now b zone name e (start_reply lib req)
     else (e, case lookup lib b name of
                None \<Rightarrow> set_nxdomain zone (start_reply lib req)
              | Some _ \<Rightarrow> start_reply lib req))"
  using assms
  by (cases t) (auto simp: in_zone_question_def serve_dns_def answerAAAA_def answerOther_def Let_def
      split: list.splits option.splits if_splits)

lemma serve_dns_rejected:
  assumes "in_zone_question lib current req = None"
  shows "serve_dns lib mach now current req e =
    (e, (start_reply lib req)\<lparr>m_Rcode :=
       (if length (m_Question req) = 1 \<and> current = None then RcodeServerFailure else RcodeRefused)\<rparr>)"
  using assms
  by (auto simp: in_zone_question_def serve_dns_def Let_def split: list.splits option.splits if_splits)

lemma lookup_Some: "lookup lib b name = Some r \<Longrightarrow>
    r \<in> set (b_Records b) \<and> to_lower (lib_Fqdn lib (rec_FQDN r)) = to_lower name"
  by (auto simp: lookup_def dest: find_Some_split)

lemma in_zone_question_current:
  "in_zone_question lib current req = Some (b, zone, name, t) \<Longrightarrow> current = Some b"
  by (auto simp: in_zone_question_def split: list.splits option.splits if_splits)

subsection \<open>A concrete library, zone and query\<close>

definition sample_lib :: dns_lib where
  "sample_lib = \<lparr>lib_Fqdn = normalizeFQDN,
     lib_IsSubDomain = (\<lambda>parent child. drop (length child - length parent) child = parent),
     lib_SetReply = (\<lambda>msg req. msg\<lparr>m_Id := m_Id req, m_Response := True,
       m_Question := take 1 (m_Question req)\<rparr>)\<rparr>"

lemma sample_lib_clean: "clean_reply sample_lib"
  by (simp add: clean_reply_def sample_lib_def zero_msg_def)

definition zone_bundle :: "int \<Rightarrow> answer list \<Rightarrow> decision_bundle" where
  "zone_bundle ttl answers = \<lparr>b_ProtocolVersion = 1, b_Domain = ''z'', b_GeneratedAt = [],
     b_ContentHash = ''h'', b_Records = [\<lparr>rec_FQDN = ''a.z'', rec_TTL = ttl, rec_State = StateOK,
       rec_Mode = ModeSingle, rec_Answers = answers, rec_Candidates = None, rec_LocalChecks = []\<rparr>]\<rparr>"

definition query_for :: "string \<Rightarrow> rrtype \<Rightarrow> dns_msg" where
  "query_for name t = zero_msg\<lparr>m_Id := 7, m_Question := [\<lparr>q_Name = name, q_Qtype = t\<rparr>]\<rparr>"

lemmas sample_eval = sample_lib_def zone_bundle_def query_for_def in_zone_question_def
  normalizeFQDN_def zero_msg_def lookup_def to_lower_def

lemma lower_samples [simp]: "lower_char (CHR ''A'') = CHR ''a''" "lower_char (CHR ''Z'') = CHR ''z''"
  "lower_char (CHR ''a'') = CHR ''a''" "lower_char (CHR ''z'') = CHR ''z''"
  "lower_char (CHR ''b'') = CHR ''b''" "lower_char (CHR ''.'') = CHR ''.''"
  by code_simp+

lemma zone_bundle_valid: "0 < ttl \<Longrightarrow> valid_bundle (zone_bundle ttl answers)"
  by (simp add: valid_bundle_def zone_bundle_def SupportedProtocolVersion_def)

subsection \<open>Properties\<close>

text \<open>Every reply is the library's reply to the request with at most five fields set: it
  is authoritative, never offers recursion, and beside the code it carries only answers and the
  authority section. In particular no reply is ever marked as truncated by the handler.\<close>

theorem reply_frame:
  "\<exists>rc an ns. snd (serve_dns lib mach now current req e) =
    (lib_SetReply lib zero_msg req)\<lparr>m_Authoritative := True, m_RecursionAvailable := False,
      m_Rcode := rc, m_Answer := an, m_Ns := ns\<rparr>"
proof -
  let ?m = "start_reply lib req"
  have upd: "\<exists>rc an ns. m = (lib_SetReply lib zero_msg req)\<lparr>m_Authoritative := True,
      m_RecursionAvailable := False, m_Rcode := rc, m_Answer := an, m_Ns := ns\<rparr>"
    if "m = ?m\<lparr>m_Rcode := m_Rcode m, m_Answer := m_Answer m, m_Ns := m_Ns m\<rparr>" for m
    by (subst that) blast
  show ?thesis
  proof (rule upd, cases "in_zone_question lib current req")
    case None
    show "snd (serve_dns lib mach now current req e) = ?m\<lparr>m_Rcode := m_Rcode (snd (serve_dns lib mach
        now current req e)), m_Answer := m_Answer (snd (serve_dns lib mach now current req e)),
        m_Ns := m_Ns (snd (serve_dns lib mach now current req e))\<rparr>"
      by (simp add: serve_dns_rejected [OF None])
  next
    case (Some x)
    obtain b zone name t where "x = (b, zone, name, t)" by (cases x)
    from Some [unfolded this]
    show "snd (serve_dns lib mach now current req e) = ?m\<lparr>m_Rcode := m_Rcode (snd (serve_dns lib mach
        now current req e)), m_Answer := m_Answer (snd (serve_dns lib mach now current req e)),
        m_Ns := m_Ns (snd (serve_dns lib mach now current req e))\<rparr>"
      by (auto simp: serve_dns_in_zone answerA_def set_nxdomain_def append_answers_eq Let_def
          split: option.splits prod.splits)
  qed
qed

text \<open>A query is refused exactly when it does not hold one single question or that
  question lies outside the zone of the bundle in force; a refused query carries no records
  and leaves the evaluator alone.\<close>

theorem refused_iff_not_ours:
  assumes "clean_reply lib"
  shows "m_Rcode (snd (serve_dns lib mach now current req e)) = RcodeRefused \<longleftrightarrow>
    length (m_Question req) \<noteq> 1 \<or>
    (\<exists>b. current = Some b \<and>
       \<not> lib_IsSubDomain lib (lib_Fqdn lib (b_Domain b)) (lib_Fqdn lib (q_Name (hd (m_Question req)))))"
proof (cases "in_zone_question lib current req")
  case None
  then show ?thesis
    using serve_dns_rejected [OF None]
    by (auto simp: in_zone_question_def length_Suc_conv split: list.splits option.splits if_splits)
next
  case (Some x)
  obtain b zone name t where x: "x = (b, zone, name, t)" by (cases x)
  from Some [unfolded x] show ?thesis
    using clean_replyD [OF assms]
    by (auto simp: serve_dns_in_zone answerA_eq in_zone_question_def
        split: list.splits option.splits if_splits)
qed

theorem refused_iff_not_ours_witness:
  "m_Rcode (snd (serve_dns sample_lib None 0 (Some (zone_bundle 30 [])) (query_for ''a.y'' TypeA)
     new_evaluator)) = RcodeRefused"
  by (subst refused_iff_not_ours [OF sample_lib_clean]) (simp add: sample_eval)

text \<open>C31. A name is denied exactly when a single question under the zone names no record of
  the bundle, whatever its type; the denial carries no answer and one SOA of the zone whose
  TTL and negative TTL are five seconds, and leaves the evaluator alone.\<close>

theorem nxdomain_iff_unknown_name:
  assumes "clean_reply lib" and "serve_dns lib mach now current req e = (e', msg)"
  shows "(m_Rcode msg = RcodeNameError \<longleftrightarrow>
      (\<exists>b zone name t. in_zone_question lib current req = Some (b, zone, name, t) \<and>
        (\<forall>r \<in> set (b_Records b). to_lower (lib_Fqdn lib (rec_FQDN r)) \<noteq> to_lower name))) \<and>
    (m_Rcode msg = RcodeNameError \<longrightarrow> e' = e \<and> m_Answer msg = [] \<and>
      (\<exists>b soa hdr. current = Some b \<and> m_Ns msg = [RR_SOA hdr soa] \<and>
        hdr = \<lparr>rr_Name = lib_Fqdn lib (b_Domain b), rr_Rrtype = TypeSOA, rr_Class = ClassINET,
               rr_Ttl = 5\<rparr> \<and> soa_Minttl soa = 5))"
proof (cases "in_zone_question lib current req")
  case None
  then show ?thesis
    using assms(2) by (auto simp: serve_dns_rejected split: if_splits)
next
  case (Some x)
  obtain b zone name t where x: "x = (b, zone, name, t)" by (cases x)
  have zone: "current = Some b" "zone = lib_Fqdn lib (b_Domain b)"
    using Some by (auto simp: in_zone_question_def x split: list.splits option.splits if_splits)
  have none: "lookup lib b name = None \<longleftrightarrow>
      (\<forall>r \<in> set (b_Records b). to_lower (lib_Fqdn lib (rec_FQDN r)) \<noteq> to_lower name)"
    by (auto simp: lookup_def find_None_iff)
  show ?thesis
  proof (cases "lookup lib b name")
    case None
    then show ?thesis
      using assms(2) Some zone none clean_replyD [OF assms(1)]
      by (auto simp: x serve_dns_in_zone answerA_eq set_nxdomain_def negativeTTL_def Let_def
          split: if_splits)
  next
    case (Some r)
    then have "m_Rcode msg \<noteq> RcodeNameError"
      using assms(2) \<open>in_zone_question lib current req = Some x\<close> clean_replyD [OF assms(1)]
      by (auto simp: x serve_dns_in_zone answerA_eq split: if_splits option.splits)
    with Some none \<open>in_zone_question lib current req = Some x\<close> show ?thesis by (auto simp: x)
  qed
qed

theorem nxdomain_iff_unknown_name_witness:
  "m_Rcode (snd (serve_dns sample_lib None 0 (Some (zone_bundle 30 [])) (query_for ''b.z'' TypeAAAA)
     new_evaluator)) = RcodeNameError"
  by (rule nxdomain_iff_unknown_name [OF sample_lib_clean prod.collapse [symmetric],
        THEN conjunct1, THEN iffD2]) (simp add: sample_eval)

text \<open>C6. An address query for a known name never gets an empty success: either the reply is
  NOERROR with at least one A record, each carrying the queried name, four bytes and an address
  of the list the evaluator served, or it is a server failure without answers.\<close>

theorem address_query_answered_or_failed:
  assumes "clean_reply lib"
    and "in_zone_question lib current req = Some (b, zone, name, TypeA)"
    and "lookup lib b name = Some r"
    and "serve_dns lib mach now current req e = (e', msg)"
  shows "(m_Rcode msg = RcodeSuccess \<and> m_Answer msg \<noteq> [] \<and> m_Ns msg = [] \<and>
      (\<exists>answers. snd (resolve mach now r e) = Some answers \<and>
        (\<forall>x \<in> set (m_Answer msg). rr_Name (rr_Hdr x) = name \<and> rr_Rrtype (rr_Hdr x) = TypeA \<and>
          length (rr_IP x) = 4 \<and> (\<exists>a \<in> set answers. parse_ip4 (ans_IP a) = Some (rr_IP x))))) \<or>
    (m_Rcode msg = RcodeServerFailure \<and> m_Answer msg = [] \<and> m_Ns msg = [])"
  using assms(3,4) clean_replyD [OF assms(1), of req]
  by (auto simp: serve_dns_in_zone [OF assms(2)] answerA_eq a_record_def ip4s_def set_map_filter
      parse_ip4_length split: option.splits if_splits) blast+

definition one_answer :: "answer list" where
  "one_answer = [\<lparr>ans_IP = dotted 10 0 0 1, ans_Port = 80\<rparr>]"

lemma ip4s_one_answer: "ip4s one_answer = [[10, 0, 0, 1]]"
  using parse_ip4_dotted [of 10 0 0 1] by (simp add: ip4s_def one_answer_def map_filter_simps)

theorem address_query_answered_or_failed_witness:
  "(let msg = snd (serve_dns sample_lib None 0 (Some (zone_bundle 30 one_answer))
      (query_for ''A.z'' TypeA) new_evaluator) in
    m_Rcode msg = RcodeSuccess \<and> m_Answer msg \<noteq> [] \<or> m_Rcode msg = RcodeServerFailure)"
proof -
  let ?b = "zone_bundle 30 one_answer" and ?q = "query_for ''A.z'' TypeA"
  have "in_zone_question sample_lib (Some ?b) ?q = Some (?b, ''z.'', ''A.z.'', TypeA)"
    and "lookup sample_lib ?b ''A.z.'' = Some (hd (b_Records ?b))"
    by (simp_all add: sample_eval)
  from address_query_answered_or_failed [OF sample_lib_clean this prod.collapse [symmetric]]
  show ?thesis by (auto simp: Let_def)
qed

text \<open>Every other query for a known name (AAAA above all) gets a clean empty success,
  whatever the record's state and health, and does not touch the evaluator.\<close>

theorem other_types_get_empty_success:
  assumes "clean_reply lib"
    and "in_zone_question lib current req = Some (b, zone, name, t)" and "t \<noteq> TypeA"
    and "r \<in> set (b_Records b)" and "to_lower (lib_Fqdn lib (rec_FQDN r)) = to_lower name"
    and "serve_dns lib mach now current req e = (e', msg)"
  shows "m_Rcode msg = RcodeSuccess \<and> m_Answer msg = [] \<and> m_Ns msg = [] \<and> e' = e"
proof -
  have "lookup lib b name \<noteq> None"
    using assms(4,5) by (auto simp: lookup_def find_None_iff)
  then show ?thesis
    using assms(3,6) clean_replyD [OF assms(1), of req]
    by (auto simp: serve_dns_in_zone [OF assms(2)])
qed

theorem other_types_get_empty_success_witness:
  "m_Rcode (snd (serve_dns sample_lib None 0 (Some (zone_bundle 30 [])) (query_for ''A.z'' TypeAAAA)
      new_evaluator)) = RcodeSuccess"
proof -
  let ?b = "zone_bundle 30 []" and ?q = "query_for ''A.z'' TypeAAAA"
  have "in_zone_question sample_lib (Some ?b) ?q = Some (?b, ''z.'', ''A.z.'', TypeAAAA)"
    and "hd (b_Records ?b) \<in> set (b_Records ?b)"
    and "to_lower (lib_Fqdn sample_lib (rec_FQDN (hd (b_Records ?b)))) = to_lower ''A.z.''"
    by (simp_all add: sample_eval)
  from other_types_get_empty_success [OF sample_lib_clean this(1) _ this(2,3) prod.collapse [symmetric]]
  show ?thesis by simp
qed

text \<open>C4. Over a booted store, a server failure means exactly one thing: an address query for
  a known name whose evaluation refused to answer or left no IPv4 address. No other query fails,
  and the nil bundle is never met.\<close>

theorem server_failure_iff_nothing_to_serve:
  assumes "clean_reply lib" and "store_inv s"
  shows "m_Rcode (snd (serve_dns lib mach now (Current s) req e)) = RcodeServerFailure \<longleftrightarrow>
    (\<exists>b zone name r. in_zone_question lib (Current s) req = Some (b, zone, name, TypeA) \<and>
       lookup lib b name = Some r \<and>
       (\<forall>answers. snd (resolve mach now r e) = Some answers \<longrightarrow>
          (\<forall>a \<in> set answers. parse_ip4 (ans_IP a) = None)))"
proof (cases "in_zone_question lib (Current s) req")
  case None
  then show ?thesis
    using st.current_not_nil [OF assms(2)] by (simp add: serve_dns_rejected)
next
  case (Some x)
  obtain b zone name t where x: "x = (b, zone, name, t)" by (cases x)
  from Some [unfolded x] show ?thesis
    using clean_replyD [OF assms(1), of req]
    by (auto simp: serve_dns_in_zone answerA_eq ip4s_empty_iff split: option.splits)
qed

definition sample_store :: "decision_bundle \<Rightarrow> store" where
  "sample_store b = set_current b 1 (empty_store ''b.json'' ''c'')"

theorem server_failure_iff_nothing_to_serve_witness:
  "m_Rcode (snd (serve_dns sample_lib None 0 (Current (sample_store (zone_bundle 30 [])))
      (query_for ''a.z'' TypeA) new_evaluator)) = RcodeServerFailure"
  by (subst server_failure_iff_nothing_to_serve [OF sample_lib_clean])
    (simp_all add: sample_store_def zone_bundle_valid,
      simp add: sample_eval Current_def resolve_legacy)

text \<open>C32. The TTL of a served address is, modulo \<open>2 ^ 32\<close>, the TTL of the record found for the
  name in the question: validation only asks for a positive one, so a TTL is served as zero when it
  is a multiple of \<open>2 ^ 32\<close> seconds, and only then.\<close>

theorem served_ttl_is_truncated:
  assumes "clean_reply lib" and "store_inv s"
    and "x \<in> set (m_Answer (snd (serve_dns lib mach now (Current s) req e)))"
  shows "\<exists>b r. Current s = Some b \<and> 0 < rec_TTL r \<and>
    lookup lib b (lib_Fqdn lib (q_Name (hd (m_Question req)))) = Some r \<and>
    uint (rr_Ttl (rr_Hdr x)) = rec_TTL r mod 2 ^ 32 \<and> (rr_Ttl (rr_Hdr x) = 0 \<longleftrightarrow> 2 ^ 32 dvd rec_TTL r)"
proof (cases "in_zone_question lib (Current s) req")
  case None
  then show ?thesis
    using assms(3) clean_replyD [OF assms(1), of req] by (simp add: serve_dns_rejected)
next
  case (Some y)
  obtain b zone name t where y: "y = (b, zone, name, t)" by (cases y)
  have b: "Current s = Some b" using Some by (simp add: y in_zone_question_current)
  have name: "name = lib_Fqdn lib (q_Name (hd (m_Question req)))"
    using Some by (auto simp: y in_zone_question_def split: list.splits option.splits if_splits)
  obtain r where r: "lookup lib b name = Some r" "uint (rr_Ttl (rr_Hdr x)) = rec_TTL r mod 2 ^ 32"
    using assms(3) clean_replyD [OF assms(1), of req] Some
    by (auto simp: y serve_dns_in_zone answerA_eq a_record_def uint_word_of_int
        split: option.splits if_splits)
  then have "rr_Ttl (rr_Hdr x) = 0 \<longleftrightarrow> 2 ^ 32 dvd rec_TTL r"
    by (metis dvd_eq_mod_eq_0 uint_0_iff)
  then show ?thesis
    using r name lookup_Some [OF r(1)] st.served_ttl_positive [OF assms(2) b] b by blast
qed

theorem served_ttl_is_truncated_witness:
  "\<exists>x. m_Answer (snd (serve_dns sample_lib None 0 (Current (sample_store (zone_bundle 4294967296 one_answer)))
      (query_for ''a.z'' TypeA) new_evaluator)) = [x] \<and> rr_Ttl (rr_Hdr x) = 0"
proof -
  let ?b = "zone_bundle 4294967296 one_answer" and ?q = "query_for ''a.z'' TypeA"
  let ?msg = "snd (serve_dns sample_lib None 0 (Current (sample_store ?b)) ?q new_evaluator)"
  have inv: "store_inv (sample_store ?b)" and cur: "Current (sample_store ?b) = Some ?b"
    by (simp_all add: sample_store_def zone_bundle_valid Current_def)
  have z: "in_zone_question sample_lib (Some ?b) ?q = Some (?b, ''z.'', ''a.z.'', TypeA)"
    and l: "lookup sample_lib ?b ''a.z.'' = Some (hd (b_Records ?b))"
    by (simp_all add: sample_eval)
  have "snd (resolve None 0 (hd (b_Records ?b)) new_evaluator) = Some one_answer"
    by (simp add: resolve_legacy zone_bundle_def)
  then obtain x where x: "m_Answer ?msg = [x]"
    using clean_replyD [OF sample_lib_clean, of ?q] l
    by (simp add: cur serve_dns_in_zone [OF z] answerA_eq ip4s_one_answer)
  have n: "lib_Fqdn sample_lib (q_Name (hd (m_Question ?q))) = ''a.z.''" by (simp add: sample_eval)
  obtain r where r: "lookup sample_lib ?b ''a.z.'' = Some r" and z: "rr_Ttl (rr_Hdr x) = 0 \<longleftrightarrow> 2 ^ 32 dvd rec_TTL r"
    using served_ttl_is_truncated [OF sample_lib_clean inv, of x None 0 ?q new_evaluator] x cur n by auto
  have "rec_TTL r = 2 ^ 32" using r l by (simp add: zone_bundle_def)
  with x z show ?thesis by simp
qed

end
