(* ===== verification/Backoff.thy ===== *)
theory Backoff
  imports Interfaces
begin

text \<open>
  The retry delays of \<^verbatim>\<open>internal/remote/runner.go\<close> and the tuning constants with
  which \<^verbatim>\<open>cmd/zeus-gslb/main.go\<close> uses them. The products are 64-bit, so they wrap;
  the lemmas show that they never do for the constants in use.
\<close>

definition bootFetchRetries :: int where "bootFetchRetries = 3"
definition bootFetchBackoffStep :: duration where "bootFetchBackoffStep = 2 * second"
definition subscribeIdleTimeout :: duration where "subscribeIdleTimeout = 45 * second"
definition pollFallbackInterval :: duration where "pollFallbackInterval = 5 * second"
definition reconnectBackoffBase :: duration where "reconnectBackoffBase = 1 * second"
definition reconnectBackoffCeil :: duration where "reconnectBackoffCeil = 30 * second"
definition checksBaseTick :: duration where "checksBaseTick = 250 * millisecond"
definition healthHeartbeat :: duration where "healthHeartbeat = 30 * second"
definition healthReportRetryBase :: duration where "healthReportRetryBase = 1 * second"
definition healthReportRetryCeil :: duration where "healthReportRetryCeil = 30 * second"

lemmas tuning_defs = bootFetchRetries_def bootFetchBackoffStep_def subscribeIdleTimeout_def
  pollFallbackInterval_def reconnectBackoffBase_def reconnectBackoffCeil_def checksBaseTick_def
  healthHeartbeat_def healthReportRetryBase_def healthReportRetryCeil_def duration_defs

definition linear_backoff :: "duration \<Rightarrow> int \<Rightarrow> duration" where
  "linear_backoff step attempt = wrap64 (attempt * step)"

text \<open>The doubling loop, with the number of passes that remain.\<close>

fun doubling :: "nat \<Rightarrow> duration \<Rightarrow> duration \<Rightarrow> duration" where
  "doubling 0 d mx = (if mx < d then mx else d)"
| "doubling (Suc n) d mx = (if mx \<le> d then mx else doubling n (wrap64 (d * 2)) mx)"

definition exponential_backoff :: "duration \<Rightarrow> duration \<Rightarrow> int \<Rightarrow> duration" where
  "exponential_backoff base mx attempt =
     (let attempt' = (if attempt < 1 then 1 else attempt) in doubling (nat (attempt' - 1)) base mx)"

lemma doubling_closed:
  assumes "0 < d" and "mx \<le> 2 ^ 62"
  shows "doubling n d mx = min mx (d * 2 ^ n)"
  using assms(1)
proof (induction n arbitrary: d)
  case (Suc n)
  show ?case
  proof (cases "mx \<le> d")
    case True
    moreover have "d \<le> d * 2 ^ Suc n" using Suc.prems one_le_power [of "2::int" "Suc n"]
      by (metis mult.right_neutral mult_le_cancel_left_pos one_le_numeral)
    ultimately show ?thesis by simp
  next
    case False
    then have "wrap64 (d * 2) = d * 2" using Suc.prems assms(2) by simp
    then show ?thesis using False Suc by (simp add: algebra_simps)
  qed
qed (simp add: min_def)

lemma exponential_closed:
  assumes "0 < base" and "mx \<le> 2 ^ 62" and "1 \<le> n"
  shows "exponential_backoff base mx n = min mx (base * 2 ^ nat (n - 1))"
  using assms by (simp add: exponential_backoff_def Let_def doubling_closed)

lemma exponential_mono:
  assumes "0 < base" and "mx \<le> 2 ^ 62" and "1 \<le> m" and "m \<le> n"
  shows "exponential_backoff base mx m \<le> exponential_backoff base mx n"
proof -
  have "(2::int) ^ nat (m - 1) \<le> 2 ^ nat (n - 1)"
    using assms(3,4) by (intro power_increasing) auto
  then have "base * 2 ^ nat (m - 1) \<le> base * 2 ^ nat (n - 1)"
    using assms(1) by simp
  then show ?thesis using assms by (simp add: exponential_closed min_le_iff_disj)
qed

lemma exponential_range:
  assumes "0 < base" and "0 \<le> mx" and "mx \<le> 2 ^ 62" and "1 \<le> n"
  shows "0 \<le> exponential_backoff base mx n \<and> exponential_backoff base mx n \<le> mx"
  using assms by (simp add: exponential_closed)

text \<open>The three schedules the program starts with.\<close>

interpretation boot_wait: retry_delay "linear_backoff bootFetchBackoffStep" bootFetchRetries
  by unfold_locales (simp_all add: linear_backoff_def tuning_defs)

interpretation reconnect_wait: capped_delay
  "exponential_backoff reconnectBackoffBase reconnectBackoffCeil" "2 ^ 63 - 1" reconnectBackoffCeil
proof unfold_locales
  fix m n :: int
  show "0 \<le> exponential_backoff reconnectBackoffBase reconnectBackoffCeil n" if "1 \<le> n"
    using exponential_range [OF _ _ _ that] by (simp add: tuning_defs)
  show "exponential_backoff reconnectBackoffBase reconnectBackoffCeil n \<le> reconnectBackoffCeil"
    if "1 \<le> n"
    using exponential_range [OF _ _ _ that] by (simp add: tuning_defs)
  show "exponential_backoff reconnectBackoffBase reconnectBackoffCeil m \<le>
      exponential_backoff reconnectBackoffBase reconnectBackoffCeil n" if "1 \<le> m" "m \<le> n"
    using that by (intro exponential_mono) (simp_all add: tuning_defs)
qed

interpretation report_wait: capped_delay
  "exponential_backoff healthReportRetryBase healthReportRetryCeil" "2 ^ 63 - 1" healthReportRetryCeil
proof unfold_locales
  fix m n :: int
  show "0 \<le> exponential_backoff healthReportRetryBase healthReportRetryCeil n" if "1 \<le> n"
    using exponential_range [OF _ _ _ that] by (simp add: tuning_defs)
  show "exponential_backoff healthReportRetryBase healthReportRetryCeil n \<le> healthReportRetryCeil"
    if "1 \<le> n"
    using exponential_range [OF _ _ _ that] by (simp add: tuning_defs)
  show "exponential_backoff healthReportRetryBase healthReportRetryCeil m \<le>
      exponential_backoff healthReportRetryBase healthReportRetryCeil n" if "1 \<le> m" "m \<le> n"
    using that by (intro exponential_mono) (simp_all add: tuning_defs)
qed

lemma boot_wait_total: "boot_wait.total_delay 3 = 12 * second"
  unfolding numeral_3_eq_3 boot_wait.total_delay.simps by (simp add: linear_backoff_def tuning_defs)

lemma report_wait_total: "report_wait.total_delay 5 \<le> 150 * second"
  using report_wait.total_delay_capped [of 5] by (simp add: tuning_defs)

subsection \<open>Properties\<close>

text \<open>With a positive base and a ceiling up to \<open>2 ^ 62\<close> nanoseconds the exponential
  delay is the base doubled once per earlier attempt, cut at the ceiling: the 64-bit doubling
  never overflows on the way, for any attempt number.\<close>

theorem exponential_backoff_closed_form:
  assumes "0 < base" and "mx \<le> 2 ^ 62"
  shows "exponential_backoff base mx attempt = min mx (base * 2 ^ nat (attempt - 1))"
  using exponential_closed [OF assms, of "max 1 attempt"]
  by (cases "attempt < 1") (auto simp: exponential_backoff_def max_def)

theorem exponential_backoff_closed_form_witness:
  "map (exponential_backoff reconnectBackoffBase reconnectBackoffCeil) [1, 2, 5, 6, 1000] =
     [1 * second, 2 * second, 16 * second, 30 * second, 30 * second]"
proof -
  have "(32::int) \<le> 2 ^ 999"
    using power_increasing [of 5 999 "2::int"] by simp
  then show ?thesis
    using exponential_backoff_closed_form [of reconnectBackoffBase reconnectBackoffCeil]
    by (simp add: tuning_defs)
qed

end
