(* ===== verification/Client.thy ===== *)
theory Client
  imports GoJson Backoff "HOL-Library.List_Lexorder" "HOL-Library.Char_ord"
begin

text \<open>
  The HTTP client of \<^verbatim>\<open>internal/remote/client.go\<close> and \<^verbatim>\<open>health.go\<close>. The network is
  an argument: \<open>net_check\<close> is the verdict of \<open>http.NewRequestWithContext\<close> on a URL and
  \<open>net_do\<close> the outcome of one request, an error or a response whose body delivers bytes and
  then ends or fails.
\<close>

definition maxBundleBytes :: nat where "maxBundleBytes = 16 * 2 ^ 20"
definition HealthProtocolVersion :: int where "HealthProtocolVersion = 1"

record client =
  c_BaseURL :: string
  c_Cluster :: string
  c_Token :: string

definition new_client :: "string \<Rightarrow> string \<Rightarrow> string \<Rightarrow> client" where
  "new_client baseURL cluster token =
     \<lparr>c_BaseURL = trim_right baseURL (CHR ''/''), c_Cluster = cluster, c_Token = token\<rparr>"

subsection \<open>URLs\<close>

text \<open>\<open>url.QueryEscape\<close>: letters, digits and four marks stay, a space becomes a plus sign,
  every other byte its two hexadecimal digits.\<close>

definition unreserved :: "char \<Rightarrow> bool" where
  "unreserved c = (let n = of_char c :: nat in
     48 \<le> n \<and> n \<le> 57 \<or> 65 \<le> n \<and> n \<le> 90 \<or> 97 \<le> n \<and> n \<le> 122 \<or> c \<in> set ''-_.~'')"

definition hex_digit :: "nat \<Rightarrow> char" where
  "hex_digit n = ''0123456789ABCDEF'' ! n"

definition escape_char :: "char \<Rightarrow> string" where
  "escape_char c =
     (if unreserved c then [c] else if c = CHR '' '' then ''+''
      else [CHR ''%'', hex_digit (of_char c div 16), hex_digit (of_char c mod 16)])"

definition query_escape :: "string \<Rightarrow> string" where
  "query_escape s = concat (map escape_char s)"

definition bundleURL :: "client \<Rightarrow> string" where
  "bundleURL c = c_BaseURL c @ ''/api/global-endpoints/bundle?cluster='' @ query_escape (c_Cluster c)"

definition eventsURL :: "client \<Rightarrow> string" where
  "eventsURL c = c_BaseURL c @ ''/api/global-endpoints/events?cluster='' @ query_escape (c_Cluster c)"

definition healthURL :: "client \<Rightarrow> string" where
  "healthURL c = c_BaseURL c @ ''/api/global-endpoints/health''"

subsection \<open>Requests\<close>

datatype http_method = MethodGet | MethodPost

record http_request =
  rq_Method :: http_method
  rq_URL :: string
  rq_Header :: "(string \<times> string) list"
  rq_Body :: "json option"

record http_response =
  rs_Status :: int
  rs_Data :: bytes
  rs_Fail :: "string option"

record http_network =
  net_check :: "string \<Rightarrow> string option"
  net_do :: "http_request \<Rightarrow> string + http_response"

datatype client_error =
  BuildFailed string
| DoFailed string
| ReadFailed string
| BadStatus int string

text \<open>\<open>io.ReadAll(io.LimitReader(body, n))\<close>: at most \<open>n\<close> bytes; a failure of the body
  is seen only when it comes before the limit.\<close>

definition read_limited :: "nat \<Rightarrow> http_response \<Rightarrow> string + bytes" where
  "read_limited n resp =
     (if n \<le> length (rs_Data resp) then Inr (take n (rs_Data resp))
      else case rs_Fail resp of Some e \<Rightarrow> Inl e | None \<Rightarrow> Inr (rs_Data resp))"

definition ellipsis :: bytes where
  "ellipsis = [char_of (0xE2 :: nat), char_of (0x80 :: nat), char_of (0xA6 :: nat)]"

definition truncate_body :: "bytes \<Rightarrow> nat \<Rightarrow> string" where
  "truncate_body b n = (if length b \<le> n then b else take n b @ ellipsis)"

definition fetch_bundle :: "client \<Rightarrow> http_network \<Rightarrow> client_error + bytes" where
  "fetch_bundle c net =
     (case net_check net (bundleURL c) of
        Some e \<Rightarrow> Inl (BuildFailed e)
      | None \<Rightarrow>
          (case net_do net \<lparr>rq_Method = MethodGet, rq_URL = bundleURL c,
                  rq_Header = [(''Authorization'', ''Bearer '' @ c_Token c),
                               (''Accept'', ''application/json'')], rq_Body = None\<rparr> of
             Inl e \<Rightarrow> Inl (DoFailed e)
           | Inr resp \<Rightarrow>
               (case read_limited maxBundleBytes resp of
                  Inl e \<Rightarrow> Inl (ReadFailed e)
                | Inr body \<Rightarrow>
                    (if rs_Status resp \<noteq> 200
                     then Inl (BadStatus (rs_Status resp) (truncate_body body 200))
                     else Inr body))))"

subsection \<open>Health reports\<close>

record transition =
  tr_TargetKey :: string
  tr_State :: string
  tr_At :: string

text \<open>The slice and the map may be nil.\<close>

record health_report =
  hr_Cluster :: string
  hr_ProtocolVersion :: int
  hr_Transitions :: "transition list option"
  hr_States :: "(string \<rightharpoonup> string) option"

text \<open>\<open>json.Marshal\<close> of a report, as the value written: fields in the order of the struct,
  map keys sorted, nil as null.\<close>

definition marshal_transition :: "transition \<Rightarrow> json" where
  "marshal_transition t = JObj [(''targetKey'', JStr (tr_TargetKey t)), (''state'', JStr (tr_State t)),
     (''at'', JStr (tr_At t))]"

definition marshal_states :: "(string \<rightharpoonup> string) \<Rightarrow> json" where
  "marshal_states m = JObj (map (\<lambda>k. (k, JStr (the (m k)))) (sorted_list_of_set (dom m)))"

definition marshal_report :: "health_report \<Rightarrow> json" where
  "marshal_report r = JObj
     [(''cluster'', JStr (hr_Cluster r)),
      (''protocolVersion'', JNum (itoa (hr_ProtocolVersion r))),
      (''transitions'', case hr_Transitions r of None \<Rightarrow> JNull | Some ts \<Rightarrow> JArr (map marshal_transition ts)),
      (''states'', case hr_States r of None \<Rightarrow> JNull | Some m \<Rightarrow> marshal_states m)]"

definition report_health :: "client \<Rightarrow> http_network \<Rightarrow> health_report \<Rightarrow> client_error option" where
  "report_health c net report =
     (case net_check net (healthURL c) of
        Some e \<Rightarrow> Some (BuildFailed e)
      | None \<Rightarrow>
          (case net_do net \<lparr>rq_Method = MethodPost, rq_URL = healthURL c,
                  rq_Header = [(''Authorization'', ''Bearer '' @ c_Token c),
                               (''Content-Type'', ''application/json'')],
                  rq_Body = Some (marshal_report report)\<rparr> of
             Inl e \<Rightarrow> Some (DoFailed e)
           | Inr resp \<Rightarrow>
               (if rs_Status resp < 200 \<or> 300 \<le> rs_Status resp
                then Some (BadStatus (rs_Status resp) (truncate_body
                       (case read_limited 200 resp of Inl _ \<Rightarrow> rs_Data resp | Inr b \<Rightarrow> b) 200))
                else None)))"

subsection \<open>Reading a query back\<close>

text \<open>\<open>url.QueryUnescape\<close>, as the server applies it to the parameter.\<close>

fun query_unescape :: "string \<Rightarrow> string option" where
  "query_unescape [] = Some []"
| "query_unescape (c # cs) =
     (if c = CHR ''%'' then
        (case cs of
           a # b # rest \<Rightarrow>
             (case (hex_val a, hex_val b) of
                (Some x, Some y) \<Rightarrow> map_option (\<lambda>t. char_of (x * 16 + y) # t) (query_unescape rest)
              | _ \<Rightarrow> None)
         | _ \<Rightarrow> None)
      else map_option (\<lambda>t. (if c = CHR ''+'' then CHR '' '' else c) # t) (query_unescape cs))"

lemma hex_digit_table:
  "list_all (\<lambda>n. hex_val (hex_digit n) = Some n \<and> unreserved (hex_digit n)) [0..<16]"
  by code_simp

lemma hex_val_digit: "n < 16 \<Longrightarrow> hex_val (hex_digit n) = Some n"
  and unreserved_hex_digit: "n < 16 \<Longrightarrow> unreserved (hex_digit n)"
  using hex_digit_table by (auto simp: list_all_iff simp del: upt_Suc upt.simps)

lemma char_div_16: "(of_char c :: nat) div 16 < 16" "(of_char c :: nat) mod 16 < 16"
  using nat_of_char_less_256 [of c] by (simp_all add: div_less_iff_less_mult)

lemma query_unescape_char:
  "query_unescape (escape_char c @ rest) = map_option (\<lambda>t. c # t) (query_unescape rest)"
proof (cases "unreserved c")
  case True
  moreover have "c \<noteq> CHR ''%''" "c \<noteq> CHR ''+''" using True by (auto simp: unreserved_def)
  ultimately show ?thesis by (simp add: escape_char_def)
next
  case False
  show ?thesis
  proof (cases "c = CHR '' ''")
    case True
    then show ?thesis using False by (simp add: escape_char_def)
  next
    case no_space: False
    have "char_of ((of_char c :: nat) div 16 * 16 + of_char c mod 16) = c"
      by simp
    then show ?thesis
      using False no_space char_div_16 [of c] by (simp add: escape_char_def hex_val_digit)
  qed
qed

lemma query_unescape_escape: "query_unescape (query_escape s) = Some s"
  by (induction s) (simp_all add: query_escape_def query_unescape_char)

lemma query_escape_chars:
  "x \<in> set (query_escape s) \<Longrightarrow> unreserved x \<or> x = CHR ''+'' \<or> x = CHR ''%''"
proof -
  have "x \<in> set (escape_char c) \<Longrightarrow> unreserved x \<or> x = CHR ''+'' \<or> x = CHR ''%''" for c
    using unreserved_hex_digit [OF char_div_16(1)] unreserved_hex_digit [OF char_div_16(2)]
    by (auto simp: escape_char_def split: if_splits)
  then show "x \<in> set (query_escape s) \<Longrightarrow> unreserved x \<or> x = CHR ''+'' \<or> x = CHR ''%''"
    by (auto simp: query_escape_def)
qed

definition sample_client :: client where
  "sample_client = new_client ''https://zeus/'' ''z-01'' ''t''"

subsection \<open>Properties\<close>

text \<open>Whatever the cluster is called, the bundle and events URLs carry it as one query
  parameter from which the server reads back exactly that name: no byte of it can end the
  parameter, start another one or a fragment.\<close>

theorem cluster_parameter_roundtrip:
  "\<exists>param. bundleURL c = c_BaseURL c @ ''/api/global-endpoints/bundle?cluster='' @ param \<and>
     eventsURL c = c_BaseURL c @ ''/api/global-endpoints/events?cluster='' @ param \<and>
     query_unescape param = Some (c_Cluster c) \<and>
     set param \<inter> set ''&;=# ?/'' = {}"
proof -
  have "set (query_escape (c_Cluster c)) \<inter> set ''&;=# ?/'' = {}"
    using query_escape_chars [of _ "c_Cluster c"] by (force simp: unreserved_def)
  then show ?thesis
    by (intro exI [of _ "query_escape (c_Cluster c)"])
      (simp add: bundleURL_def eventsURL_def query_unescape_escape)
qed

text \<open>A fetch succeeds exactly on a 200 response whose body was read, and returns at most
  sixteen MiB of it: a longer body is cut there without an error, even one that fails later.
  The text of a bad status is bounded by 203 bytes.\<close>

theorem fetch_bundle_contract:
  "(fetch_bundle c net = Inr body \<longleftrightarrow>
     net_check net (bundleURL c) = None \<and>
     (\<exists>resp. net_do net \<lparr>rq_Method = MethodGet, rq_URL = bundleURL c,
          rq_Header = [(''Authorization'', ''Bearer '' @ c_Token c),
                       (''Accept'', ''application/json'')], rq_Body = None\<rparr> = Inr resp \<and>
        rs_Status resp = 200 \<and> body = take (16 * 2 ^ 20) (rs_Data resp) \<and>
        (16 * 2 ^ 20 \<le> length (rs_Data resp) \<or> rs_Fail resp = None))) \<and>
   (case fetch_bundle c net of Inl (BadStatus st txt) \<Rightarrow> st \<noteq> 200 \<and> length txt \<le> 203 | _ \<Rightarrow> True)"
  by (auto simp: fetch_bundle_def read_limited_def maxBundleBytes_def truncate_body_def ellipsis_def
      split: option.splits sum.splits if_splits)

text \<open>A health report is accepted exactly when its single POST gets a 2xx response.\<close>

theorem report_accepted_iff_2xx:
  "report_health c net report = None \<longleftrightarrow>
     net_check net (healthURL c) = None \<and>
     (\<exists>resp. net_do net \<lparr>rq_Method = MethodPost, rq_URL = c_BaseURL c @ ''/api/global-endpoints/health'',
          rq_Header = [(''Authorization'', ''Bearer '' @ c_Token c),
                       (''Content-Type'', ''application/json'')],
          rq_Body = Some (marshal_report report)\<rparr> = Inr resp \<and>
        rs_Status resp div 100 = 2)"
  by (auto simp: report_health_def healthURL_def split: option.splits sum.splits if_splits)

end
