(* ===== verification/Sse.thy ===== *)
theory Sse
  imports Client
begin

text \<open>
  The event stream of \<^verbatim>\<open>internal/remote/sse.go\<close>. The scanner goroutine hands over one
  line at a time, so the loop of \<open>Subscribe\<close> sees a sequence of lines with the instants at
  which they arrive, ended by the end of the stream, by a cancelled context or by silence. Each
  line carries the environment \<open>'e\<close> in which a dispatch at that line would run;
  \<open>on_event\<close> is the callback with the caller's state threaded through, and \<open>took\<close> how
  long it blocks the loop. An input that arrives meanwhile waits, while the idle timer, rearmed
  before the callback, goes on running. Where an input and the timer are both ready Go's
  \<open>select\<close> may take either: the flag of the input says whether it is preferred.
\<close>

subsection \<open>Lines\<close>

text \<open>\<open>bufio.ScanLines\<close> with the buffer limit of the code: a line is cut at a newline,
  a carriage return before it is dropped, an unterminated rest is a last line unless empty, and
  a line that fills the buffer ends the scan with an error.\<close>

definition max_line :: nat where "max_line = 2 ^ 20"

definition drop_cr :: "bytes \<Rightarrow> bytes" where
  "drop_cr s = (if s \<noteq> [] \<and> last s = CHR 0x0D then butlast s else s)"

fun split_lines :: "bytes \<Rightarrow> bytes \<Rightarrow> bytes list" where
  "split_lines cur [] = (if cur = [] then [] else [rev cur])"
| "split_lines cur (c # cs) =
     (if c = CHR 0x0A then rev cur # split_lines [] cs else split_lines (c # cur) cs)"

datatype read_end = ReadEOF | ReadTooLong

fun take_lines :: "bytes list \<Rightarrow> string list \<times> read_end" where
  "take_lines [] = ([], ReadEOF)"
| "take_lines (l # ls) =
     (if max_line \<le> length l then ([], ReadTooLong)
      else (case take_lines ls of (out, e) \<Rightarrow> (drop_cr l # out, e)))"

definition scan_lines :: "bytes \<Rightarrow> string list \<times> read_end" where
  "scan_lines body = take_lines (split_lines [] body)"

subsection \<open>The loop\<close>

datatype 'e sse_input = SseLine string 'e | SseReadErr | SseCtxDone

datatype sse_end = EndIdle go_time | EndClosed | EndCancelled

text \<open>One line: whether an event field was seen since the last blank line, and the dispatch.\<close>

definition sse_line :: "('e \<Rightarrow> 's \<Rightarrow> 's) \<Rightarrow> string \<Rightarrow> 'e \<Rightarrow> bool \<times> 's \<Rightarrow> bool \<times> 's" where
  "sse_line on_event line env st =
     (case st of (saw, s) \<Rightarrow>
        if line = [] then (if saw then (False, on_event env s) else (saw, s))
        else if has_prefix line '':'' then (saw, s)
        else if has_prefix line ''event:'' \<or> has_prefix line ''data:'' then (True, s)
        else (saw, s))"

definition dispatches :: "string \<Rightarrow> bool \<Rightarrow> bool" where
  "dispatches line saw \<longleftrightarrow> line = [] \<and> saw"

text \<open>\<open>armed\<close> is when the idle timer was last reset, \<open>free\<close> when the loop is back at
  its select.\<close>

fun subscribe_loop ::
  "('e \<Rightarrow> 's \<Rightarrow> 's) \<Rightarrow> ('e \<Rightarrow> duration) \<Rightarrow> duration \<Rightarrow> go_time \<Rightarrow> go_time \<Rightarrow>
     (go_time \<times> bool \<times> 'e sse_input) list \<Rightarrow> bool \<times> 's \<Rightarrow> 's \<times> sse_end"
where
  "subscribe_loop on_event took idleTimeout armed free [] st =
     (snd st, EndIdle (max free (armed + idleTimeout)))"
| "subscribe_loop on_event took idleTimeout armed free ((t, preferred, inp) # inps) st =
     (let now = max free t; expiry = max free (armed + idleTimeout) in
      if expiry < now \<or> expiry = now \<and> \<not> preferred then (snd st, EndIdle expiry)
      else case inp of
        SseLine line env \<Rightarrow>
          subscribe_loop on_event took idleTimeout now (if dispatches line (fst st) then now + took env else now)
            inps (sse_line on_event line env st)
      | SseReadErr \<Rightarrow> (snd st, EndClosed)
      | SseCtxDone \<Rightarrow> (snd st, EndCancelled))"

text \<open>The connection attempt before the loop: what the network makes of a URL and of a request.
  \<open>conn_at\<close> is when the response headers arrived, the instant at which the idle timer is
  armed.\<close>

record 'e connection =
  conn_cancelled :: bool
  conn_result :: "string + int"
  conn_at :: go_time
  conn_body :: "bytes"
  conn_inputs :: "(go_time \<times> bool \<times> 'e sse_input) list"

record 'e stream_net =
  sn_check :: "string \<Rightarrow> string option"
  sn_open :: "http_request \<Rightarrow> 'e connection"

datatype subscribe_error =
  SubBuild string
| SubCancelled
| SubConnect string
| SubStatus int string
| SubEnd sse_end

definition events_request :: "client \<Rightarrow> http_request" where
  "events_request c = \<lparr>rq_Method = MethodGet, rq_URL = eventsURL c,
     rq_Header = [(''Authorization'', ''Bearer '' @ c_Token c), (''Accept'', ''text/event-stream'')],
     rq_Body = None\<rparr>"

definition subscribe ::
  "client \<Rightarrow> ('e \<Rightarrow> 's \<Rightarrow> 's) \<Rightarrow> ('e \<Rightarrow> duration) \<Rightarrow> duration \<Rightarrow> 'e stream_net \<Rightarrow> 's \<Rightarrow>
     's \<times> subscribe_error"
where
  "subscribe c on_event took idleTimeout net s =
     (case sn_check net (eventsURL c) of
        Some e \<Rightarrow> (s, SubBuild e)
      | None \<Rightarrow>
          (let conn = sn_open net (events_request c) in
           case conn_result conn of
             Inl e \<Rightarrow> (s, if conn_cancelled conn then SubCancelled else SubConnect e)
           | Inr status \<Rightarrow>
               (if status \<noteq> 200 then (s, SubStatus status (truncate_body (take 200 (conn_body conn)) 200))
                else map_prod id SubEnd
                  (subscribe_loop on_event took idleTimeout (conn_at conn) (conn_at conn) (conn_inputs conn)
                     (False, s)))))"

subsection \<open>Blocks\<close>

text \<open>
  The specification: the lines before each blank line form a block, and a block is an event when
  one of its lines is an event or data field. An unfinished last block is none.
\<close>

fun blocks :: "(string \<times> 'e) list \<Rightarrow> (string \<times> 'e) list \<Rightarrow> (string list \<times> 'e) list" where
  "blocks cur [] = []"
| "blocks cur ((line, env) # ls) =
     (if line = [] then (map fst (rev cur), env) # blocks [] ls
      else blocks ((line, env) # cur) ls)"

definition is_event_block :: "string list \<Rightarrow> bool" where
  "is_event_block ls \<longleftrightarrow> (\<exists>l \<in> set ls. has_prefix l ''event:'' \<or> has_prefix l ''data:'')"

fun dispatch :: "('e \<Rightarrow> 's \<Rightarrow> 's) \<Rightarrow> (string list \<times> 'e) list \<Rightarrow> 's \<Rightarrow> 's" where
  "dispatch on_event [] s = s"
| "dispatch on_event ((ls, env) # bs) s =
     dispatch on_event bs (if is_event_block ls then on_event env s else s)"

text \<open>Lines that keep coming less than the idle timeout apart, and the instant of the last.\<close>

fun steady :: "duration \<Rightarrow> go_time \<Rightarrow> (go_time \<times> bool \<times> string \<times> 'e) list \<Rightarrow> bool" where
  "steady idle prev [] = True"
| "steady idle prev ((t, _) # ls) \<longleftrightarrow> prev \<le> t \<and> t < prev + idle \<and> steady idle t ls"

definition line_inputs :: "(go_time \<times> bool \<times> string \<times> 'e) list \<Rightarrow> (go_time \<times> bool \<times> 'e sse_input) list" where
  "line_inputs ls = map (\<lambda>(t, preferred, line, env). (t, preferred, SseLine line env)) ls"

definition stream_lines :: "(go_time \<times> bool \<times> string \<times> 'e) list \<Rightarrow> (string \<times> 'e) list" where
  "stream_lines ls = map (\<lambda>(t, preferred, le). le) ls"

definition last_time :: "go_time \<Rightarrow> (go_time \<times> bool \<times> string \<times> 'e) list \<Rightarrow> go_time" where
  "last_time start ls = (if ls = [] then start else fst (last ls))"

text \<open>The time all callbacks of a stream can take together.\<close>

definition total_took :: "('e \<Rightarrow> duration) \<Rightarrow> (go_time \<times> bool \<times> string \<times> 'e) list \<Rightarrow> duration" where
  "total_took took ls = sum_list (map (\<lambda>(t, preferred, line, env). took env) ls)"

lemma stream_simps [simp]:
  "line_inputs [] = []"
  "line_inputs ((t, preferred, line, env) # ls) = (t, preferred, SseLine line env) # line_inputs ls"
  "stream_lines [] = []"
  "stream_lines ((t, preferred, line, env) # ls) = (line, env) # stream_lines ls"
  "last_time start [] = start"
  "last_time start ((t, preferred, line, env) # ls) = last_time t ls"
  "total_took took [] = 0"
  "total_took took ((t, preferred, line, env) # ls) = took env + total_took took ls"
  by (simp_all add: line_inputs_def stream_lines_def last_time_def total_took_def)

lemma has_prefix_colon_no_event:
  "has_prefix l '':'' \<Longrightarrow> \<not> has_prefix l ''event:'' \<and> \<not> has_prefix l ''data:''"
  by (cases l) (auto simp: has_prefix_def)

lemma is_event_block_simps [simp]:
  "\<not> is_event_block []"
  "is_event_block (l # ls) \<longleftrightarrow> has_prefix l ''event:'' \<or> has_prefix l ''data:'' \<or> is_event_block ls"
  "is_event_block (ls @ ls') \<longleftrightarrow> is_event_block ls \<or> is_event_block ls'"
  "is_event_block (rev ls) \<longleftrightarrow> is_event_block ls"
  by (auto simp: is_event_block_def)

lemma fold_lines_blocks:
  "saw = is_event_block (map fst (rev cur)) \<Longrightarrow>
   snd (foldl (\<lambda>st (line, env). sse_line on_event line env st) (saw, s) ls) =
     dispatch on_event (blocks cur ls) s"
proof (induction ls arbitrary: cur saw s)
  case (Cons l ls)
  obtain line env where l: "l = (line, env)" by (cases l)
  show ?case
    using Cons.IH [of False "[]"] Cons.IH [of True "(line, env) # cur"]
      Cons.IH [of saw "(line, env) # cur"] Cons.prems has_prefix_colon_no_event [of line]
    by (auto simp: l sse_line_def rev_map [symmetric])
qed simp

text \<open>Callbacks that return before the idle timeout cost no line: each is taken once the loop is
  free, and how late that can be is bounded by the time the callbacks took.\<close>

lemma subscribe_loop_steady:
  assumes "\<And>env. 0 \<le> took env \<and> took env < idle" and "steady idle prev ls"
    and "prev \<le> armed" and "armed \<le> free" and "free < armed + idle" and "free \<le> prev + slack"
    and "0 \<le> slack"
  shows "\<exists>armed' free'. last_time prev ls \<le> armed' \<and> armed' \<le> free' \<and> free' < armed' + idle \<and>
    free' \<le> last_time prev ls + slack + total_took took ls \<and>
    subscribe_loop on_event took idle armed free (line_inputs ls @ rest) st =
      subscribe_loop on_event took idle armed' free' rest
        (foldl (\<lambda>st (line, env). sse_line on_event line env st) st (stream_lines ls))"
  using assms(2-)
proof (induction ls arbitrary: prev armed free slack st)
  case Nil
  then show ?case
    by (intro exI [of _ armed] exI [of _ free])
      simp
next
  case (Cons l ls)
  obtain t preferred line env where l: "l = (t, preferred, line, env)" by (metis prod_cases4)
  have t: "prev \<le> t" "t < prev + idle" "steady idle t ls" using Cons.prems(1) by (simp_all add: l)
  let ?now = "max free t"
  let ?free = "if dispatches line (fst st) then ?now + took env else ?now"
  have now: "?now < max free (armed + idle)" using t Cons.prems by simp
  have free: "?now \<le> ?free" "?free < ?now + idle" "?free \<le> t + (slack + took env)"
    using assms(1) [of env] Cons.prems(5,6) t(1) by auto
  have tn: "t \<le> ?now" and sl: "0 \<le> slack + took env"
    using Cons.prems(6) assms(1) [of env] by simp_all
  obtain armed' free' where "last_time t ls \<le> armed'" "armed' \<le> free'" "free' < armed' + idle"
    "free' \<le> last_time t ls + (slack + took env) + total_took took ls"
    "subscribe_loop on_event took idle ?now ?free (line_inputs ls @ rest) (sse_line on_event line env st) =
      subscribe_loop on_event took idle armed' free' rest
        (foldl (\<lambda>st (line, env). sse_line on_event line env st) (sse_line on_event line env st) (stream_lines ls))"
    using Cons.IH [OF t(3) tn free sl, of "sse_line on_event line env st"] by blast
  moreover have "subscribe_loop on_event took idle armed free (line_inputs (l # ls) @ rest) st =
      subscribe_loop on_event took idle ?now ?free (line_inputs ls @ rest) (sse_line on_event line env st)"
  proof -
    have "\<not> (max free (armed + idle) < ?now \<or> max free (armed + idle) = ?now \<and> \<not> preferred)"
      using now by auto
    then show ?thesis by (simp only: l stream_simps append_Cons subscribe_loop.simps Let_def if_False sse_input.case)
  qed
  ultimately show ?case
    by (intro exI [of _ armed'] exI [of _ free']) (simp add: l)
qed

subsection \<open>Properties\<close>

text \<open>C26. While lines keep coming within the idle timeout and callbacks return within it, the
  callback runs exactly once per finished block that holds an event or data field, at its blank
  line: keepalive comments, other fields and an unfinished last block never dispatch, and no line is
  lost to a callback that blocks the loop. When silence follows, the stream is given up, not before
  one idle timeout after the last line and later than that at most by what the callbacks took.\<close>

theorem subscribe_dispatches_event_blocks:
  assumes "sn_check net (eventsURL c) = None" and "sn_open net (events_request c) = conn"
    and "conn_result conn = Inr 200" and "\<And>env. 0 \<le> took env \<and> took env < idle"
    and "conn_inputs conn = line_inputs ls @ rest" and "steady idle (conn_at conn) ls"
    and "rest = [] \<or> (\<exists>t x more. rest = (t, x) # more \<and>
      last_time (conn_at conn) ls + idle + total_took took ls < t)"
  shows "\<exists>gone. subscribe c on_event took idle net s =
      (dispatch on_event (blocks [] (stream_lines ls)) s, SubEnd (EndIdle gone)) \<and>
    last_time (conn_at conn) ls + idle \<le> gone \<and>
    gone \<le> last_time (conn_at conn) ls + idle + total_took took ls"
proof -
  have idle: "0 < idle" using assms(4) by (meson le_less_trans)
  obtain armed free where
    af: "last_time (conn_at conn) ls \<le> armed" "armed \<le> free" "free < armed + idle"
      "free \<le> last_time (conn_at conn) ls + total_took took ls"
    and loop: "subscribe_loop on_event took idle (conn_at conn) (conn_at conn) (line_inputs ls @ rest) (False, s) =
      subscribe_loop on_event took idle armed free rest
        (foldl (\<lambda>st (line, env). sse_line on_event line env st) (False, s) (stream_lines ls))"
    using subscribe_loop_steady [of took idle "conn_at conn" ls "conn_at conn" "conn_at conn" 0 on_event rest
        "(False, s)", OF assms(4,6)] idle by auto
  have expiry: "max free (armed + idle) = armed + idle" using af(3) by simp
  have late: "armed + idle < t" if "last_time (conn_at conn) ls + idle + total_took took ls < t" for t
    using that af by linarith
  have "subscribe_loop on_event took idle armed free rest st = (snd st, EndIdle (armed + idle))" for st
  proof (cases rest)
    case Nil
    then show ?thesis by (simp add: expiry)
  next
    case (Cons i more)
    then obtain t x where "rest = (t, x) # more" "armed + idle < t" using assms(7) late by auto
    then show ?thesis using expiry by (cases x) (simp add: Let_def less_max_iff_disj)
  qed
  then have "subscribe c on_event took idle net s =
      (dispatch on_event (blocks [] (stream_lines ls)) s, SubEnd (EndIdle (armed + idle)))"
    using assms(1-3,5) fold_lines_blocks [of False "[]" on_event s "stream_lines ls"]
    by (simp add: subscribe_def loop)
  then show ?thesis using af by (intro exI [of _ "armed + idle"]) auto
qed

text \<open>The bytes of a stream with a keepalive, an event, and an unfinished one.\<close>

definition sample_stream :: bytes where
  "sample_stream = '': ping'' @ [CHR 0x0A, CHR 0x0A] @ ''event: x'' @ [CHR 0x0D, CHR 0x0A, CHR 0x0D, CHR 0x0A]
     @ ''data: y'' @ [CHR 0x0A]"

lemma sample_stream_lines:
  "scan_lines sample_stream = ([ '': ping'', [], ''event: x'', [], ''data: y''], ReadEOF)"
  by (simp add: scan_lines_def sample_stream_def max_line_def drop_cr_def)

theorem subscribe_dispatches_event_blocks_witness:
  "\<exists>gone. subscribe sample_client (\<lambda>_ n. n + 1) (\<lambda>_. 3) 45 \<lparr>sn_check = (\<lambda>_. None), sn_open = (\<lambda>_.
     \<lparr>conn_cancelled = False, conn_result = Inr 200, conn_at = 0, conn_body = [],
      conn_inputs = line_inputs (map (\<lambda>l. (40, True, l, ())) (fst (scan_lines sample_stream)))\<rparr>)\<rparr> (0 :: int)
   = (1, SubEnd (EndIdle gone)) \<and> 85 \<le> gone \<and> gone \<le> 100"
proof -
  let ?ls = "map (\<lambda>l. (40 :: int, True, l, ())) (fst (scan_lines sample_stream))"
  let ?conn = "\<lparr>conn_cancelled = False, conn_result = Inr 200, conn_at = 0,
    conn_body = [], conn_inputs = line_inputs ?ls\<rparr>"
  have "\<exists>gone. subscribe sample_client (\<lambda>_ n. n + 1) (\<lambda>_. 3) 45 \<lparr>sn_check = (\<lambda>_. None), sn_open = (\<lambda>_. ?conn)\<rparr> (0 :: int) =
      (dispatch (\<lambda>_ n. n + 1) (blocks [] (stream_lines ?ls)) 0, SubEnd (EndIdle gone)) \<and>
      last_time (conn_at ?conn) ?ls + 45 \<le> gone \<and>
      gone \<le> last_time (conn_at ?conn) ?ls + 45 + total_took (\<lambda>_. 3) ?ls"
    by (rule subscribe_dispatches_event_blocks [where rest = "[]"]) (simp_all add: sample_stream_lines)
  then show ?thesis
    by (simp add: sample_stream_lines last_time_def stream_lines_def total_took_def has_prefix_def)
qed

text \<open>Scanning splits the bytes at newlines and loses nothing: when every line is below one
  MiB and none ends in a carriage return, joining the lines again gives the bytes back, so an
  event is dispatched however the network cut it.\<close>

theorem scan_lines_roundtrip:
  assumes "list_all (\<lambda>l. CHR 0x0A \<notin> set l \<and> length l < 2 ^ 20 \<and> (l = [] \<or> last l \<noteq> CHR 0x0D)) ls"
  shows "scan_lines (concat (map (\<lambda>l. l @ [CHR 0x0A]) ls)) = (ls, ReadEOF)"
proof -
  have line: "split_lines cur (l @ CHR 0x0A # rest) = (rev cur @ l) # split_lines [] rest"
    if "CHR 0x0A \<notin> set l" for cur l rest
    using that by (induction l arbitrary: cur) auto
  have "split_lines [] (concat (map (\<lambda>l. l @ [CHR 0x0A]) ls)) = ls"
    using assms by (induction ls) (auto simp: line)
  moreover have "take_lines ls = (ls, ReadEOF)"
    using assms by (induction ls) (auto simp: max_line_def drop_cr_def)
  ultimately show ?thesis by (simp add: scan_lines_def)
qed

theorem scan_lines_roundtrip_witness:
  "scan_lines (''data: y'' @ [CHR 0x0A, CHR 0x0A]) = ([''data: y'', []], ReadEOF)"
  using scan_lines_roundtrip [of "[''data: y'', []]"] by simp

end
