(* ===== verification/RemoteRunner.thy ===== *)
theory RemoteRunner
  imports Sse Store
begin

text \<open>
  The fetch loop of \<^verbatim>\<open>internal/remote/runner.go\<close>: subscribe, refetch on events, and while
  the stream is down poll until the reconnect delay is over. A refetch environment holds the
  network as one \<open>FetchBundle\<close> meets it, the clock, the outcomes of the cache write, and how
  long the refetch takes. Times in \<open>pollUntil\<close> count from its start. Where several cases of
  its select are ready Go takes any of them, so the choice is an argument. The polls are those the
  environment grants; when it grants no more the loop is left waiting. A ticker with an interval
  that is not positive panics, which is the result \<open>None\<close>.
\<close>

record refetch_env =
  re_net :: http_network
  re_save :: save_outcome
  re_now :: go_time
  re_took :: duration

type_synonym world = "fs \<times> store"

definition refetch_and_apply :: "client \<Rightarrow> refetch_env \<Rightarrow> world \<Rightarrow> world" where
  "refetch_and_apply c env w =
     (case fetch_bundle c (re_net env) of
        Inl e \<Rightarrow> w
      | Inr raw \<Rightarrow> fst (apply_if_changed (re_save env) (re_now env) raw w))"

record poll_env =
  pe_polls :: "refetch_env list"
  pe_pick :: "nat \<Rightarrow> nat"
  pe_cancel :: "duration option"

datatype poll_case = CaseDone | CaseDeadline | CaseTick

datatype poll_end = PollStopped duration | PollOver duration | PollWaiting

text \<open>
  The cases of the select that are ready at an instant. The ticker fires at every multiple of the
  interval into a channel of one slot, so at most one tick waits, and those that find the slot taken
  are dropped: after a tick was received in the \<open>j\<close>-th interval, the next one to receive is
  that of the end of this interval.
\<close>

definition ready_cases :: "duration \<Rightarrow> duration \<Rightarrow> duration option \<Rightarrow> int \<Rightarrow> duration \<Rightarrow> poll_case list" where
  "ready_cases interval deadline cancel j now =
     (case cancel of None \<Rightarrow> [] | Some t \<Rightarrow> if t \<le> now then [CaseDone] else []) @
     (if deadline \<le> now then [CaseDeadline] else []) @
     (if (j + 1) * interval \<le> now then [CaseTick] else [])"

text \<open>The select blocks until its first case is ready.\<close>

definition wake_at :: "duration \<Rightarrow> duration \<Rightarrow> duration option \<Rightarrow> int \<Rightarrow> duration \<Rightarrow> duration" where
  "wake_at interval deadline cancel j now =
     (let timers = min deadline ((j + 1) * interval) in
      max now (case cancel of None \<Rightarrow> timers | Some t \<Rightarrow> min t timers))"

definition pick_case :: "nat \<Rightarrow> poll_case list \<Rightarrow> poll_case" where
  "pick_case n cases = cases ! (n mod length cases)"

text \<open>The select loop: the number of polls made so far, the interval of the last tick received, the
  time, and the polls to come.\<close>

fun poll_loop ::
  "client \<Rightarrow> duration \<Rightarrow> duration \<Rightarrow> poll_env \<Rightarrow> nat \<Rightarrow> int \<Rightarrow> duration \<Rightarrow> refetch_env list \<Rightarrow> world \<Rightarrow>
     world \<times> nat \<times> poll_end"
where
  "poll_loop c interval deadline env k j now polls w =
     (let wake = wake_at interval deadline (pe_cancel env) j now in
      case pick_case (pe_pick env k) (ready_cases interval deadline (pe_cancel env) j wake) of
        CaseDone \<Rightarrow> (w, k, PollStopped wake)
      | CaseDeadline \<Rightarrow> (w, k, PollOver wake)
      | CaseTick \<Rightarrow>
          (case polls of
             [] \<Rightarrow> (w, k, PollWaiting)
           | p # ps \<Rightarrow>
               poll_loop c interval deadline env (Suc k) (wake div interval) (wake + re_took p) ps
                 (refetch_and_apply c p w)))"

declare poll_loop.simps [simp del]

text \<open>\<open>pollUntil\<close>, with the number of polls made and how it ended. A delay that is not positive
  arms a timer that fires at once.\<close>

definition poll_until ::
  "client \<Rightarrow> duration \<Rightarrow> poll_env \<Rightarrow> duration \<Rightarrow> world \<Rightarrow> (world \<times> nat \<times> poll_end) option" where
  "poll_until c interval env d w =
     (if interval \<le> 0 then None
      else
        (let deadline = (if d > 0 then d else 0) in
         Some (poll_loop c interval deadline env 0 0 0 (pe_polls env) w)))"

subsection \<open>The run loop\<close>

record remote_runner =
  ru_Client :: client
  ru_IdleTimeout :: duration
  ru_PollInterval :: duration
  ru_Backoff :: "(int \<Rightarrow> duration) option"

text \<open>One turn: the stream, whether the context is done when it ends, and the poll phase.\<close>

record turn =
  tu_stream :: "refetch_env stream_net"
  tu_done :: bool
  tu_poll :: poll_env

definition turn_wait :: "remote_runner \<Rightarrow> int \<Rightarrow> duration" where
  "turn_wait r attempt = (case ru_Backoff r of None \<Rightarrow> 0 | Some f \<Rightarrow> f attempt)"

text \<open>\<open>Run\<close> on the turns the environment grants; the waits are logged as the code logs
  them. The loop ends when the context is done at the end of a stream or of a poll phase.
  \<open>None\<close> is the ticker's panic.\<close>

fun run_turns :: "remote_runner \<Rightarrow> turn list \<Rightarrow> int \<Rightarrow> duration list \<Rightarrow> world \<Rightarrow> (world \<times> duration list) option" where
  "run_turns r [] attempt waits w = Some (w, waits)"
| "run_turns r (tu # tus) attempt waits w =
     (case subscribe (ru_Client r) (refetch_and_apply (ru_Client r)) re_took (ru_IdleTimeout r) (tu_stream tu) w of
        (w', err) \<Rightarrow>
          (if tu_done tu then Some (w', waits)
           else
             (let attempt' = attempt + 1; wait = turn_wait r attempt' in
              case poll_until (ru_Client r) (ru_PollInterval r) (tu_poll tu) wait w' of
                None \<Rightarrow> None
              | Some (w'', polls, PollOver t) \<Rightarrow> run_turns r tus attempt' (waits @ [wait]) w''
              | Some (w'', polls, _) \<Rightarrow> Some (w'', waits @ [wait]))))"

definition remote_run :: "remote_runner \<Rightarrow> turn list \<Rightarrow> world \<Rightarrow> (world \<times> duration list) option" where
  "remote_run r tus w = run_turns r tus 0 [] w"

text \<open>The runner as \<open>main\<close> builds it.\<close>

definition main_runner :: "client \<Rightarrow> remote_runner" where
  "main_runner c = \<lparr>ru_Client = c, ru_IdleTimeout = subscribeIdleTimeout,
     ru_PollInterval = pollFallbackInterval,
     ru_Backoff = Some (exponential_backoff reconnectBackoffBase reconnectBackoffCeil)\<rparr>"

subsection \<open>Refetching keeps the store\<close>

text \<open>What a fetch can deliver: the bytes of a successful \<open>FetchBundle\<close>.\<close>

definition fetched :: "client \<Rightarrow> refetch_env \<Rightarrow> decision_bundle \<Rightarrow> bool" where
  "fetched c env b \<longleftrightarrow> (\<exists>raw. fetch_bundle c (re_net env) = Inr raw \<and> parse_and_validate raw = Inr b)"

lemma refetch_inv [comp_inv]: "world_inv w \<Longrightarrow> world_inv (refetch_and_apply c env w)"
  by (auto simp: refetch_and_apply_def ws.apply_inv split: sum.splits)

lemma refetch_current:
  "world_current (refetch_and_apply c env w) = world_current w \<or>
   (\<exists>b. fetched c env b \<and> world_current (refetch_and_apply c env w) = Some b)"
  using ws.apply_current [of "re_save env" "re_now env" _ w]
  by (auto simp: refetch_and_apply_def fetched_def split: sum.splits)

text \<open>The environments in which a turn can refetch: those of its stream's lines and of its
  poll ticks. A property of worlds kept by refetching in each of them is kept by the turn.\<close>

definition line_envs :: "(go_time \<times> bool \<times> 'e sse_input) list \<Rightarrow> 'e set" where
  "line_envs inps = {env. \<exists>t preferred line. (t, preferred, SseLine line env) \<in> set inps}"

definition turn_envs :: "client \<Rightarrow> turn \<Rightarrow> refetch_env set" where
  "turn_envs c tu =
     line_envs (conn_inputs (sn_open (tu_stream tu) (events_request c))) \<union> set (pe_polls (tu_poll tu))"

lemma line_envs_Cons [simp]:
  "line_envs ((t, preferred, SseLine line env) # inps) = insert env (line_envs inps)"
  "line_envs ((t, preferred, SseReadErr) # inps) = line_envs inps"
  "line_envs ((t, preferred, SseCtxDone) # inps) = line_envs inps"
  by (auto simp: line_envs_def)

lemma subscribe_loop_keeps:
  assumes "\<And>env w. env \<in> line_envs inps \<Longrightarrow> P w \<Longrightarrow> P (on_event env w)" and "P (snd st)"
  shows "P (fst (subscribe_loop on_event took idle armed free inps st))"
  using assms
proof (induction inps arbitrary: armed free st)
  case (Cons x inps)
  obtain t preferred inp where x: "x = (t, preferred, inp)" by (metis prod_cases3)
  show ?case
  proof (cases inp)
    case (SseLine line env)
    have "P (snd (sse_line on_event line env st))"
      using Cons.prems by (cases st) (auto simp: x SseLine sse_line_def)
    then show ?thesis
      using Cons.IH [of "sse_line on_event line env st"] Cons.prems by (simp add: x SseLine Let_def)
  qed (use Cons in \<open>simp_all add: x Let_def\<close>)
qed simp

lemma subscribe_keeps:
  assumes "\<And>env w. env \<in> line_envs (conn_inputs (sn_open net (events_request c))) \<Longrightarrow> P w \<Longrightarrow>
      P (on_event env w)" and "P w"
  shows "P (fst (subscribe c on_event took idle net w))"
  using assms(2) subscribe_loop_keeps
    [of "conn_inputs (sn_open net (events_request c))" P on_event "(False, w)", OF assms(1)]
  by (auto simp: subscribe_def Let_def split: option.splits sum.splits)

lemma poll_loop_keeps:
  assumes "\<And>p w. p \<in> set polls \<Longrightarrow> P w \<Longrightarrow> P (refetch_and_apply c p w)" and "P w"
  shows "P (fst (poll_loop c interval deadline env k j now polls w))"
  using assms
proof (induction polls arbitrary: k j now w)
  case Nil
  then show ?case by (subst poll_loop.simps) (simp add: Let_def split: poll_case.splits)
next
  case (Cons p polls)
  then show ?case by (subst poll_loop.simps) (simp add: Let_def split: poll_case.splits)
qed

lemma poll_until_keeps:
  assumes "\<And>p w. p \<in> set (pe_polls env) \<Longrightarrow> P w \<Longrightarrow> P (refetch_and_apply c p w)" and "P w"
    and "poll_until c interval env d w = Some (w', n, e)"
  shows "P w'"
proof -
  have "poll_loop c interval (if d > 0 then d else 0) env 0 0 0 (pe_polls env) w = (w', n, e)"
    using assms(3) by (simp add: poll_until_def Let_def split: if_splits)
  with poll_loop_keeps [of "pe_polls env" P c, OF assms(1,2)] show ?thesis by (metis fst_conv)
qed

lemma run_turns_keeps:
  assumes "\<And>tu env w. tu \<in> set tus \<Longrightarrow> env \<in> turn_envs (ru_Client r) tu \<Longrightarrow> P w \<Longrightarrow>
      P (refetch_and_apply (ru_Client r) env w)"
    and "P w" and "run_turns r tus attempt waits w = Some (w', ws)"
  shows "P w'"
  using assms
proof (induction tus arbitrary: attempt waits w)
  case (Cons tu tus)
  obtain w1 err where sub: "subscribe (ru_Client r) (refetch_and_apply (ru_Client r)) re_took (ru_IdleTimeout r)
      (tu_stream tu) w = (w1, err)" by (rule prod.exhaust)
  have "P (fst (subscribe (ru_Client r) (refetch_and_apply (ru_Client r)) re_took (ru_IdleTimeout r) (tu_stream tu) w))"
    using Cons.prems(1) [of tu]
    by (rule subscribe_keeps [of "tu_stream tu" "ru_Client r" P, OF _ Cons.prems(2)]) (simp_all add: turn_envs_def)
  then have P1: "P w1" by (simp add: sub)
  show ?case
  proof (cases "tu_done tu")
    case True
    then show ?thesis using Cons.prems P1 sub by simp
  next
    case False
    then obtain w2 polls e where
      poll: "poll_until (ru_Client r) (ru_PollInterval r) (tu_poll tu) (turn_wait r (attempt + 1)) w1 =
        Some (w2, polls, e)"
      and rest: "(\<exists>t. e = PollOver t \<and>
          run_turns r tus (attempt + 1) (waits @ [turn_wait r (attempt + 1)]) w2 = Some (w', ws)) \<or> w' = w2"
      using Cons.prems(3) sub by (auto simp: Let_def split: option.splits poll_end.splits)
    have P2: "P w2"
      using Cons.prems(1) [of tu]
      by (rule poll_until_keeps [of "tu_poll tu" P, OF _ P1 poll]) (simp_all add: turn_envs_def)
    have "P w'" if "run_turns r tus (attempt + 1) (waits @ [turn_wait r (attempt + 1)]) w2 = Some (w', ws)"
      by (rule Cons.IH [OF _ P2 that]) (rule Cons.prems(1), auto)
    with rest P2 show ?thesis by blast
  qed
qed simp

subsection \<open>How often it polls\<close>

lemma select_before_deadline:
  assumes "now < (j + 1) * interval" and "deadline < (j + 1) * interval"
  shows "wake_at interval deadline None j now = max now deadline"
    and "ready_cases interval deadline None j (max now deadline) = [CaseDeadline]"
  using assms by (simp_all add: wake_at_def ready_cases_def Let_def min_def max_def)

lemma select_at_tick:
  assumes "now < (j + 1) * interval" and "(j + 1) * interval \<le> deadline"
  shows "wake_at interval deadline None j now = (j + 1) * interval"
    and "ready_cases interval deadline None j ((j + 1) * interval) =
      (if deadline = (j + 1) * interval then [CaseDeadline, CaseTick] else [CaseTick])"
  using assms by (simp_all add: wake_at_def ready_cases_def Let_def min_def max_def)

lemma pick_case_in: "xs \<noteq> [] \<Longrightarrow> pick_case n xs \<in> set xs"
  by (simp add: pick_case_def)

lemma poll_loop_over:
  assumes "pe_cancel env = None" and "now < (int k + 1) * interval" and "d < (int k + 1) * interval"
  shows "poll_loop c interval d env k (int k) now polls w = (w, k, PollOver (max now d))"
  using select_before_deadline [OF assms(2,3)] assms(1)
  by (simp add: poll_loop.simps [of _ _ _ _ k] Let_def pick_case_def)

lemma poll_loop_tick:
  assumes "0 < interval" and "pe_cancel env = None"
    and "now < (int k + 1) * interval" and "(int k + 1) * interval \<le> d"
  shows "poll_loop c interval d env k (int k) now (p # polls) w =
      poll_loop c interval d env (Suc k) (int (Suc k)) ((int k + 1) * interval + re_took p) polls
        (refetch_and_apply c p w) \<or>
    d = (int k + 1) * interval \<and> poll_loop c interval d env k (int k) now (p # polls) w = (w, k, PollOver d)"
proof -
  let ?ready = "if d = (int k + 1) * interval then [CaseDeadline, CaseTick] else [CaseTick]"
  have tick: "wake_at interval d None (int k) now = (int k + 1) * interval"
    "ready_cases interval d None (int k) ((int k + 1) * interval) = ?ready"
    using select_at_tick [OF assms(3,4)] by simp_all
  have next_tick: "(int k + 1) * interval div interval = int (Suc k)" using assms(1) by simp
  consider "pick_case (pe_pick env k) ?ready = CaseTick"
    | "pick_case (pe_pick env k) ?ready = CaseDeadline" "d = (int k + 1) * interval"
    using pick_case_in [of ?ready "pe_pick env k"] by (cases "d = (int k + 1) * interval") auto
  then show ?thesis
  proof cases
    case 1
    then show ?thesis by (simp add: poll_loop.simps [of _ _ _ _ k] Let_def assms(2) tick next_tick)
  next
    case 2
    have "poll_loop c interval d env k (int k) now (p # polls) w = (w, k, PollOver ((int k + 1) * interval))"
      using 2(1) by (simp add: poll_loop.simps [of _ _ _ _ k] Let_def assms(2) tick)
    with 2(2) show ?thesis by simp
  qed
qed

text \<open>The outcome of a phase whose ticker has fired \<open>k\<close> times: it polls on while full
  intervals fit into the delay, and is over less than an interval after it.\<close>

definition polled ::
  "client \<Rightarrow> duration \<Rightarrow> duration \<Rightarrow> nat \<Rightarrow> refetch_env list \<Rightarrow> world \<Rightarrow> world \<times> nat \<times> poll_end \<Rightarrow> bool"
where
  "polled c interval d k polls w out \<longleftrightarrow>
     (\<exists>n t. out = (foldl (\<lambda>w p. refetch_and_apply c p w) w (take n polls), k + n, PollOver t) \<and>
       int (k + n) * interval \<le> d \<and> d \<le> (int (k + n) + 1) * interval \<and> d \<le> t \<and> t < d + interval)"

lemma polled_over:
  assumes "int k * interval \<le> d" and "d \<le> (int k + 1) * interval" and "d \<le> t" and "t < d + interval"
  shows "polled c interval d k polls w (w, k, PollOver t)"
  unfolding polled_def using assms by (intro exI [of _ "0 :: nat"]) simp

lemma polled_Cons:
  assumes "polled c interval d (Suc k) polls (refetch_and_apply c p w) out"
  shows "polled c interval d k (p # polls) w out"
proof -
  obtain n t where "out = (foldl (\<lambda>w p. refetch_and_apply c p w) (refetch_and_apply c p w) (take n polls),
      Suc k + n, PollOver t)"
    "int (Suc k + n) * interval \<le> d" "d \<le> (int (Suc k + n) + 1) * interval" "d \<le> t" "t < d + interval"
    using assms unfolding polled_def by blast
  then show ?thesis unfolding polled_def by (intro exI [of _ "Suc n"] exI [of _ t]) simp
qed

lemma poll_loop_steady:
  assumes "0 < interval" and "pe_cancel env = None"
    and "\<forall>p \<in> set polls. 0 \<le> re_took p \<and> re_took p < interval"
    and "int k * interval \<le> now" and "now < (int k + 1) * interval" and "int k * interval \<le> d"
    and "d div interval \<le> int (k + length polls)"
  shows "polled c interval d k polls w (poll_loop c interval d env k (int k) now polls w)"
  using assms(3-)
proof (induction polls arbitrary: k now w)
  case Nil
  have "d < (int k + 1) * interval"
  proof (rule ccontr)
    assume "\<not> d < (int k + 1) * interval"
    then have "(int k + 1) * interval div interval \<le> d div interval"
      using assms(1) by (intro zdiv_mono1) simp_all
    with Nil.prems(5) assms(1) show False by simp
  qed
  then show ?case
    using Nil.prems by (simp add: poll_loop_over [OF assms(2)] polled_over distrib_right)
next
  case (Cons p polls)
  show ?case
  proof (cases "d < (int k + 1) * interval")
    case True
    then show ?thesis
      using Cons.prems by (simp add: poll_loop_over [OF assms(2)] polled_over distrib_right)
  next
    case False
    then have next_polled: "polled c interval d (Suc k) polls (refetch_and_apply c p w)
        (poll_loop c interval d env (Suc k) (int (Suc k)) ((int k + 1) * interval + re_took p) polls
          (refetch_and_apply c p w))"
      using Cons.prems by (intro Cons.IH) (simp_all add: algebra_simps)
    have "polled c interval d k (p # polls) w (w, k, PollOver d)" if "d = (int k + 1) * interval"
      using that assms(1) Cons.prems(4) by (intro polled_over) simp_all
    with polled_Cons [OF next_polled] poll_loop_tick [OF assms(1,2) Cons.prems(3), of d c p polls w] False
    show ?thesis by auto
  qed
qed

subsection \<open>Properties\<close>

text \<open>C14. However streams, events, fetches and polls go, a runner over a booted store keeps it
  serving a valid bundle: the one it started with, or one that the client fetched whole in one of
  the run's own refetches and that passed validation.\<close>

theorem runner_serves_only_fetched_bundles:
  assumes "store_inv (snd w)" and "remote_run r tus w = Some (w', ws)"
  shows "\<exists>b. Current (snd w') = Some b \<and> valid_bundle b \<and>
    (Current (snd w) = Some b \<or> (\<exists>tu \<in> set tus. \<exists>env \<in> turn_envs (ru_Client r) tu. fetched (ru_Client r) env b))"
proof -
  let ?P = "\<lambda>v. world_inv v \<and> (world_current v = world_current w \<or>
    (\<exists>b. world_current v = Some b \<and> (\<exists>tu \<in> set tus. \<exists>env \<in> turn_envs (ru_Client r) tu. fetched (ru_Client r) env b)))"
  have "?P (refetch_and_apply (ru_Client r) env v)"
    if "tu \<in> set tus" "env \<in> turn_envs (ru_Client r) tu" "?P v" for tu env v
    using that refetch_inv [of v "ru_Client r" env] refetch_current [of "ru_Client r" env v] by auto
  moreover have "?P w" using assms(1) by simp
  moreover have "run_turns r tus 0 [] w = Some (w', ws)" using assms(2) by (simp add: remote_run_def)
  ultimately have "?P w'" by (rule run_turns_keeps [where P = ?P])
  then show ?thesis using st.current_valid [of "snd w'"] by auto
qed

definition good_env :: refetch_env where
  "good_env = \<lparr>re_net = \<lparr>net_check = (\<lambda>_. None),
       net_do = (\<lambda>_. Inr \<lparr>rs_Status = 200, rs_Data = sample_raw, rs_Fail = None\<rparr>)\<rparr>,
     re_save = all_ok, re_now = 9, re_took = 2 * second\<rparr>"

definition sample_turn :: turn where
  "sample_turn = \<lparr>tu_stream = \<lparr>sn_check = (\<lambda>_. None), sn_open = (\<lambda>_. \<lparr>conn_cancelled = False, conn_result = Inr 200,
       conn_at = 0, conn_body = [],
       conn_inputs = [(1, True, SseLine ''data: x'' good_env), (2, True, SseLine [] good_env)]\<rparr>)\<rparr>,
     tu_done = False, tu_poll = \<lparr>pe_polls = [good_env], pe_pick = (\<lambda>_. 0), pe_cancel = None\<rparr>\<rparr>"

definition sample_world :: world where
  "sample_world = (sample_fs, set_current sample_bundle 5 (empty_store [] ''c''))"

lemma fetch_good_env: "fetch_bundle c (re_net good_env) = Inr sample_raw"
proof -
  have "length sample_raw < 100" by (simp add: sample_raw_def)
  then show ?thesis
    by (simp add: fetch_bundle_def good_env_def read_limited_def maxBundleBytes_def)
qed

lemma refetch_sample_world [simp]: "refetch_and_apply c good_env sample_world = sample_world"
  by (simp add: refetch_and_apply_def fetch_good_env apply_if_changed_def sample_accepted
      sample_world_def sample_bundle_def)

lemma poll_sample: "poll_until c (5 * second) (tu_poll sample_turn) second w = Some (w, 0, PollOver second)"
  by (simp add: poll_until_def poll_loop.simps wake_at_def ready_cases_def pick_case_def sample_turn_def
      duration_defs Let_def)

lemma run_sample: "remote_run (main_runner c) [sample_turn] sample_world = Some (sample_world, [second])"
proof -
  have "subscribe c (refetch_and_apply c) re_took idle (tu_stream sample_turn) sample_world =
      (sample_world, SubEnd (EndIdle (max (2 + 2 * second) (2 + idle))))" if "2 \<le> idle" for idle
    using that by (simp add: sample_turn_def subscribe_def sse_line_def has_prefix_def dispatches_def
        good_env_def [symmetric] Let_def) (simp add: good_env_def)
  then have "fst (subscribe c (refetch_and_apply c) re_took subscribeIdleTimeout (tu_stream sample_turn) sample_world) =
      sample_world"
    by (simp add: tuning_defs)
  moreover have "turn_wait (main_runner c) 1 = second"
    by (simp add: turn_wait_def main_runner_def exponential_backoff_def tuning_defs)
  moreover have "\<not> tu_done sample_turn" by (simp add: sample_turn_def)
  ultimately show ?thesis
    using poll_sample [of c] by (simp add: remote_run_def main_runner_def tuning_defs split_beta)
qed

theorem runner_serves_only_fetched_bundles_witness:
  "\<exists>b. Current (snd sample_world) = Some b \<and> valid_bundle b"
  using runner_serves_only_fetched_bundles [OF _ run_sample]
  by (fastforce simp: sample_world_def sample_valid)

text \<open>C27. While the stream is down, the context lives and each poll returns within the interval, the
  bundle is refetched once per poll interval until the reconnect delay is over: as many full
  intervals as fit, the last one only by the select's choice when it ends with the delay. The phase
  ends no earlier than the delay and less than an interval after it. For a delay shorter than the
  interval there is no poll, so an update announced in that gap waits for the next event.\<close>

theorem poll_until_polls:
  assumes "0 < interval" and "pe_cancel env = None"
    and "\<forall>p \<in> set (pe_polls env). 0 \<le> re_took p \<and> re_took p < interval"
    and "max d 0 div interval \<le> int (length (pe_polls env))"
  shows "\<exists>n t. poll_until c interval env d w =
      Some (foldl (\<lambda>w p. refetch_and_apply c p w) w (take n (pe_polls env)), n, PollOver t) \<and>
    int n * interval \<le> max d 0 \<and> max d 0 \<le> (int n + 1) * interval \<and>
    max d 0 \<le> t \<and> t < max d 0 + interval"
proof -
  have d: "(if d > 0 then d else 0) = max d 0" by simp
  show ?thesis
    using poll_loop_steady [of interval env "pe_polls env" 0 0 "max d 0" c w] assms
    by (simp add: poll_until_def polled_def Let_def d)
qed

theorem poll_until_polls_witness:
  "\<exists>n t. poll_until sample_client pollFallbackInterval (tu_poll sample_turn) (2 * pollFallbackInterval - 1) sample_world =
     Some (foldl (\<lambda>w p. refetch_and_apply sample_client p w) sample_world (take n [good_env]), n, PollOver t) \<and>
     int n * pollFallbackInterval \<le> 2 * pollFallbackInterval - 1 \<and>
     2 * pollFallbackInterval - 1 \<le> (int n + 1) * pollFallbackInterval"
  using poll_until_polls [of pollFallbackInterval "tu_poll sample_turn" "2 * pollFallbackInterval - 1"
      sample_client sample_world]
  by (auto simp: sample_turn_def good_env_def tuning_defs)

text \<open>C28. The number of reconnects alone determines the delays: the counter is never reset, so
  with the program's constants the n-th reconnect waits the base doubled n - 1 times, and from
  the sixth on always the ceiling, however long the streams in between lived.\<close>

theorem reconnect_delays_never_reset:
  assumes "remote_run (main_runner c) tus w = Some (w', ws)"
  shows "ws = map (\<lambda>n. min (30 * second) (second * 2 ^ n)) [0..<length ws]"
proof -
  have gen: "ws = waits @ map (\<lambda>n. turn_wait r (attempt + 1 + int n)) [0..<length ws - length waits]
      \<and> length waits \<le> length ws"
    if "run_turns r tus attempt waits w = Some (w', ws)" for r tus attempt waits w
    using that
  proof (induction tus arbitrary: attempt waits w)
    case (Cons tu tus)
    show ?case
    proof (cases "tu_done tu")
      case True
      then show ?thesis using Cons.prems by (simp split: prod.splits)
    next
      case False
      then consider "ws = waits @ [turn_wait r (attempt + 1)]"
        | w2 where "run_turns r tus (attempt + 1) (waits @ [turn_wait r (attempt + 1)]) w2 = Some (w', ws)"
        using Cons.prems by (auto simp: Let_def split: prod.splits option.splits poll_end.splits)
      then show ?thesis
      proof cases
        case 1
        then show ?thesis by simp
      next
      case 2
      from Cons.IH [OF this] have len: "length waits < length ws"
        and ws: "ws = waits @ turn_wait r (attempt + 1) #
          map (\<lambda>n. turn_wait r (attempt + 2 + int n)) [0..<length ws - length waits - 1]"
        by (simp_all add: algebra_simps)
      have "[0..<length ws - length waits] = 0 # map Suc [0..<length ws - length waits - 1]"
        using len by (metis Suc_diff_1 map_Suc_upt upt_conv_Cons zero_less_diff)
      then show ?thesis using ws len by (simp add: algebra_simps o_def)
      qed
    qed
  qed simp
  have "ws = map (\<lambda>n. turn_wait (main_runner c) (1 + int n)) [0..<length ws]"
    using gen [of "main_runner c" tus 0 "[]" w] assms by (simp add: remote_run_def)
  moreover have "turn_wait (main_runner c) (1 + int n) = min (30 * second) (second * 2 ^ n)" for n
    using exponential_closed [of reconnectBackoffBase reconnectBackoffCeil "1 + int n"]
    by (simp add: turn_wait_def main_runner_def tuning_defs)
  ultimately show ?thesis by (simp only: o_def)
qed

theorem reconnect_delays_never_reset_witness:
  "remote_run (main_runner sample_client) [sample_turn] sample_world = Some (sample_world,
     map (\<lambda>n. min (30 * second) (second * 2 ^ n)) [0..<1])"
  using reconnect_delays_never_reset [OF run_sample] run_sample by simp

end
