(* ===== verification/BootFetch.thy ===== *)
theory BootFetch
  imports Store
begin

text \<open>
  The boot of fetch mode (\<^verbatim>\<open>internal/bundle/boot_fetch.go\<close>). The environment fixes,
  for each attempt, what the fetch returns, whether the context is cancelled while the loop
  waits before it, and how the system calls of the cache write go. The loop counts down the
  attempts that remain, so it ends after \<open>retries + 1\<close> of them.
\<close>

record boot_env =
  be_fetch :: "nat \<Rightarrow> string + bytes"
  be_cancelled :: "nat \<Rightarrow> bool"
  be_save :: "nat \<Rightarrow> save_outcome"
  be_now :: "nat \<Rightarrow> go_time"

text \<open>\<open>lastErr\<close>, which is nil at first.\<close>

datatype boot_cause = NoCause | FetchFailed string | FetchInvalid bundle_error | BootCancelled

text \<open>
  One pass of the loop per unit of the counter. The result carries the time spent waiting, and
  the number of the attempt that succeeded or the last error.
\<close>

fun boot_loop ::
  "boot_env \<Rightarrow> (int \<Rightarrow> duration) option \<Rightarrow> nat \<Rightarrow> nat \<Rightarrow> boot_cause \<Rightarrow> duration \<Rightarrow> fs \<times> store \<Rightarrow>
     (fs \<times> store) \<times> duration \<times> (boot_cause + nat)" where
  "boot_loop env bo 0 k cause waited w = (w, waited, Inl cause)"
| "boot_loop env bo (Suc n) k cause waited w =
     (if k > 0 \<and> Option.is_none bo then (w, waited, Inl cause)
      else if k > 0 \<and> be_cancelled env k then (w, waited, Inl BootCancelled)
      else
        (let waited' = (if k > 0 then waited + the bo (int k) else waited) in
         case be_fetch env k of
           Inl e \<Rightarrow> boot_loop env bo n (Suc k) (FetchFailed e) waited' w
         | Inr raw \<Rightarrow>
             (case apply_bundle (be_save env k) (be_now env k) raw (be_now env k) w of
                (w', Inl e) \<Rightarrow> boot_loop env bo n (Suc k) (FetchInvalid e) waited' w'
              | (w', Inr b) \<Rightarrow> (w', waited', Inr k))))"

definition boot_from_fetch ::
  "boot_env \<Rightarrow> (int \<Rightarrow> duration) option \<Rightarrow> int \<Rightarrow> string \<Rightarrow> fs \<Rightarrow>
     fs \<times> (boot_cause \<times> load_error + store)" where
  "boot_from_fetch env bo retries cd fs =
     (case boot_loop env bo (nat (retries + 1)) 0 NoCause 0 (fs, empty_store [] cd) of
        (w, _, Inr _) \<Rightarrow> (fst w, Inr (snd w))
      | (w, _, Inl cause) \<Rightarrow>
          (case load_cache (fst w) cd of
             Inl e \<Rightarrow> (fst w, Inl (cause, e))
           | Inr b \<Rightarrow> (fst w, Inr (set_current b zero_time (snd w)))))"

text \<open>Attempt \<open>k\<close> delivers a valid bundle; and the loop gets as far as attempt \<open>k\<close>.\<close>

definition delivers :: "boot_env \<Rightarrow> nat \<Rightarrow> decision_bundle option" where
  "delivers env k = (case be_fetch env k of
     Inl _ \<Rightarrow> None
   | Inr raw \<Rightarrow> (case parse_and_validate raw of Inl _ \<Rightarrow> None | Inr b \<Rightarrow> Some b))"

definition admits :: "boot_env \<Rightarrow> (int \<Rightarrow> duration) option \<Rightarrow> nat \<Rightarrow> bool" where
  "admits env bo k \<longleftrightarrow> k = 0 \<or> bo \<noteq> None \<and> \<not> be_cancelled env k"

text \<open>Which attempt the boot takes its bundle from, if any.\<close>

fun first_delivery :: "boot_env \<Rightarrow> (int \<Rightarrow> duration) option \<Rightarrow> nat \<Rightarrow> nat \<Rightarrow> nat option" where
  "first_delivery env bo 0 k = None"
| "first_delivery env bo (Suc n) k =
     (if \<not> admits env bo k then None
      else if delivers env k \<noteq> None then Some k
      else first_delivery env bo n (Suc k))"

lemma admits_guards:
  "admits env bo k \<Longrightarrow> (k > 0 \<and> Option.is_none bo) = False \<and> (k > 0 \<and> be_cancelled env k) = False"
  by (auto simp: admits_def Option.is_none_def)

lemma boot_loop_fails:
  assumes "admits env bo k" and "delivers env k = None"
  shows "\<exists>cause' waited'. boot_loop env bo (Suc n) k cause waited w = boot_loop env bo n (Suc k) cause' waited' w"
proof -
  note go = admits_guards [OF assms(1)]
  show ?thesis
  proof (cases "be_fetch env k")
    case (Inl e)
    then show ?thesis by (simp only: boot_loop.simps go if_False Let_def sum.case) blast
  next
    case raw: (Inr raw)
    then obtain e where "parse_and_validate raw = Inl e"
      using assms(2) by (auto simp: delivers_def split: sum.splits)
    then have "apply_bundle (be_save env k) (be_now env k) raw (be_now env k) w = (w, Inl e)"
      by (simp add: apply_bundle_Inl)
    then show ?thesis by (simp only: boot_loop.simps go if_False raw Let_def sum.case prod.case) blast
  qed
qed

lemma boot_loop_delivers:
  assumes "admits env bo k" and "be_fetch env k = Inr raw" and "parse_and_validate raw = Inr b"
  shows "boot_loop env bo (Suc n) k cause waited w =
    (fst (apply_bundle (be_save env k) (be_now env k) raw (be_now env k) w),
     if k > 0 then waited + the bo (int k) else waited, Inr k)"
proof -
  obtain w' where "apply_bundle (be_save env k) (be_now env k) raw (be_now env k) w = (w', Inr b)"
    using assms(3) by (cases w) (simp add: apply_bundle_def)
  then show ?thesis
    by (simp only: boot_loop.simps admits_guards [OF assms(1)] if_False assms(2) Let_def sum.case prod.case fst_conv)
qed

lemma boot_loop_result:
  "case first_delivery env bo n k of
     None \<Rightarrow> \<exists>waited' e. boot_loop env bo n k cause waited w = (w, waited', Inl e)
   | Some j \<Rightarrow> \<exists>waited' raw. be_fetch env j = Inr raw \<and>
       boot_loop env bo n k cause waited w =
         (fst (apply_bundle (be_save env j) (be_now env j) raw (be_now env j) w), waited', Inr j)"
proof (induction n arbitrary: k cause waited)
  case (Suc n)
  consider "\<not> admits env bo k" | "admits env bo k" "delivers env k = None"
    | b where "admits env bo k" "delivers env k = Some b" by blast
  then show ?case
  proof cases
    case 1
    then show ?thesis by (auto simp: admits_def)
  next
    case 2
    then obtain cause' waited' where
      step: "boot_loop env bo (Suc n) k cause waited w = boot_loop env bo n (Suc k) cause' waited' w"
      using boot_loop_fails by blast
    show ?thesis
      using 2 Suc.IH [of "Suc k" cause' waited'] unfolding step by (simp del: boot_loop.simps)
  next
    case 3
    then obtain raw where "be_fetch env k = Inr raw" "parse_and_validate raw = Inr b"
      by (auto simp: delivers_def split: sum.splits)
    then show ?thesis using 3 by (simp add: boot_loop_delivers del: boot_loop.simps)
  qed
qed simp

lemma first_delivery_delivers:
  "first_delivery env bo n k = Some j \<Longrightarrow> k \<le> j \<and> j < k + n \<and> (\<exists>b. delivers env j = Some b)"
  by (induction n arbitrary: k) (fastforce split: if_splits)+

lemma delivers_raw:
  "delivers env k = Some b \<longleftrightarrow> (\<exists>raw. be_fetch env k = Inr raw \<and> parse_and_validate raw = Inr b)"
  by (auto simp: delivers_def split: sum.splits)

lemma boot_from_fetch_None:
  assumes "first_delivery env bo (nat (retries + 1)) 0 = None"
  shows "\<exists>cause. boot_from_fetch env bo retries cd fs =
    (case load_cache fs cd of
       Inl e \<Rightarrow> (fs, Inl (cause, e))
     | Inr b \<Rightarrow> (fs, Inr (set_current b zero_time (empty_store [] cd))))"
proof -
  obtain t e where "boot_loop env bo (nat (retries + 1)) 0 NoCause 0 (fs, empty_store [] cd) =
      ((fs, empty_store [] cd), t, Inl e)"
    using boot_loop_result [of env bo "nat (retries + 1)" 0 NoCause 0 "(fs, empty_store [] cd)"]
      assms by auto
  then show ?thesis by (auto simp: boot_from_fetch_def split: sum.splits)
qed

lemma boot_from_fetch_Some:
  assumes "first_delivery env bo (nat (retries + 1)) 0 = Some j" and "be_fetch env j = Inr raw"
    and "parse_and_validate raw = Inr b"
  shows "boot_from_fetch env bo retries cd fs =
    (fst (save_cache (be_save env j) (be_now env j) cd raw fs),
     Inr (set_current b (be_now env j) (empty_store [] cd)))"
proof -
  obtain t where "boot_loop env bo (nat (retries + 1)) 0 NoCause 0 (fs, empty_store [] cd) =
      (fst (apply_bundle (be_save env j) (be_now env j) raw (be_now env j)
         (fs, empty_store [] cd)), t, Inr j)"
    using boot_loop_result [of env bo "nat (retries + 1)" 0 NoCause 0 "(fs, empty_store [] cd)"]
      assms by auto
  then show ?thesis
    using assms(3) by (auto simp: boot_from_fetch_def apply_bundle_def empty_store_def)
qed

subsection \<open>Properties\<close>

lemma first_delivery_at:
  assumes "\<forall>i. k \<le> i \<and> i < k + m \<longrightarrow> delivers env i = None"
    and "\<forall>i. k \<le> i \<and> i \<le> k + m \<longrightarrow> admits env bo i"
    and "delivers env (k + m) = Some b" and "m < n"
  shows "first_delivery env bo n k = Some (k + m)"
  using assms
proof (induction m arbitrary: k n)
  case 0
  then show ?case by (cases n) auto
next
  case (Suc m)
  then obtain n' where n: "n = Suc n'" "m < n'" by (cases n) auto
  have "first_delivery env bo n' (Suc k) = Some (Suc k + m)"
    using Suc.prems n(2) by (intro Suc.IH) auto
  with Suc.prems n(1) show ?case by auto
qed

lemma first_delivery_nil_backoff:
  "first_delivery env None (Suc n) 0 = (if delivers env 0 \<noteq> None then Some 0 else None)"
  by (cases n) (auto simp: admits_def)

definition sample_boot :: boot_env where
  "sample_boot = \<lparr>be_fetch = (\<lambda>k. if k = 0 then Inl ''refused'' else Inr sample_raw),
     be_cancelled = (\<lambda>_. False), be_save = (\<lambda>_. all_ok), be_now = int\<rparr>"

text \<open>C38. The boot takes the first attempt among \<open>retries + 1\<close> that delivers a valid bundle,
  provided the context lives that long and, past the first attempt, there is a backoff: it
  serves that bundle, and with a working disk a restart reads the same bundle from the cache.\<close>

theorem boot_serves_first_valid_fetch:
  assumes "int j \<le> retries" and "delivers env j = Some b" and "\<forall>i < j. delivers env i = None"
    and "\<forall>i \<le> j. admits env bo i" and "be_save env j = all_ok" and "fs (tmp_path cd) = None"
  shows "\<exists>s. snd (boot_from_fetch env bo retries cd fs) = Inr s \<and> Current s = Some b \<and>
    load_cache (fst (boot_from_fetch env bo retries cd fs)) cd = Inr b"
proof -
  obtain raw where raw: "be_fetch env j = Inr raw" "parse_and_validate raw = Inr b"
    using assms(2) by (auto simp: delivers_raw)
  have "first_delivery env bo (nat (retries + 1)) 0 = Some (0 + j)"
    using assms(1-4) by (intro first_delivery_at) auto
  from boot_from_fetch_Some [OF this [simplified] raw] show ?thesis
    using load_cache_saved [of raw b fs cd, OF raw(2) assms(6)] assms(5) by (simp add: Current_def)
qed

theorem boot_serves_first_valid_fetch_witness:
  "\<exists>s. snd (boot_from_fetch sample_boot (Some (\<lambda>n. n * second)) 3 ''c'' Map.empty) = Inr s \<and>
    Current s = Some sample_bundle \<and>
    load_cache (fst (boot_from_fetch sample_boot (Some (\<lambda>n. n * second)) 3 ''c'' Map.empty)) ''c'' =
      Inr sample_bundle"
proof (rule boot_serves_first_valid_fetch [where j = 1])
  show "delivers sample_boot 1 = Some sample_bundle"
    by (simp add: sample_boot_def delivers_def sample_accepted)
qed (auto simp: sample_boot_def delivers_def admits_def)

text \<open>C39. However the attempts fail, whatever they deliver and whenever the context is
  cancelled, a boot with a usable cache succeeds and serves a validated bundle.\<close>

theorem boot_survives_with_cache:
  assumes "load_cache fs cd = Inr b"
  shows "\<exists>s. snd (boot_from_fetch env bo retries cd fs) = Inr s \<and>
    (\<exists>c. Current s = Some c \<and> valid_bundle c \<and>
       (c = b \<or> (\<exists>k \<le> nat retries. delivers env k = Some c)))"
proof (cases "first_delivery env bo (nat (retries + 1)) 0")
  case None
  obtain cause where "boot_from_fetch env bo retries cd fs =
      (fs, Inr (set_current b zero_time (empty_store [] cd)))"
    using boot_from_fetch_None [OF None, of cd fs] assms by auto
  moreover have "valid_bundle b"
    using assms load_file_valid by (simp add: load_cache_def)
  ultimately show ?thesis by (simp add: Current_def)
next
  case (Some j)
  then obtain c where j: "j \<le> nat retries" "delivers env j = Some c"
    using first_delivery_delivers [OF Some] by auto
  then obtain raw where raw: "be_fetch env j = Inr raw" "parse_and_validate raw = Inr c"
    by (auto simp: delivers_raw)
  from boot_from_fetch_Some [OF Some raw] j show ?thesis
    using parse_and_validate_valid [OF raw(2)] by (auto simp: Current_def)
qed

theorem boot_survives_with_cache_witness:
  "\<exists>s. snd (boot_from_fetch (sample_boot\<lparr>be_fetch := \<lambda>_. Inl ''down''\<rparr>) None 3 ''c''
      (fst (save_cache all_ok 1 ''c'' sample_raw Map.empty))) = Inr s \<and>
    (\<exists>c. Current s = Some c \<and> valid_bundle c \<and> (c = sample_bundle \<or>
       (\<exists>k \<le> nat 3. delivers (sample_boot\<lparr>be_fetch := \<lambda>_. Inl ''down''\<rparr>) k = Some c)))"
  by (rule boot_survives_with_cache) (simp add: load_cache_saved sample_accepted)

text \<open>Without a backoff function the boot makes one attempt only, whatever the number of
  retries asked for.\<close>

theorem boot_without_backoff_tries_once:
  "snd (boot_from_fetch env None (int n) cd fs) = snd (boot_from_fetch env None 0 cd fs)"
proof -
  have loop: "boot_loop env None (Suc n) 0 c t w = boot_loop env None (Suc 0) 0 c t w" for c t w
    by (cases n) (simp_all add: Let_def split: sum.splits prod.splits)
  have "nat (int n + 1) = Suc n" "nat (0 + 1) = Suc 0" by simp_all
  then show ?thesis unfolding boot_from_fetch_def by (simp only: loop)
qed

end
