(* ===== verification/Startup.thy ===== *)
theory Startup
  imports Flags ChecksRunner Handler RemoteRunner BootFetch
begin

text \<open>
  The process around the components: the decisions of \<^verbatim>\<open>cmd/zeus-gslb/main.go\<close> from the
  command line to the boot, the lazily started EndpointSlice lister, and the two listeners of
  \<^verbatim>\<open>internal/dnsserver/server.go\<close>, up to the exit status. \<open>log.Fatalf\<close> is the result
  \<open>Fatal\<close>, and ends the process with status 1.
\<close>

subsection \<open>The lazy lister\<close>

definition needs_k8s_probe :: "dns_record list \<Rightarrow> bool" where
  "needs_k8s_probe records =
     list_ex (\<lambda>r. list_ex (\<lambda>lc. lc_Probe lc = ''k8s'') (rec_LocalChecks r)) records"

record lister_cell =
  lz_lister :: lister
  lz_skipLogged :: bool

definition fresh_cell :: lister_cell where
  "fresh_cell = \<lparr>lz_lister = NoLister, lz_skipLogged = False\<rparr>"

text \<open>\<open>ensureK8sLister\<close>, under its mutex; the environment says how a start goes. \<open>None\<close>:
  the start blocks, with the mutex held.\<close>

definition ensure_k8s_lister ::
  "k8s_env \<Rightarrow> dns_record list \<Rightarrow> lister_cell \<Rightarrow> (lister_cell \<times> lister) option" where
  "ensure_k8s_lister env records cell =
     (if lz_lister cell \<noteq> NoLister then Some (cell, lz_lister cell)
      else if \<not> needs_k8s_probe records
      then Some ((if \<not> lz_skipLogged cell then cell\<lparr>lz_skipLogged := True\<rparr> else cell), NoLister)
      else (case new_k8s_lister env of
              None \<Rightarrow> None
            | Some (Inl e) \<Rightarrow> Some (cell, NoLister)
            | Some (Inr l) \<Rightarrow> Some (cell\<lparr>lz_lister := l\<rparr>, l)))"

text \<open>The \<open>Targets\<close> closure of the checks runner: the dereference of a nil bundle, a call that
  blocks in the start of the lister, or the targets.\<close>

datatype targets_call = NilBundle | Blocked | Targets lister_cell "string \<rightharpoonup> target"

definition live_targets :: "k8s_env \<Rightarrow> decision_bundle option \<Rightarrow> lister_cell \<Rightarrow> targets_call" where
  "live_targets env current cell =
     (case current of
        None \<Rightarrow> NilBundle
      | Some b \<Rightarrow>
          (case ensure_k8s_lister env (b_Records b) cell of
             None \<Rightarrow> Blocked
           | Some (cell', l) \<Rightarrow> Targets cell' (build_targets (b_Records b) l)))"

subsection \<open>The command line\<close>

datatype fatal = UnsupportedMode string | NoCacheDir | NoCluster | NoToken

datatype boot_plan =
  PrintVersion
| Fatal fatal
| FetchMode client
| FileMode bool string  \<comment> \<open>whether the warning about a missing \<open>--bundle\<close> is logged, and the path\<close>

definition plan_boot :: "flags \<Rightarrow> string \<Rightarrow> boot_plan" where
  "plan_boot fl envToken =
     (if fl_version fl then PrintVersion
      else if fl_mode fl \<noteq> ''responder'' then Fatal (UnsupportedMode (fl_mode fl))
      else if fl_cacheDir fl = [] then Fatal NoCacheDir
      else
        (let zeusFetchMode = (fl_zeusURL fl \<noteq> []);
             bearerToken = (if envToken \<noteq> [] then envToken else fl_token fl) in
         if zeusFetchMode then
           (if fl_cluster fl = [] then Fatal NoCluster
            else if bearerToken = [] then Fatal NoToken
            else FetchMode (new_client (fl_zeusURL fl) (fl_cluster fl) bearerToken))
         else FileMode (fl_bundle fl = []) (fl_bundle fl)))"

text \<open>The boot of the store in either mode, with the program's retry constants.\<close>

record start_env =
  se_net :: "nat \<Rightarrow> http_network"
  se_cancelled :: "nat \<Rightarrow> bool"
  se_save :: "nat \<Rightarrow> save_outcome"
  se_now :: "nat \<Rightarrow> go_time"
  se_itf :: interference

definition boot_env_of :: "(client_error \<Rightarrow> string) \<Rightarrow> client \<Rightarrow> start_env \<Rightarrow> boot_env" where
  "boot_env_of show_err c env =
     \<lparr>be_fetch = (\<lambda>k. map_sum show_err id (fetch_bundle c (se_net env k))),
      be_cancelled = se_cancelled env, be_save = se_save env, be_now = se_now env\<rparr>"

definition boot_store ::
  "(client_error \<Rightarrow> string) \<Rightarrow> boot_plan \<Rightarrow> string \<Rightarrow> start_env \<Rightarrow> fs \<Rightarrow> (fs \<times> store) option" where
  "boot_store show_err plan cacheDir env fs =
     (case plan of
        FetchMode c \<Rightarrow>
          (case boot_from_fetch (boot_env_of show_err c env)
                  (Some (linear_backoff bootFetchBackoffStep)) bootFetchRetries cacheDir fs of
             (fs', Inl _) \<Rightarrow> None
           | (fs', Inr s) \<Rightarrow> Some (fs', s))
      | FileMode _ path \<Rightarrow>
          (case new_store (se_itf env) (se_save env 0) (se_now env 0) path cacheDir fs of
             (fs', Inl _) \<Rightarrow> None
           | (fs', Inr s) \<Rightarrow> Some (fs', s))
      | _ \<Rightarrow> None)"

subsection \<open>The listeners\<close>

datatype listener = Udp | Tcp

record dns_listener =
  ls_Addr :: string
  ls_Net :: listener

record server =
  srv_addr :: string
  srv_udp :: dns_listener
  srv_tcp :: dns_listener

text \<open>\<open>NewServer\<close>: both listeners, at the same address, for the one handler.\<close>

definition new_server :: "string \<Rightarrow> server" where
  "new_server addr = \<lparr>srv_addr = addr, srv_udp = \<lparr>ls_Addr = addr, ls_Net = Udp\<rparr>,
     srv_tcp = \<lparr>ls_Addr = addr, ls_Net = Tcp\<rparr>\<rparr>"

text \<open>What the select of \<open>Server.Run\<close> can meet: the context, or one of the two listeners
  returning an error or nil. Both listeners are shut down on every way out.\<close>

datatype server_event = CtxDone | ListenerEnds listener "string option"

datatype server_error = CtxError | ListenerError listener string

definition run_named :: "listener \<Rightarrow> string option \<Rightarrow> server_error option" where
  "run_named name ret = (case ret of Some e \<Rightarrow> Some (ListenerError name e) | None \<Rightarrow> None)"

definition shutdown :: "server \<Rightarrow> dns_listener list" where
  "shutdown srv = [srv_udp srv, srv_tcp srv]"

definition server_run :: "server \<Rightarrow> server_event list \<Rightarrow> (server_error option \<times> dns_listener list) option" where
  "server_run srv es = (case es of
     [] \<Rightarrow> None
   | CtxDone # _ \<Rightarrow> Some (Some CtxError, shutdown srv)
   | ListenerEnds l ret # _ \<Rightarrow> Some (run_named l ret, shutdown srv))"

text \<open>The end of \<open>main\<close>: the exit status, \<open>None\<close> while the server runs. A cancelled
  context is no error, also when a listener ended first: \<open>ctx_done\<close> is what \<open>ctx.Err()\<close>
  says after a listener has ended.\<close>

definition exit_code :: "bool \<Rightarrow> server \<Rightarrow> server_event list \<Rightarrow> nat option" where
  "exit_code ctx_done srv es = (case server_run srv es of
     None \<Rightarrow> None
   | Some (err, _) \<Rightarrow>
       Some (if err \<noteq> None \<and> \<not> (ctx_done \<or> take 1 es = [CtxDone]) then 1 else 0))"

text \<open>The process: its exit status from the arguments, the token variable, the boot's
  environment and what the server meets; \<open>None\<close> while it serves.\<close>

definition main_exit ::
  "(client_error \<Rightarrow> string) \<Rightarrow> string list \<Rightarrow> string \<Rightarrow> start_env \<Rightarrow> fs \<Rightarrow> bool \<Rightarrow> server_event list \<Rightarrow> nat option"
where
  "main_exit show_err args envToken env fs ctx_done es =
     (case parse_args default_flags args of
        Inl e \<Rightarrow> Some (flag_exit e)
      | Inr (fl, rest) \<Rightarrow>
          (case plan_boot fl envToken of
             PrintVersion \<Rightarrow> Some 0
           | Fatal e \<Rightarrow> Some 1
           | plan \<Rightarrow>
               (case boot_store show_err plan (fl_cacheDir fl) env fs of
                  None \<Rightarrow> Some 1
                | Some w \<Rightarrow> exit_code ctx_done (new_server (fl_listen fl)) es)))"

subsection \<open>What a boot establishes\<close>

lemma boot_from_fetch_inv:
  "boot_from_fetch env bo retries cd fs = (fs', Inr s) \<Longrightarrow> store_inv s"
proof (cases "first_delivery env bo (nat (retries + 1)) 0")
  case None
  assume "boot_from_fetch env bo retries cd fs = (fs', Inr s)"
  then show ?thesis
    using boot_from_fetch_None [OF None, of cd fs] load_file_valid [of fs "cache_path cd"]
    by (cases "load_cache fs cd") (auto simp: load_cache_def)
next
  case (Some j)
  assume boot: "boot_from_fetch env bo retries cd fs = (fs', Inr s)"
  obtain raw b where "be_fetch env j = Inr raw" "parse_and_validate raw = Inr b"
    using first_delivery_delivers [OF Some] by (auto simp: delivers_raw)
  then show ?thesis
    using boot_from_fetch_Some [OF Some] boot parse_and_validate_valid by auto
qed

lemma boot_store_inv [comp_inv]: "boot_store show_err plan cd env fs = Some w \<Longrightarrow> store_inv (snd w)"
  by (auto simp: boot_store_def new_store_inv boot_from_fetch_inv
      split: boot_plan.splits sum.splits prod.splits)

lemma not_NoLister: "l \<noteq> NoLister \<longleftrightarrow> l = InformerLister"
  by (cases l) simp_all

text \<open>A call of \<open>Targets\<close> over a bundle blocks exactly when it starts a lister, for a k8s probe,
  and the informer has not synced.\<close>

definition lister_starts :: "k8s_env \<Rightarrow> dns_record list \<Rightarrow> lister_cell \<Rightarrow> bool" where
  "lister_starts env records cell \<longleftrightarrow>
     lz_lister cell = NoLister \<and> needs_k8s_probe records \<and> in_cluster_ok env \<and> clientset_ok env"

lemma live_targets_Blocked:
  "live_targets env (Some b) cell = Blocked \<longleftrightarrow> lister_starts env (b_Records b) cell \<and> cache_sync env = Unsynced"
  by (auto simp: live_targets_def ensure_k8s_lister_def new_k8s_lister_def lister_starts_def
      split: option.splits sum.splits cache_wait.splits)

lemma live_targets_TargetsD:
  assumes "live_targets env (Some b) cell = Targets cell' m"
  shows "m = build_targets (b_Records b) (lz_lister cell') \<and>
    lz_lister cell' = (if lz_lister cell \<noteq> NoLister \<or> lister_starts env (b_Records b) cell \<and> cache_sync env = Synced
      then InformerLister else NoLister)"
  using assms by (cases "lz_lister cell"; auto simp: live_targets_def ensure_k8s_lister_def new_k8s_lister_def
      lister_starts_def split: option.splits sum.splits cache_wait.splits if_splits)

lemma live_targets_total: "live_targets env (Some b) cell \<noteq> NilBundle"
  by (simp add: live_targets_def split: option.splits)

lemma live_targets_exhaust:
  obtains "live_targets env (Some b) cell = Blocked"
    | cell' m where "live_targets env (Some b) cell = Targets cell' m"
  using live_targets_total [of env b cell] by (cases "live_targets env (Some b) cell") auto

subsection \<open>Properties\<close>

text \<open>The EndpointSlice lister is there after a call of \<open>Targets\<close> exactly when it was there
  before, or the bundle has a k8s probe and its start works: without such a probe the cluster API
  is never contacted, a failed start leaves none and is retried, and a lister once started is kept.\<close>

theorem lister_only_for_k8s_probes:
  assumes "live_targets env (Some b) cell = Targets cell' m"
  shows "lz_lister cell' = InformerLister \<longleftrightarrow> lz_lister cell = InformerLister \<or>
     (\<exists>r \<in> set (b_Records b). \<exists>lc \<in> set (rec_LocalChecks r). lc_Probe lc = ''k8s'') \<and>
     in_cluster_ok env \<and> clientset_ok env \<and> cache_sync env = Synced"
  using live_targets_TargetsD [OF assms]
  by (cases "lz_lister cell") (auto simp: lister_starts_def needs_k8s_probe_def list_ex_iff)

theorem lister_only_for_k8s_probes_witness:
  "\<exists>cell'. live_targets \<lparr>in_cluster_ok = True, clientset_ok = True, cache_sync = Synced\<rparr>
      (Some (zone_bundle 30 [])) fresh_cell = Targets cell' Map.empty \<and> lz_lister cell' \<noteq> InformerLister"
proof -
  let ?env = "\<lparr>in_cluster_ok = True, clientset_ok = True, cache_sync = Synced\<rparr>"
  have "live_targets ?env (Some (zone_bundle 30 [])) fresh_cell =
      Targets (fresh_cell\<lparr>lz_skipLogged := True\<rparr>) Map.empty"
    by (simp add: live_targets_def ensure_k8s_lister_def needs_k8s_probe_def fresh_cell_def zone_bundle_def
        fun_eq_iff build_targets_def build_configs_def)
  from this lister_only_for_k8s_probes [OF this] show ?thesis
    by (auto simp: fresh_cell_def zone_bundle_def)
qed

text \<open>The process boots in fetch mode exactly when it is asked for the responder mode with a
  cache directory, a URL, a cluster and a token from the environment or else the flag; in file
  mode exactly when there is no URL. A missing cache directory is fatal in either mode, also
  with \<open>--bundle\<close> alone.\<close>

theorem plan_boot_contract:
  "(plan_boot fl envToken = FetchMode c \<longleftrightarrow>
      \<not> fl_version fl \<and> fl_mode fl = ''responder'' \<and> fl_cacheDir fl \<noteq> [] \<and> fl_zeusURL fl \<noteq> [] \<and>
      fl_cluster fl \<noteq> [] \<and> (if envToken \<noteq> [] then envToken else fl_token fl) \<noteq> [] \<and>
      c = new_client (fl_zeusURL fl) (fl_cluster fl) (if envToken \<noteq> [] then envToken else fl_token fl)) \<and>
   (plan_boot fl envToken = FileMode warn path \<longleftrightarrow>
      \<not> fl_version fl \<and> fl_mode fl = ''responder'' \<and> fl_cacheDir fl \<noteq> [] \<and> fl_zeusURL fl = [] \<and>
      path = fl_bundle fl \<and> warn = (path = [])) \<and>
   plan_boot (default_flags\<lparr>fl_bundle := p\<rparr>) envToken = Fatal NoCacheDir"
  by (auto simp: plan_boot_def default_flags_def Let_def)

text \<open>A configuration that \<open>main\<close> accepts.\<close>

definition runnable :: "flags \<Rightarrow> string \<Rightarrow> bool" where
  "runnable fl envToken \<longleftrightarrow> fl_mode fl = ''responder'' \<and> fl_cacheDir fl \<noteq> [] \<and>
     (fl_zeusURL fl = [] \<or> fl_cluster fl \<noteq> [] \<and> (envToken \<noteq> [] \<or> fl_token fl \<noteq> []))"

definition booted :: "(client_error \<Rightarrow> string) \<Rightarrow> flags \<Rightarrow> string \<Rightarrow> start_env \<Rightarrow> fs \<Rightarrow> bool" where
  "booted show_err fl envToken env fs \<longleftrightarrow>
     boot_store show_err (plan_boot fl envToken) (fl_cacheDir fl) env fs \<noteq> None"

lemma plan_runnable:
  "runnable fl envToken \<Longrightarrow> \<not> fl_version fl \<Longrightarrow>
   plan_boot fl envToken = FileMode (fl_bundle fl = []) (fl_bundle fl) \<or> (\<exists>c. plan_boot fl envToken = FetchMode c)"
  by (auto simp: plan_boot_def runnable_def Let_def)

lemma plan_not_runnable:
  "\<not> runnable fl envToken \<Longrightarrow> \<not> fl_version fl \<Longrightarrow> \<exists>e. plan_boot fl envToken = Fatal e"
  by (auto simp: plan_boot_def runnable_def Let_def)

lemma main_exit_parsed:
  assumes "parse_args default_flags args = Inr (fl, rest)"
  shows "main_exit show_err args envToken env fs ctx_done es =
    (if fl_version fl then Some 0
     else if \<not> runnable fl envToken \<or> \<not> booted show_err fl envToken env fs then Some 1
     else exit_code ctx_done (new_server (fl_listen fl)) es)"
proof (cases "fl_version fl \<or> \<not> runnable fl envToken")
  case True
  then show ?thesis
    using assms plan_not_runnable [of fl envToken] by (auto simp: main_exit_def plan_boot_def)
next
  case False
  then show ?thesis
    using assms plan_runnable [of fl envToken]
    by (auto simp: main_exit_def booted_def split: option.splits)
qed

text \<open>C25. The exit status says what happened. The process keeps serving exactly when its arguments
  parse, ask for no version, name a runnable configuration and a bundle could be booted, until the
  server ends; it exits with 2 exactly on a malformed command line, and with 0 or 1 otherwise,
  where 1 means a refused configuration, a failed boot, or a listener that failed while the context
  was live.\<close>

theorem main_exit_contract:
  "(main_exit show_err args envToken env fs ctx_done es = None \<longleftrightarrow>
      (\<exists>fl rest. parse_args default_flags args = Inr (fl, rest) \<and> \<not> fl_version fl \<and>
         runnable fl envToken \<and> booted show_err fl envToken env fs) \<and> es = []) \<and>
   (main_exit show_err args envToken env fs ctx_done es = Some 2 \<longleftrightarrow>
      (\<exists>e. parse_args default_flags args = Inl e \<and> e \<noteq> HelpRequested)) \<and>
   main_exit show_err args envToken env fs ctx_done es \<in> {None, Some 0, Some 1, Some 2} \<and>
   (main_exit show_err args envToken env fs ctx_done es = Some 1 \<longleftrightarrow>
      (\<exists>fl rest. parse_args default_flags args = Inr (fl, rest) \<and> \<not> fl_version fl \<and>
         (if runnable fl envToken \<and> booted show_err fl envToken env fs
          then \<not> ctx_done \<and> (\<exists>l e es'. es = ListenerEnds l (Some e) # es') else True)))"
proof (cases "parse_args default_flags args")
  case (Inl e)
  then show ?thesis by (simp add: main_exit_def flag_exit_def)
next
  case (Inr x)
  obtain fl rest where x: "x = (fl, rest)" by (cases x)
  have code: "exit_code ctx_done srv es = None \<longleftrightarrow> es = []" "exit_code ctx_done srv es \<in> {None, Some 0, Some 1}"
    "exit_code ctx_done srv es = Some 1 \<longleftrightarrow> \<not> ctx_done \<and> (\<exists>l e es'. es = ListenerEnds l (Some e) # es')" for srv
    by (cases es; auto simp: exit_code_def server_run_def run_named_def split: server_event.splits option.splits)+
  then have "exit_code ctx_done srv es \<noteq> Some 2" "exit_code ctx_done srv es \<in> {None, Some 0, Some 1, Some 2}" for srv
    by fastforce+
  then show ?thesis
    unfolding main_exit_parsed [OF Inr [unfolded x]] using Inr by (auto simp: x code(1,3) simp del: One_nat_def)
qed

end
