(* ===== verification/GoTime.thy ===== *)
theory GoTime
  imports Prelude
begin

text \<open>
  Formatting of an instant as \<open>t.UTC().Format(time.RFC3339Nano)\<close>: the civil date of the
  proleptic Gregorian calendar by era arithmetic on days, two-digit fields, and the nanoseconds
  without trailing zeros. Instants count nanoseconds from 1970; years stay within four digits
  for every clock the program meets.
\<close>

definition pad_left :: "nat \<Rightarrow> string \<Rightarrow> string" where
  "pad_left n s = replicate (n - length s) (CHR ''0'') @ s"

definition dec_padded :: "nat \<Rightarrow> int \<Rightarrow> string" where
  "dec_padded n i = pad_left n (itoa i)"

text \<open>Year, month and day of a day number; years of the calculation begin in March.\<close>

definition civil_of_days :: "int \<Rightarrow> int \<times> int \<times> int" where
  "civil_of_days days =
     (let z = days + 719468; era = z div 146097; doe = z mod 146097;
          yoe = (doe - doe div 1460 + doe div 36524 - doe div 146096) div 365;
          doy = doe - (365 * yoe + yoe div 4 - yoe div 100);
          mp = (5 * doy + 2) div 153;
          d = doy - (153 * mp + 2) div 5 + 1;
          m = (if mp < 10 then mp + 3 else mp - 9) in
      (yoe + era * 400 + (if m \<le> 2 then 1 else 0), m, d))"

definition fraction :: "int \<Rightarrow> string" where
  "fraction ns = (if ns = 0 then [] else CHR ''.'' # trim_right (dec_padded 9 ns) (CHR ''0''))"

definition rfc3339nano :: "go_time \<Rightarrow> string" where
  "rfc3339nano t =
     (let s = t div 1000000000; ns = t mod 1000000000; sod = s mod 86400 in
      case civil_of_days (s div 86400) of (y, m, d) \<Rightarrow>
        dec_padded 4 y @ ''-'' @ dec_padded 2 m @ ''-'' @ dec_padded 2 d @ ''T'' @
        dec_padded 2 (sod div 3600) @ '':'' @ dec_padded 2 (sod mod 3600 div 60) @ '':'' @
        dec_padded 2 (sod mod 60) @ fraction ns @ ''Z'')"

text \<open>Fixed points of the calendar: the epoch, a leap day, the zero time of Go, and a value
  with a fraction.\<close>

lemma civil_of_days_samples:
  "civil_of_days 0 = (1970, 1, 1)" "civil_of_days 11016 = (2000, 2, 29)"
  "civil_of_days (- 719162) = (1, 1, 1)" "civil_of_days 20742 = (2026, 10, 16)"
  by code_simp+

lemma rfc3339nano_epoch: "rfc3339nano 0 = ''1970-01-01T00:00:00Z''"
proof -
  have "rfc3339nano 0 = dec_padded 4 1970 @ ''-'' @ dec_padded 2 1 @ ''-'' @ dec_padded 2 1 @ ''T'' @
      dec_padded 2 0 @ '':'' @ dec_padded 2 0 @ '':'' @ dec_padded 2 0 @ ''Z''"
    by (simp only: rfc3339nano_def Let_def div_0 mod_0 civil_of_days_samples prod.case fraction_def)
      simp
  moreover have "itoa 1970 = ''1970''" "itoa 1 = ''1''" "itoa 0 = ''0''"
    by (simp_all add: itoa_def dec_digits.simps digit_char_def) (simp_all add: char_of_def bit_0)
  ultimately show ?thesis by (simp add: dec_padded_def pad_left_def)
qed

end
