(* ===== verification/Reporter.thy ===== *)
theory Reporter
  imports Client GoTime Machine
begin

text \<open>
  The health reporter of \<^verbatim>\<open>internal/remote/reporter.go\<close>. Its operations are functions:
  queueing a transition, taking the queue, and the retry loop of one round with the network,
  the shutdown checks and the waits as an environment. Goroutines that notify and the sender
  loop interleave: they are the step relation \<open>rep_step\<close> over the reporter's shared state,
  one step per section that the mutex or the channel makes atomic, and one for each case of
  the loop's select (tick, wake-up, context done).
\<close>

definition maxHealthReportRetries :: nat where "maxHealthReportRetries = 5"

subsection \<open>Operations\<close>

text \<open>\<open>wake\<close> is a channel of capacity one, nil before \<open>ensureInit\<close>: \<open>Some True\<close>
  holds a signal. \<open>pending\<close> is a slice that may be nil.\<close>

record reporter =
  rp_wake :: "bool option"
  rp_pending :: "transition list option"
  rp_initialized :: bool

definition new_reporter :: reporter where
  "new_reporter = \<lparr>rp_wake = None, rp_pending = None, rp_initialized = False\<rparr>"

definition ensure_init :: "reporter \<Rightarrow> reporter" where
  "ensure_init r = (if \<not> rp_initialized r then r\<lparr>rp_wake := Some False, rp_initialized := True\<rparr> else r)"

definition slice_append :: "'a list option \<Rightarrow> 'a \<Rightarrow> 'a list option" where
  "slice_append s x = Some ((case s of None \<Rightarrow> [] | Some xs \<Rightarrow> xs) @ [x])"

definition mk_transition :: "string \<Rightarrow> string \<Rightarrow> go_time \<Rightarrow> transition" where
  "mk_transition targetKey health at =
     \<lparr>tr_TargetKey = targetKey, tr_State = health, tr_At = rfc3339nano at\<rparr>"

definition queue_transition :: "transition \<Rightarrow> reporter \<Rightarrow> reporter" where
  "queue_transition t r = r\<lparr>rp_pending := slice_append (rp_pending r) t\<rparr>"

text \<open>The send on \<open>wake\<close> that does not block: a full channel stays full, a nil one takes
  nothing.\<close>

definition signal_wake :: "reporter \<Rightarrow> reporter" where
  "signal_wake r = r\<lparr>rp_wake := map_option (\<lambda>_. True) (rp_wake r)\<rparr>"

definition notify_transition :: "string \<Rightarrow> string \<Rightarrow> go_time \<Rightarrow> reporter \<Rightarrow> reporter" where
  "notify_transition targetKey health at r =
     signal_wake (queue_transition (mk_transition targetKey health at) (ensure_init r))"

definition take_pending :: "reporter \<Rightarrow> transition list option \<times> reporter" where
  "take_pending r = (rp_pending r, r\<lparr>rp_pending := None\<rparr>)"

definition make_report ::
  "client \<Rightarrow> (string \<rightharpoonup> string) option \<Rightarrow> transition list option \<Rightarrow> health_report" where
  "make_report c states transitions =
     \<lparr>hr_Cluster = c_Cluster c, hr_ProtocolVersion = HealthProtocolVersion,
      hr_Transitions = transitions, hr_States = states\<rparr>"

text \<open>The environment of a round: the network at each send, whether the context is done after
  a failed send, and whether it ends the wait before the next.\<close>

record round_env =
  ro_net :: "nat \<Rightarrow> http_network"
  ro_done :: "nat \<Rightarrow> bool"
  ro_wait_done :: "nat \<Rightarrow> bool"

datatype round_end = RoundDelivered | RoundStopped | RoundGivenUp nat

text \<open>The retry loop after \<open>attempt\<close> failures: how the round ends (a round given up carries
  the number of attempts the code logs), the sends made and the time waited.\<close>

function send_loop ::
  "client \<Rightarrow> (int \<Rightarrow> duration) option \<Rightarrow> round_env \<Rightarrow> health_report \<Rightarrow> nat \<Rightarrow> nat \<Rightarrow> duration \<Rightarrow>
     round_end \<times> nat \<times> duration" where
  "send_loop c backoff env report attempt sends waited =
     (case report_health c (ro_net env sends) report of
        None \<Rightarrow> (RoundDelivered, Suc sends, waited)
      | Some e \<Rightarrow>
          (if ro_done env sends then (RoundStopped, Suc sends, waited)
           else
             (let attempt' = attempt + 1 in
              if maxHealthReportRetries < attempt'
              then (RoundGivenUp (attempt' - 1), Suc sends, waited)
              else
                (let wait = (case backoff of None \<Rightarrow> 0 | Some f \<Rightarrow> f (int attempt')) in
                 if ro_wait_done env sends then (RoundStopped, Suc sends, waited)
                 else send_loop c backoff env report attempt' (Suc sends) (waited + wait)))))"
  by pat_completeness auto

termination
  by (relation "measure (\<lambda>(c, backoff, env, report, attempt, sends, waited).
        Suc maxHealthReportRetries - attempt)") (auto simp: maxHealthReportRetries_def)

declare send_loop.simps [simp del]

definition send_now ::
  "client \<Rightarrow> (int \<Rightarrow> duration) option \<Rightarrow> (string \<rightharpoonup> string) option \<Rightarrow> round_env \<Rightarrow> reporter \<Rightarrow>
     reporter \<times> health_report \<times> round_end \<times> nat \<times> duration" where
  "send_now c backoff states env r =
     (case take_pending r of (transitions, r') \<Rightarrow>
        (let report = make_report c states transitions in
         (r', report, send_loop c backoff env report 0 0 0)))"

definition heartbeat_interval :: "duration \<Rightarrow> duration" where
  "heartbeat_interval configured = (if configured \<le> 0 then 30 * second else configured)"

subsection \<open>The retry loop\<close>

definition send_ok :: "client \<Rightarrow> round_env \<Rightarrow> health_report \<Rightarrow> nat \<Rightarrow> bool" where
  "send_ok c env report k \<longleftrightarrow> report_health c (ro_net env k) report = None"

definition wait_of :: "(int \<Rightarrow> duration) option \<Rightarrow> nat \<Rightarrow> duration" where
  "wait_of backoff n = (case backoff of None \<Rightarrow> 0 | Some f \<Rightarrow> f (int n))"

fun total_wait :: "(int \<Rightarrow> duration) option \<Rightarrow> nat \<Rightarrow> duration" where
  "total_wait backoff 0 = 0"
| "total_wait backoff (Suc n) = total_wait backoff n + wait_of backoff (Suc n)"

text \<open>The loop in lockstep: it has made \<open>n\<close> sends, all failed, and waited for each.\<close>

lemma send_loop_step:
  "send_loop c backoff env report n n (total_wait backoff n) =
     (if send_ok c env report n then (RoundDelivered, Suc n, total_wait backoff n)
      else if ro_done env n then (RoundStopped, Suc n, total_wait backoff n)
      else if 5 \<le> n then (RoundGivenUp n, Suc n, total_wait backoff n)
      else if ro_wait_done env n then (RoundStopped, Suc n, total_wait backoff n)
      else send_loop c backoff env report (Suc n) (Suc n) (total_wait backoff (Suc n)))"
  by (subst send_loop.simps)
    (auto simp: send_ok_def maxHealthReportRetries_def wait_of_def Let_def split: option.splits)

lemma send_loop_bounded:
  "n \<le> 5 \<Longrightarrow> \<exists>k e. n \<le> k \<and> k \<le> 5 \<and>
     send_loop c backoff env report n n (total_wait backoff n) = (e, Suc k, total_wait backoff k) \<and>
     (\<forall>j. n \<le> j \<and> j < k \<longrightarrow> \<not> send_ok c env report j) \<and>
     (case e of RoundDelivered \<Rightarrow> send_ok c env report k
      | RoundStopped \<Rightarrow> \<not> send_ok c env report k \<and> (ro_done env k \<or> ro_wait_done env k)
      | RoundGivenUp a \<Rightarrow> \<not> send_ok c env report k \<and> k = 5 \<and> a = 5)"
proof (induction "5 - n" arbitrary: n)
  case 0
  then have "n = 5" by simp
  then show ?case by (subst send_loop_step) (intro exI [of _ 5], auto)
next
  case (Suc m)
  show ?case
  proof (cases "send_ok c env report n \<or> ro_done env n \<or> ro_wait_done env n")
    case True
    with Suc show ?thesis by (subst send_loop_step) (intro exI [of _ n], auto)
  next
    case False
    with Suc obtain k e where "Suc n \<le> k" "k \<le> 5"
      "send_loop c backoff env report (Suc n) (Suc n) (total_wait backoff (Suc n)) =
        (e, Suc k, total_wait backoff k)"
      "\<forall>j. Suc n \<le> j \<and> j < k \<longrightarrow> \<not> send_ok c env report j"
      "case e of RoundDelivered \<Rightarrow> send_ok c env report k
       | RoundStopped \<Rightarrow> \<not> send_ok c env report k \<and> (ro_done env k \<or> ro_wait_done env k)
       | RoundGivenUp a \<Rightarrow> \<not> send_ok c env report k \<and> k = 5 \<and> a = 5"
      using Suc.hyps(1) [of "Suc n"] by fastforce
    moreover from this False have "\<forall>j. n \<le> j \<and> j < k \<longrightarrow> \<not> send_ok c env report j"
      by (metis Suc_leI le_neq_implies_less)
    ultimately show ?thesis
      using False Suc.hyps(2) by (subst send_loop_step) (intro exI [of _ k] exI [of _ e], auto)
  qed
qed

subsection \<open>Interleaving\<close>

text \<open>
  The shared state with the goroutines' control: how many notifiers stand between queueing and
  signalling, and where the sender loop is. \<open>RpSending\<close> holds the report in flight. Two
  ghost fields record the history: what was notified, in order, and the rounds that ended.
\<close>

datatype phase = RpIdle | RpDraining | RpSending health_report | RpStopped

record rep_sys =
  rs_rep :: reporter
  rs_signals :: nat
  rs_phase :: phase
  rs_notified :: "transition list"
  rs_rounds :: "(transition list \<times> round_end) list"

definition start_reporter :: rep_sys where
  "start_reporter = \<lparr>rs_rep = ensure_init new_reporter, rs_signals = 0, rs_phase = RpIdle,
     rs_notified = [], rs_rounds = []\<rparr>"

definition opt_list :: "'a list option \<Rightarrow> 'a list" where
  "opt_list s = (case s of None \<Rightarrow> [] | Some xs \<Rightarrow> xs)"

inductive rep_step :: "client \<Rightarrow> (int \<Rightarrow> duration) option \<Rightarrow> rep_sys \<Rightarrow> rep_sys \<Rightarrow> bool"
  for c :: client and backoff :: "(int \<Rightarrow> duration) option" where
  Queue: "rep_step c backoff s
    (s\<lparr>rs_rep := queue_transition (mk_transition key health at) (rs_rep s),
       rs_signals := Suc (rs_signals s),
       rs_notified := rs_notified s @ [mk_transition key health at]\<rparr>)"
| Signal: "rs_signals s = Suc n \<Longrightarrow>
    rep_step c backoff s (s\<lparr>rs_rep := signal_wake (rs_rep s), rs_signals := n\<rparr>)"
| Tick: "rs_phase s = RpIdle \<Longrightarrow> rep_step c backoff s (s\<lparr>rs_phase := RpDraining\<rparr>)"
| Wake: "rs_phase s = RpIdle \<Longrightarrow> rp_wake (rs_rep s) = Some True \<Longrightarrow>
    rep_step c backoff s (s\<lparr>rs_rep := (rs_rep s)\<lparr>rp_wake := Some False\<rparr>, rs_phase := RpDraining\<rparr>)"
| Done: "rs_phase s = RpIdle \<Longrightarrow> rep_step c backoff s (s\<lparr>rs_phase := RpStopped\<rparr>)"
| Drain: "rs_phase s = RpDraining \<Longrightarrow> take_pending (rs_rep s) = (ts, r') \<Longrightarrow>
    rep_step c backoff s (s\<lparr>rs_rep := r', rs_phase := RpSending (make_report c states ts)\<rparr>)"
| Finish: "rs_phase s = RpSending report \<Longrightarrow>
    send_loop c backoff env report 0 0 0 = (e, sends, waited) \<Longrightarrow>
    rep_step c backoff s (s\<lparr>rs_phase := RpIdle,
      rs_rounds := rs_rounds s @ [(opt_list (hr_Transitions report), e)]\<rparr>)"

inductive_cases rep_stepE: "rep_step c backoff s t"

inductive rep_reachable :: "client \<Rightarrow> (int \<Rightarrow> duration) option \<Rightarrow> rep_sys \<Rightarrow> bool"
  for c :: client and backoff :: "(int \<Rightarrow> duration) option" where
  RepStart: "rep_reachable c backoff start_reporter"
| RepStep: "rep_reachable c backoff s \<Longrightarrow> rep_step c backoff s t \<Longrightarrow> rep_reachable c backoff t"

text \<open>The transitions in flight, and the invariant: nothing is lost or reordered, and a queue
  that is not empty has a wake-up on its way.\<close>

fun in_flight :: "phase \<Rightarrow> transition list" where
  "in_flight (RpSending report) = opt_list (hr_Transitions report)"
| "in_flight _ = []"

definition rep_inv :: "rep_sys \<Rightarrow> bool" where
  "rep_inv s \<longleftrightarrow>
     concat (map fst (rs_rounds s)) @ in_flight (rs_phase s) @ opt_list (rp_pending (rs_rep s)) = rs_notified s \<and>
     rp_initialized (rs_rep s) \<and> rp_wake (rs_rep s) \<noteq> None \<and>
     (rp_pending (rs_rep s) = None \<or> rp_wake (rs_rep s) = Some True \<or> 0 < rs_signals s \<or>
      rs_phase s = RpDraining)"

lemmas rep_defs = queue_transition_def signal_wake_def take_pending_def slice_append_def opt_list_def
  make_report_def

lemma start_reporter_inv [comp_inv]: "rep_inv start_reporter"
  by (simp add: rep_inv_def start_reporter_def ensure_init_def new_reporter_def opt_list_def)

lemma rep_step_inv [comp_inv]: "rep_step c backoff s t \<Longrightarrow> rep_inv s \<Longrightarrow> rep_inv t"
  by (induction rule: rep_step.induct)
    (auto simp: rep_inv_def rep_defs split: option.splits)

lemma rep_reachable_inv: "rep_reachable c backoff s \<Longrightarrow> rep_inv s"
  by (induction rule: rep_reachable.induct) (blast intro: comp_inv)+

text \<open>A sequential notification is the two steps of a notifier.\<close>

lemma notify_is_two_steps:
  assumes "rp_initialized (rs_rep s)" and "rs_signals s = 0"
  shows "\<exists>u. rep_step c backoff s u \<and> rep_step c backoff u
    (s\<lparr>rs_rep := notify_transition key health at (rs_rep s),
       rs_notified := rs_notified s @ [mk_transition key health at]\<rparr>)"
proof (intro exI conjI)
  let ?u = "s\<lparr>rs_rep := queue_transition (mk_transition key health at) (rs_rep s),
    rs_signals := Suc 0, rs_notified := rs_notified s @ [mk_transition key health at]\<rparr>"
  show "rep_step c backoff s ?u" using Queue [of c backoff s key health at] assms(2) by simp
  have "?u\<lparr>rs_rep := signal_wake (rs_rep ?u), rs_signals := 0\<rparr> =
      s\<lparr>rs_rep := notify_transition key health at (rs_rep s),
        rs_notified := rs_notified s @ [mk_transition key health at]\<rparr>"
    using assms by (simp add: notify_transition_def ensure_init_def)
  with Signal [of ?u 0 c backoff]
  show "rep_step c backoff ?u (s\<lparr>rs_rep := notify_transition key health at (rs_rep s),
      rs_notified := rs_notified s @ [mk_transition key health at]\<rparr>)" by simp
qed

subsection \<open>Properties\<close>

text \<open>In every interleaving of notifiers and sender, each notified transition is in exactly
  one place, in the order of notification: in a round that ended, in the report in flight, or in
  the queue. A round loses its transitions only when it is given up or the program stops.\<close>

theorem transitions_conserved_in_order:
  assumes "rep_reachable c backoff s"
  shows "rs_notified s = concat (map fst (rs_rounds s)) @ in_flight (rs_phase s) @
    opt_list (rp_pending (rs_rep s))"
  using rep_reachable_inv [OF assms] by (simp add: rep_inv_def)

text \<open>A run: one transition queued and signalled, the loop woken.\<close>

definition queued_once :: rep_sys where
  "queued_once = start_reporter\<lparr>rs_rep := notify_transition ''k'' HealthHealthy 0 (ensure_init new_reporter),
     rs_notified := [mk_transition ''k'' HealthHealthy 0]\<rparr>"

lemma queued_once_reachable: "rep_reachable c backoff queued_once"
proof -
  obtain u where "rep_step c backoff start_reporter u" "rep_step c backoff u queued_once"
    using notify_is_two_steps [of start_reporter c backoff "''k''" HealthHealthy 0]
    by (auto simp: start_reporter_def queued_once_def ensure_init_def new_reporter_def)
  then show ?thesis by (blast intro: rep_reachable.intros)
qed

theorem transitions_conserved_in_order_witness:
  "rs_notified queued_once = opt_list (rp_pending (rs_rep queued_once)) \<and>
   rs_notified queued_once \<noteq> []"
  using transitions_conserved_in_order [OF queued_once_reachable]
  by (simp add: queued_once_def start_reporter_def) (metis list.distinct(1))

text \<open>C10. No wake-up is lost: whenever the sender loop is idle, the queue is not empty and every
  notifier has returned, the wake channel holds a signal, so the loop can take the queue at
  once, without waiting for the heartbeat.\<close>

theorem no_lost_wakeup:
  assumes "rep_reachable c backoff s" and "rs_phase s = RpIdle" and "rs_signals s = 0"
    and "rp_pending (rs_rep s) \<noteq> None"
  shows "rp_wake (rs_rep s) = Some True \<and>
    (\<exists>t u. rep_step c backoff s t \<and> rep_step c backoff t u \<and>
       in_flight (rs_phase u) = opt_list (rp_pending (rs_rep s)) \<and> rp_pending (rs_rep u) = None)"
proof -
  have wake: "rp_wake (rs_rep s) = Some True"
    using rep_reachable_inv [OF assms(1)] assms(2-4) by (auto simp: rep_inv_def)
  let ?t = "s\<lparr>rs_rep := (rs_rep s)\<lparr>rp_wake := Some False\<rparr>, rs_phase := RpDraining\<rparr>"
  let ?u = "?t\<lparr>rs_rep := (rs_rep ?t)\<lparr>rp_pending := None\<rparr>,
    rs_phase := RpSending (make_report c None (rp_pending (rs_rep s)))\<rparr>"
  have "rep_step c backoff s ?t" using Wake [OF assms(2) wake] .
  moreover have "rep_step c backoff ?t ?u"
    by (rule Drain) (simp_all add: take_pending_def)
  ultimately show ?thesis
    using wake by (intro conjI exI [of _ ?t] exI [of _ ?u]) (simp_all add: make_report_def)
qed

theorem no_lost_wakeup_witness:
  "rp_wake (rs_rep queued_once) = Some True"
  using no_lost_wakeup [OF queued_once_reachable]
  by (simp add: queued_once_def start_reporter_def notify_transition_def rep_defs)

text \<open>C29. One round makes at most six sends and always ends: delivered by its first accepted
  send, stopped by a shutdown seen between sends, or given up after six failed sends, for which
  the log counts five. With the program's delays it waits at most 150 seconds.\<close>

theorem send_round_contract:
  assumes "backoff = Some (exponential_backoff healthReportRetryBase healthReportRetryCeil)"
  shows "\<exists>k e waited. k \<le> 5 \<and>
    send_loop c backoff env report 0 0 0 = (e, Suc k, waited) \<and>
    0 \<le> waited \<and> waited \<le> 150 * second \<and>
    (\<forall>j < k. report_health c (ro_net env j) report \<noteq> None) \<and>
    (case e of RoundDelivered \<Rightarrow> report_health c (ro_net env k) report = None
     | RoundStopped \<Rightarrow> report_health c (ro_net env k) report \<noteq> None \<and> (ro_done env k \<or> ro_wait_done env k)
     | RoundGivenUp logged \<Rightarrow> report_health c (ro_net env k) report \<noteq> None \<and> k = 5 \<and> logged = 5)"
proof -
  have total: "total_wait backoff n = report_wait.total_delay n" for n
    by (induction n) (simp_all add: assms wait_of_def)
  have le: "report_wait.total_delay n \<le> 150 * second" if "n \<le> 5" for n
    using report_wait.total_delay_capped [of n] that by (simp add: tuning_defs)
  obtain k e where k: "k \<le> 5" "send_loop c backoff env report 0 0 0 = (e, Suc k, total_wait backoff k)"
    "\<forall>j < k. \<not> send_ok c env report j"
    "case e of RoundDelivered \<Rightarrow> send_ok c env report k
     | RoundStopped \<Rightarrow> \<not> send_ok c env report k \<and> (ro_done env k \<or> ro_wait_done env k)
     | RoundGivenUp a \<Rightarrow> \<not> send_ok c env report k \<and> k = 5 \<and> a = 5"
    using send_loop_bounded [of 0 c backoff env report] by auto
  have "0 \<le> report_wait.total_delay k" using report_wait.total_delay_nonneg [of k] k(1) by simp
  with k le [OF k(1)] show ?thesis
    by (intro exI [of _ k] exI [of _ e] exI [of _ "total_wait backoff k"])
      (auto simp: total send_ok_def split: round_end.splits)
qed

definition dead_env :: round_env where
  "dead_env = \<lparr>ro_net = (\<lambda>_. \<lparr>net_check = (\<lambda>_. None), net_do = (\<lambda>_. Inl ''refused'')\<rparr>),
     ro_done = (\<lambda>_. False), ro_wait_done = (\<lambda>_. False)\<rparr>"

definition dead_report :: health_report where
  "dead_report = make_report sample_client None None"

theorem send_round_contract_witness:
  "\<exists>waited. send_loop sample_client (Some (exponential_backoff healthReportRetryBase healthReportRetryCeil)) dead_env
     dead_report 0 0 0 = (RoundGivenUp 5, 6, waited) \<and> waited \<le> 150 * second"
proof -
  have fails: "report_health sample_client (ro_net dead_env j) dead_report \<noteq> None" for j
    by (simp add: dead_env_def report_health_def)
  obtain k e waited where r: "k \<le> 5" "waited \<le> 150 * second"
    "send_loop sample_client (Some (exponential_backoff healthReportRetryBase healthReportRetryCeil)) dead_env
      dead_report 0 0 0 = (e, Suc k, waited)"
    "case e of RoundDelivered \<Rightarrow> report_health sample_client (ro_net dead_env k) dead_report = None
     | RoundStopped \<Rightarrow> ro_done dead_env k \<or> ro_wait_done dead_env k
     | RoundGivenUp logged \<Rightarrow> k = 5 \<and> logged = 5"
    using send_round_contract [OF refl, of sample_client dead_env dead_report]
    by (elim exE conjE, simp split: round_end.splits)
  then have "e = RoundGivenUp 5 \<and> k = 5"
    using fails [of k] by (cases e) (simp_all add: dead_env_def)
  with r show ?thesis by auto
qed

text \<open>C30. The heartbeat of an idle machine writes null for the transitions, not an empty list,
  and sends every target checked so far, in the order of the keys, each with its own state as the
  machine holds it: healthy, unhealthy, or unknown, which is sent and not left out.\<close>

theorem heartbeat_report_body:
  assumes "rp_pending r = None" and "send_now c backoff (Some (States m)) env r = (r', report, rest)"
  shows "marshal_report report = JObj [(''cluster'', JStr (c_Cluster c)),
      (''protocolVersion'', JNum ''1''), (''transitions'', JNull),
      (''states'', JObj (map (\<lambda>k. (k, JStr (case State m k of Healthy \<Rightarrow> ''healthy''
         | Unhealthy \<Rightarrow> ''unhealthy'' | Unknown \<Rightarrow> ''unknown''))) (sorted_list_of_set (dom m))))]"
proof -
  have one: "itoa 1 = ''1''"
    by (simp add: itoa_def dec_digits.simps digit_char_def) (simp add: char_of_def bit_0)
  have dom: "dom (States m) = dom m" by (auto simp: States_def)
  have state: "the (States m k) = (case State m k of Healthy \<Rightarrow> ''healthy''
      | Unhealthy \<Rightarrow> ''unhealthy'' | Unknown \<Rightarrow> ''unknown'')"
    if "k \<in> set (sorted_list_of_set (dom m))" for k
  proof -
    have "k \<in> dom m" using that by (cases "finite (dom m)") auto
    then show ?thesis by (auto simp: States_def State_def health_names split: health.splits)
  qed
  have "report = make_report c (Some (States m)) None"
    using assms by (simp add: send_now_def take_pending_def Let_def)
  then show ?thesis
    using state
    by (auto simp: make_report_def marshal_report_def marshal_states_def HealthProtocolVersion_def one dom)
qed

theorem heartbeat_report_body_witness:
  "marshal_report (fst (snd (send_now sample_client None (Some (States (record_history ''k'' 3 2 [False, False]
       (record_history ''j'' 3 2 [True, True] new_machine)))) dead_env new_reporter))) =
     JObj [(''cluster'', JStr (c_Cluster sample_client)), (''protocolVersion'', JNum ''1''), (''transitions'', JNull),
       (''states'', JObj [(''j'', JStr ''healthy''), (''k'', JStr ''unknown'')])]"
proof -
  let ?m = "record_history ''k'' 3 2 [False, False] (record_history ''j'' 3 2 [True, True] new_machine)"
  have m: "dom ?m = {''j'', ''k''}" "State ?m ''j'' = Healthy" "State ?m ''k'' = Unknown"
    by (auto simp: record_result_def new_machine_def get_or_create_def step_target_def State_def Let_def)
  have "sorted_list_of_set {''j'', ''k''} = [''j'', ''k'']" by code_simp
  moreover obtain r' report rest where sent:
    "send_now sample_client None (Some (States ?m)) dead_env new_reporter = (r', report, rest)"
    by (rule prod_cases3)
  moreover have "rp_pending new_reporter = None" by (simp add: new_reporter_def)
  ultimately show ?thesis
    using heartbeat_report_body [OF _ sent] m by simp
qed

end
