(* ===== verification/System.thy ===== *)
theory System
  imports Startup Reporter
begin

text \<open>
  The running process: the components as \<^verbatim>\<open>cmd/zeus-gslb/main.go\<close> wires them, and its
  steps. In fetch mode the store is refetched, the checks runner ticks over the targets of the
  bundle in force, its transitions go to the reporter, which sends; in file mode the store is
  reloaded. In both modes queries are answered, with the checks machine as the evaluator's local
  health. Each step is atomic: a query, a pass or a report is one step. The exception is a pass that
  blocks in the start of the lister: it is begun, with its time and the bundle it read, and goes on
  when the wait ends; the checks goroutine does nothing else in between. \<open>sy_seen\<close> and
  \<open>sy_reports\<close> are ghost fields: the bundles that have been in force, and the transitions of the
  rounds made with how each round ended, as only a delivered one tells Zeus.
\<close>

record system =
  sy_client :: "client option"
  sy_world :: world
  sy_cell :: lister_cell
  sy_checks :: ChecksRunner.runner
  sy_waiting :: "(go_time \<times> decision_bundle) option"
  sy_eval :: evaluator
  sy_rep :: reporter
  sy_seen :: "decision_bundle list"
  sy_reports :: "(transition list \<times> round_end) list"

definition note_current :: "system \<Rightarrow> system" where
  "note_current s = (case Current (snd (sy_world s)) of
     None \<Rightarrow> s | Some b \<Rightarrow> s\<lparr>sy_seen := b # sy_seen s\<rparr>)"

definition start_system :: "boot_plan \<Rightarrow> world \<Rightarrow> system" where
  "start_system plan w = note_current
     \<lparr>sy_client = (case plan of FetchMode c \<Rightarrow> Some c | _ \<Rightarrow> None), sy_world = w, sy_cell = fresh_cell,
      sy_checks = \<lparr>rn_lastRun = Map.empty, rn_machine = new_machine, rn_notifies = True, rn_emitted = []\<rparr>,
      sy_waiting = None, sy_eval = new_evaluator, sy_rep = new_reporter, sy_seen = [], sy_reports = []\<rparr>"

subsection \<open>Steps\<close>

definition sys_refetch :: "client \<Rightarrow> refetch_env \<Rightarrow> system \<Rightarrow> system" where
  "sys_refetch c env s = note_current (s\<lparr>sy_world := refetch_and_apply c env (sy_world s)\<rparr>)"

definition sys_reload :: "interference \<Rightarrow> save_outcome \<Rightarrow> go_time \<Rightarrow> system \<Rightarrow> system" where
  "sys_reload itf oc now s = note_current (s\<lparr>sy_world := reload_if_changed itf oc now (sy_world s)\<rparr>)"

text \<open>The \<open>OnTransition\<close> callback: \<open>string(health)\<close> into the reporter.\<close>

definition transition_of :: "string \<times> health \<times> go_time \<Rightarrow> transition" where
  "transition_of x = (case x of (key, h, at) \<Rightarrow> mk_transition key (health_str h) at)"

fun notify_all :: "(string \<times> health \<times> go_time) list \<Rightarrow> reporter \<Rightarrow> reporter" where
  "notify_all [] r = r"
| "notify_all ((key, h, at) # xs) r = notify_all xs (notify_transition key (health_str h) at r)"

definition sys_tick ::
  "lister_cell \<Rightarrow> (string \<Rightarrow> network) \<Rightarrow> go_time \<Rightarrow> (string \<times> target) list \<Rightarrow> system \<Rightarrow> system" where
  "sys_tick cell' net now kts s =
     (let r' = run_once net now kts (sy_checks s);
          emitted = drop (length (rn_emitted (sy_checks s))) (rn_emitted r') in
      s\<lparr>sy_cell := cell', sy_checks := r', sy_rep := notify_all emitted (sy_rep s)\<rparr>)"

definition sys_query :: "dns_lib \<Rightarrow> go_time \<Rightarrow> dns_msg \<Rightarrow> system \<Rightarrow> system \<times> dns_msg" where
  "sys_query lib now req s =
     (case serve_dns lib (Some (machine_iface (rn_machine (sy_checks s)))) now
             (Current (snd (sy_world s))) req (sy_eval s) of
        (e', msg) \<Rightarrow> (s\<lparr>sy_eval := e'\<rparr>, msg))"

definition sys_report :: "client \<Rightarrow> round_env \<Rightarrow> system \<Rightarrow> system" where
  "sys_report c env s =
     (case send_now c (Some (exponential_backoff healthReportRetryBase healthReportRetryCeil))
             (Some (States (rn_machine (sy_checks s)))) env (ensure_init (sy_rep s)) of
        (r', report, ended, _) \<Rightarrow>
          s\<lparr>sy_rep := r', sy_reports := sy_reports s @ [(opt_list (hr_Transitions report), ended)]\<rparr>)"

text \<open>A tick visits the live targets in some order.\<close>

definition enumerates :: "(string \<times> target) list \<Rightarrow> (string \<rightharpoonup> target) \<Rightarrow> bool" where
  "enumerates kts m \<longleftrightarrow> distinct (map fst kts) \<and> map_of kts = m"

inductive sys_step :: "dns_lib \<Rightarrow> system \<Rightarrow> system \<Rightarrow> bool" for lib :: dns_lib where
  Refetch: "sy_client s = Some c \<Longrightarrow> sys_step lib s (sys_refetch c env s)"
| Reload: "sy_client s = None \<Longrightarrow> sys_step lib s (sys_reload itf oc now s)"
| CheckTick: "sy_client s = Some c \<Longrightarrow> sy_waiting s = None \<Longrightarrow>
    live_targets env (Current (snd (sy_world s))) (sy_cell s) = Targets cell' m \<Longrightarrow> enumerates kts m \<Longrightarrow>
    sys_step lib s (sys_tick cell' net now kts s)"
| CheckBlock: "sy_client s = Some c \<Longrightarrow> sy_waiting s = None \<Longrightarrow> Current (snd (sy_world s)) = Some b \<Longrightarrow>
    live_targets env (Some b) (sy_cell s) = Blocked \<Longrightarrow> sys_step lib s (s\<lparr>sy_waiting := Some (now, b)\<rparr>)"
| CheckResume: "sy_waiting s = Some (now, b) \<Longrightarrow> lister_starts env (b_Records b) (sy_cell s) \<Longrightarrow>
    live_targets env (Some b) (sy_cell s) = Targets cell' m \<Longrightarrow> enumerates kts m \<Longrightarrow>
    sys_step lib s ((sys_tick cell' net now kts s)\<lparr>sy_waiting := None\<rparr>)"
| Query: "sys_step lib s (fst (sys_query lib now req s))"
| Report: "sy_client s = Some c \<Longrightarrow> sys_step lib s (sys_report c env s)"

inductive_simps sys_step_simps: "sys_step lib s t"

inductive sys_reachable :: "dns_lib \<Rightarrow> boot_plan \<Rightarrow> system \<Rightarrow> bool"
  for lib :: dns_lib and plan :: boot_plan where
  SysStart: "boot_store show_err plan cd env fs = Some w \<Longrightarrow> sys_reachable lib plan (start_system plan w)"
| SysStep: "sys_reachable lib plan s \<Longrightarrow> sys_step lib s t \<Longrightarrow> sys_reachable lib plan t"

subsection \<open>The invariant\<close>

text \<open>The answers a record can be served with: its own, and those of its candidates.\<close>

definition listed :: "dns_record \<Rightarrow> answer set" where
  "listed r = set (rec_Answers r) \<union>
     (\<Union>c \<in> set (case rec_Candidates r of None \<Rightarrow> [] | Some cs \<Rightarrow> cs). set (cand_Answers c))"

definition from_seen :: "decision_bundle list \<Rightarrow> string \<Rightarrow> answer list \<Rightarrow> bool" where
  "from_seen seen f answers \<longleftrightarrow>
     (\<exists>b \<in> set seen. \<exists>r \<in> set (b_Records b). rec_FQDN r = f \<and> set answers \<subseteq> listed r)"

definition sys_inv :: "system \<Rightarrow> bool" where
  "sys_inv s \<longleftrightarrow> store_inv (snd (sy_world s)) \<and> machine_inv (rn_machine (sy_checks s)) \<and>
     the (Current (snd (sy_world s))) \<in> set (sy_seen s) \<and> (\<forall>b \<in> set (sy_seen s). valid_bundle b) \<and>
     (\<forall>f a. served_answers (ev_damper (sy_eval s)) f = Some a \<longrightarrow> from_seen (sy_seen s) f a) \<and>
     rn_notifies (sy_checks s) \<and>
     State (rn_machine (sy_checks s)) = replay (rn_emitted (sy_checks s)) \<and>
     concat (map fst (sy_reports s)) @ opt_list (rp_pending (sy_rep s)) = map transition_of (rn_emitted (sy_checks s))"

lemma from_seen_Cons: "from_seen seen f a \<Longrightarrow> from_seen (b # seen) f a"
  by (auto simp: from_seen_def)

lemma ensure_init_pending [simp]: "rp_pending (ensure_init r) = rp_pending r"
  by (simp add: ensure_init_def)

lemma notify_pending:
  "opt_list (rp_pending (notify_transition key h at r)) = opt_list (rp_pending r) @ [mk_transition key h at]"
  by (simp add: notify_transition_def rep_defs split: option.splits)

lemma notify_all_pending:
  "opt_list (rp_pending (notify_all xs r)) = opt_list (rp_pending r) @ map transition_of xs"
  by (induction xs r rule: notify_all.induct) (simp_all add: notify_pending transition_of_def)

lemma run_once_inv: "machine_inv (rn_machine r) \<Longrightarrow> machine_inv (rn_machine (run_once net now kts r))"
proof (induction kts arbitrary: r)
  case (Cons kt kts)
  then show ?case by (cases kt) (simp add: run_target_simps record_result_inv)
qed simp

lemma run_once_notifies: "rn_notifies (run_once net now kts r) = rn_notifies r"
  by (induction kts arbitrary: r) simp_all

text \<open>What a receiver of transitions in wire form holds of each target, starting from unknown.\<close>

definition received :: "transition list \<Rightarrow> string \<Rightarrow> string" where
  "received ts = foldl (\<lambda>st t. st(tr_TargetKey t := tr_State t)) (\<lambda>_. HealthUnknown) ts"

lemma received_transitions: "received (map transition_of evs) k = health_str (replay evs k)"
proof (induction evs rule: rev_induct)
  case (snoc e evs)
  then show ?case
    by (cases e) (simp add: received_def replay_def transition_of_def mk_transition_def)
qed (simp add: received_def replay_def)

lemma note_current_simps [simp]:
  "sy_client (note_current s) = sy_client s" "sy_world (note_current s) = sy_world s"
  "sy_cell (note_current s) = sy_cell s" "sy_checks (note_current s) = sy_checks s"
  "sy_waiting (note_current s) = sy_waiting s"
  "sy_eval (note_current s) = sy_eval s" "sy_rep (note_current s) = sy_rep s"
  "sy_reports (note_current s) = sy_reports s"
  by (simp_all add: note_current_def split: option.splits)

lemma note_current_seen:
  "store_inv (snd (sy_world s)) \<Longrightarrow>
   \<exists>b. Current (snd (sy_world s)) = Some b \<and> valid_bundle b \<and> sy_seen (note_current s) = b # sy_seen s"
  using st.current_valid [of "snd (sy_world s)"] by (auto simp: note_current_def)

text \<open>Replacing the world by one that still serves keeps the invariant.\<close>

lemma new_world_inv:
  assumes "sys_inv s" and "store_inv (snd w)"
  shows "sys_inv (note_current (s\<lparr>sy_world := w\<rparr>))"
proof -
  obtain b where b: "Current (snd w) = Some b" "valid_bundle b"
    "sy_seen (note_current (s\<lparr>sy_world := w\<rparr>)) = b # sy_seen s"
    using note_current_seen [of "s\<lparr>sy_world := w\<rparr>"] assms(2) by auto
  then show ?thesis
    using assms by (auto simp: sys_inv_def from_seen_Cons)
qed

lemma start_system_inv:
  assumes "store_inv (snd w)"
  shows "sys_inv (start_system plan w)"
proof -
  let ?s = "\<lparr>sy_client = (case plan of FetchMode c \<Rightarrow> Some c | _ \<Rightarrow> None), sy_world = w, sy_cell = fresh_cell,
      sy_checks = \<lparr>rn_lastRun = Map.empty, rn_machine = new_machine, rn_notifies = True, rn_emitted = []\<rparr>,
      sy_waiting = None, sy_eval = new_evaluator, sy_rep = new_reporter, sy_seen = [], sy_reports = []\<rparr>"
  show ?thesis
    using note_current_seen [of ?s] assms new_machine_inv
    by (auto simp: start_system_def sys_inv_def new_evaluator_def new_damper_def served_answers_def
        new_reporter_def opt_list_def replay_def State_def new_machine_def fun_eq_iff)
qed

lemma sys_tick_inv:
  assumes "sys_inv s" and "distinct (map fst kts)"
  shows "sys_inv (sys_tick cell' net now kts s)"
proof -
  have "rn_emitted (run_once net now kts (sy_checks s)) =
      rn_emitted (sy_checks s) @ concat (map (emits net now (sy_checks s)) kts)"
    using assms(2) by (rule run_once_emitted)
  then show ?thesis
    using assms(1) run_once_inv [of "sy_checks s" net now kts] run_once_tells [of "sy_checks s" net now kts]
    by (simp add: sys_inv_def sys_tick_def Let_def run_once_notifies notify_all_pending
        flip: append_assoc)
qed

text \<open>A query may change what the damper keeps for one name, to answers of the record looked up.\<close>

lemma proposed_listed:
  assumes "a \<in> proposed [(mach, now, r)] f"
  shows "rec_FQDN r = f \<and> set a \<subseteq> listed r"
  using assms set_taken [of mach r]
  by (auto simp: proposed_def fresh_answers_def listed_def) blast

lemma serve_dns_eval:
  "fst (serve_dns lib mach now (Some b) req e) = e \<or>
   (\<exists>r \<in> set (b_Records b). fst (serve_dns lib mach now (Some b) req e) = fst (resolve mach now r e))"
proof (cases "in_zone_question lib (Some b) req")
  case None
  then show ?thesis by (simp add: serve_dns_rejected)
next
  case (Some x)
  obtain b' zone name t where x: "x = (b', zone, name, t)" by (cases x)
  have "b' = b" using in_zone_question_current [OF Some [unfolded x]] by simp
  with Some [unfolded x] have serve: "fst (serve_dns lib mach now (Some b) req e) =
      (if t = TypeA then case lookup lib b name of None \<Rightarrow> e | Some r \<Rightarrow> fst (resolve mach now r e) else e)"
    by (auto simp: serve_dns_in_zone answerA_def Let_def split: option.splits prod.splits)
  show ?thesis
    using lookup_Some [of lib b name] by (cases "lookup lib b name") (auto simp: serve)
qed

lemma sys_query_inv:
  assumes "sys_inv s"
  shows "sys_inv (fst (sys_query lib now req s))"
proof -
  let ?mach = "Some (machine_iface (rn_machine (sy_checks s)))"
  have "store_inv (snd (sy_world s))" using assms by (simp add: sys_inv_def)
  from st.current_valid [OF this] obtain b where b: "Current (snd (sy_world s)) = Some b" by blast
  let ?e' = "fst (serve_dns lib ?mach now (Some b) req (sy_eval s))"
  have "from_seen (sy_seen s) f a" if served: "served_answers (ev_damper ?e') f = Some a" for f a
  proof (cases "?e' = sy_eval s")
    case True
    with served assms show ?thesis by (simp add: sys_inv_def)
  next
    case False
    then obtain r where r: "r \<in> set (b_Records b)" "?e' = fst (resolve ?mach now r (sy_eval s))"
      using serve_dns_eval [of lib ?mach now b req "sy_eval s"] by blast
    obtain e'' out where res: "resolve ?mach now r (sy_eval s) = (e'', out)" by fastforce
    consider "served_answers (ev_damper (sy_eval s)) f = Some a"
      | "a \<in> proposed [(?mach, now, r)] f"
      using resolve_served [OF res, of f] served r(2) res by auto
    then show ?thesis
    proof cases
      case 1
      with assms show ?thesis by (simp add: sys_inv_def)
    next
      case 2
      from proposed_listed [OF this] r(1) assms b show ?thesis
        by (auto simp: from_seen_def sys_inv_def)
    qed
  qed
  then show ?thesis
    using assms by (auto simp: sys_inv_def sys_query_def b split: prod.splits)
qed

lemma sys_report_inv: "sys_inv s \<Longrightarrow> sys_inv (sys_report c env s)"
  by (auto simp: sys_inv_def sys_report_def send_now_def take_pending_def make_report_def opt_list_def
      Let_def split: prod.splits)

lemma sys_step_inv [comp_inv]: "sys_step lib s t \<Longrightarrow> sys_inv s \<Longrightarrow> sys_inv t"
proof (induction rule: sys_step.induct)
  case (Refetch s c env)
  then show ?case
    unfolding sys_refetch_def by (intro new_world_inv refetch_inv) (simp_all add: sys_inv_def)
next
  case (Reload s itf oc now)
  then show ?case
    unfolding sys_reload_def by (intro new_world_inv reload_if_changed_inv) (simp_all add: sys_inv_def)
next
  case (CheckTick s c env cell' m kts net now)
  then show ?case by (intro sys_tick_inv) (simp_all add: enumerates_def)
next
  case (CheckBlock s c b env now)
  then show ?case by (simp add: sys_inv_def)
next
  case (CheckResume s now b env cell' m kts net)
  then have "sys_inv (sys_tick cell' net now kts s)" by (intro sys_tick_inv) (simp_all add: enumerates_def)
  then show ?case by (simp add: sys_inv_def)
qed (simp_all add: sys_query_inv sys_report_inv)

lemma sys_reachable_inv: "sys_reachable lib plan s \<Longrightarrow> sys_inv s"
  by (induction rule: sys_reachable.induct) (blast intro: boot_store_inv start_system_inv sys_step_inv)+

lemma sys_invD:
  assumes "sys_inv s"
  shows "\<exists>b. Current (snd (sy_world s)) = Some b \<and> valid_bundle b \<and> b \<in> set (sy_seen s)"
proof -
  from assms have "store_inv (snd (sy_world s))" by (simp add: sys_inv_def)
  from st.current_valid [OF this] show ?thesis using assms by (auto simp: sys_inv_def)
qed

lemma sys_query_step: "sys_step lib s (fst (sys_query lib now req s))"
  by (rule Query)

text \<open>An answer that goes out was resolved for the record of its name.\<close>

lemma query_answer_resolved:
  assumes "clean_reply lib" and "serve_dns lib mach now (Some b) req e = (e', msg)"
    and "x \<in> set (m_Answer msg)"
  shows "\<exists>r \<in> set (b_Records b). \<exists>answers. resolve mach now r e = (e', Some answers) \<and>
    to_lower (lib_Fqdn lib (rec_FQDN r)) = to_lower (rr_Name (rr_Hdr x)) \<and>
    (\<exists>a \<in> set answers. parse_ip4 (ans_IP a) = Some (rr_IP x))"
proof (cases "in_zone_question lib (Some b) req")
  case None
  then show ?thesis
    using assms(2,3) clean_replyD [OF assms(1), of req] by (auto simp: serve_dns_rejected)
next
  case (Some y)
  obtain b' zone name t where y: "y = (b', zone, name, t)" by (cases y)
  have b: "b' = b" using in_zone_question_current [OF Some [unfolded y]] by simp
  have serve: "serve_dns lib mach now (Some b) req e = (if t = TypeA
      then answerA lib mach now b zone name e (start_reply lib req)
      else (e, case lookup lib b name of None \<Rightarrow> set_nxdomain zone (start_reply lib req)
                | Some _ \<Rightarrow> start_reply lib req))"
    using serve_dns_in_zone [OF Some [unfolded y]] by (simp add: b)
  note clean = clean_replyD [OF assms(1), of req]
  show ?thesis
  proof (cases "lookup lib b name")
    case None
    then show ?thesis
      using assms(2,3) clean by (auto simp: serve answerA_eq split: if_splits)
  next
    case rec: (Some r)
    show ?thesis
    proof (cases "resolve mach now r e")
      case (Pair e'' out)
      have "\<exists>answers. out = Some answers \<and> e' = e'' \<and> x \<in> set (map (a_record name r) (ip4s answers))"
        using assms(2,3) clean
        by (cases out) (auto simp: serve answerA_eq rec Pair split: if_splits)
      then show ?thesis
        using lookup_Some [OF rec] Pair by (auto simp: a_record_def ip4s_def set_map_filter) blast
    qed
  qed
qed

subsection \<open>A booted process\<close>

definition quiet_start :: start_env where
  "quiet_start = \<lparr>se_net = (\<lambda>_. \<lparr>net_check = (\<lambda>_. None), net_do = (\<lambda>_. Inl [])\<rparr>),
     se_cancelled = (\<lambda>_. False), se_save = (\<lambda>_. all_ok), se_now = int, se_itf = quiet\<rparr>"

definition zone_fs :: fs where
  "zone_fs = [''b.json'' \<mapsto> plain_file 5 zone_raw]"

definition zone_world :: world where
  "zone_world = (fst (save_cache all_ok 0 ''c'' zone_raw zone_fs),
     set_current zone_doc 5 (empty_store ''b.json'' ''c''))"

definition zone_system :: system where
  "zone_system = start_system (FileMode False ''b.json'') zone_world"

lemma zone_boot: "boot_store (\<lambda>_. []) (FileMode False ''b.json'') ''c'' quiet_start zone_fs = Some zone_world"
proof -
  have "new_store quiet all_ok 0 ''b.json'' ''c'' zone_fs =
      (fst (save_cache all_ok 0 ''c'' zone_raw zone_fs), Inr (set_current zone_doc 5 (empty_store ''b.json'' ''c'')))"
    using new_store_from_file [of zone_fs "''b.json''" "plain_file 5 zone_raw" zone_raw zone_doc all_ok 0 "''c''"]
    by (simp add: zone_fs_def read_plain_file plain_file_def zone_accepted)
  then show ?thesis by (simp add: boot_store_def quiet_start_def zone_world_def)
qed

lemma zone_system_reachable: "sys_reachable lib (FileMode False ''b.json'') zone_system"
  unfolding zone_system_def by (rule SysStart [OF zone_boot])

lemma zone_system_current: "Current (snd (sy_world zone_system)) = Some zone_doc"
  by (simp add: zone_system_def start_system_def zone_world_def Current_def)

lemma ip_1111: "parse_ip4 ''1.1.1.1'' = Some [1, 1, 1, 1]"
proof -
  have "''1.1.1.1'' = dotted 1 1 1 1"
    by (simp add: dotted_def itoa_def dec_digits.simps digit_char_def) (simp add: char_of_def bit_0)
  then show ?thesis using parse_ip4_dotted [of 1 1 1 1] by simp
qed

lemma zone_query:
  "\<exists>x. m_Answer (snd (sys_query sample_lib 0 (query_for ''z'' TypeA) zone_system)) = [x] \<and>
     rr_IP x = [1, 1, 1, 1]"
proof -
  let ?q = "query_for ''z'' TypeA" and ?r = "hd (b_Records zone_doc)"
  have z: "in_zone_question sample_lib (Some zone_doc) ?q = Some (zone_doc, ''z.'', ''z.'', TypeA)"
    and l: "lookup sample_lib zone_doc ''z.'' = Some ?r"
    by (simp_all add: sample_eval zone_doc_def)
  have r: "rec_Candidates ?r = None" "rec_State ?r = StateOK" "rec_Answers ?r = [\<lparr>ans_IP = ''1.1.1.1'', ans_Port = 0\<rparr>]"
    by (simp_all add: zone_doc_def StateOK_def)
  show ?thesis
    using clean_replyD [OF sample_lib_clean, of ?q] l r
    by (simp add: sys_query_def zone_system_current serve_dns_in_zone [OF z] answerA_eq resolve_legacy
        ip4s_def map_filter_simps ip_1111 a_record_def split_beta)
qed

subsection \<open>Properties\<close>

text \<open>C1. Whatever the process has been through since its boot, every address it serves for a
  name stands, for a record of that name, in a bundle that passed validation and has been in
  force: neither the damper's memory, nor reloads, nor local health can put another one into a
  reply.\<close>

theorem answers_come_from_accepted_bundles:
  assumes "sys_reachable lib plan s" and "clean_reply lib"
    and "sys_query lib now req s = (t, msg)" and "x \<in> set (m_Answer msg)"
  shows "\<exists>b \<in> set (sy_seen s). valid_bundle b \<and> (\<exists>r \<in> set (b_Records b).
    to_lower (lib_Fqdn lib (rec_FQDN r)) = to_lower (rr_Name (rr_Hdr x)) \<and>
    (\<exists>a \<in> listed r. parse_ip4 (ans_IP a) = Some (rr_IP x)))"
proof -
  let ?mach = "Some (machine_iface (rn_machine (sy_checks s)))"
  have inv: "sys_inv s" using assms(1) by (rule sys_reachable_inv)
  obtain b where b: "Current (snd (sy_world s)) = Some b" "valid_bundle b" "b \<in> set (sy_seen s)"
    using sys_invD [OF inv] by blast
  obtain e' where serve: "serve_dns lib ?mach now (Some b) req (sy_eval s) = (e', msg)"
    and t: "t = s\<lparr>sy_eval := e'\<rparr>"
    using assms(3) b(1) by (auto simp: sys_query_def split: prod.splits)
  obtain r answers a where r: "r \<in> set (b_Records b)" "resolve ?mach now r (sy_eval s) = (e', Some answers)"
    "to_lower (lib_Fqdn lib (rec_FQDN r)) = to_lower (rr_Name (rr_Hdr x))"
    and a: "a \<in> set answers" "parse_ip4 (ans_IP a) = Some (rr_IP x)"
    using query_answer_resolved [OF assms(2) serve assms(4)] by blast
  have "\<exists>b' \<in> set (sy_seen s). \<exists>r' \<in> set (b_Records b'). rec_FQDN r' = rec_FQDN r \<and> set answers \<subseteq> listed r'"
  proof (cases "rec_Candidates r")
    case None
    then have "answers = rec_Answers r" using r(2) by (auto simp: resolve_legacy split: if_splits)
    with r(1) b(3) show ?thesis by (auto simp: listed_def)
  next
    case (Some cands)
    then have "served_answers (ev_damper e') (rec_FQDN r) = Some answers"
      using resolve_served [OF r(2)] by simp
    moreover have "sys_inv t" using sys_step_inv [OF sys_query_step inv] assms(3) by (metis fst_conv)
    ultimately show ?thesis by (auto simp: t sys_inv_def from_seen_def)
  qed
  then obtain b' r' where r': "b' \<in> set (sy_seen s)" "r' \<in> set (b_Records b')"
    "rec_FQDN r' = rec_FQDN r" "set answers \<subseteq> listed r'" by blast
  moreover have "valid_bundle b'" using inv r'(1) by (simp add: sys_inv_def)
  moreover have "a \<in> listed r'" using a(1) r'(4) by blast
  ultimately show ?thesis using r(3) a(2) by (intro bexI [of _ b'] conjI bexI [of _ r'] bexI [of _ a]) simp_all
qed

theorem answers_come_from_accepted_bundles_witness:
  "\<exists>b \<in> set (sy_seen zone_system). valid_bundle b \<and>
     (\<exists>r \<in> set (b_Records b). \<exists>a \<in> listed r. parse_ip4 (ans_IP a) = Some [1, 1, 1, 1])"
proof -
  obtain x where x: "m_Answer (snd (sys_query sample_lib 0 (query_for ''z'' TypeA) zone_system)) = [x]"
    "rr_IP x = [1, 1, 1, 1]" using zone_query by blast
  then show ?thesis
    using answers_come_from_accepted_bundles [OF zone_system_reachable sample_lib_clean
        prod.collapse [symmetric], of x 0 "query_for ''z'' TypeA"]
    by (metis list.set_intros(1))
qed

text \<open>As long as passes and reports do not overlap: every health transition the checks runner ever
  announced is in exactly one place, in order, in one round made (delivered, or dropped with the
  round) or in the reporter's queue. Whoever replays them all, starting from unknown, holds for every
  target exactly the health that the evaluator acts on.\<close>

theorem transitions_reach_reports_in_order:
  assumes "sys_reachable lib plan s"
  shows "map transition_of (rn_emitted (sy_checks s)) =
      concat (map fst (sy_reports s)) @ opt_list (rp_pending (sy_rep s)) \<and>
    received (concat (map fst (sy_reports s)) @ opt_list (rp_pending (sy_rep s))) =
      lh_State (machine_iface (rn_machine (sy_checks s)))"
proof -
  have inv: "sys_inv s" using assms by (rule sys_reachable_inv)
  then have eq: "map transition_of (rn_emitted (sy_checks s)) =
      concat (map fst (sy_reports s)) @ opt_list (rp_pending (sy_rep s))"
    by (simp add: sys_inv_def)
  moreover have "lh_State (machine_iface (rn_machine (sy_checks s))) k =
      received (map transition_of (rn_emitted (sy_checks s))) k" for k
    using inv by (simp add: sys_inv_def received_transitions machine_iface_def adapter_State_def)
  ultimately show ?thesis by (simp add: fun_eq_iff)
qed

text \<open>The process never dereferences a nil bundle: in every reachable state the store serves
  a valid bundle, one of those recorded as having been in force, and whatever the cluster API does, a
  pass either blocks in the start of the lister or gets the targets of that bundle.\<close>

theorem reachable_store_serves:
  assumes "sys_reachable lib plan s"
  shows "\<exists>b \<in> set (sy_seen s). Current (snd (sy_world s)) = Some b \<and> valid_bundle b \<and>
    (\<forall>env. live_targets env (Current (snd (sy_world s))) (sy_cell s) = Blocked \<or>
       (\<exists>cell'. live_targets env (Current (snd (sy_world s))) (sy_cell s) =
          Targets cell' (build_targets (b_Records b) (lz_lister cell'))))"
proof -
  obtain b where b: "Current (snd (sy_world s)) = Some b" "valid_bundle b" "b \<in> set (sy_seen s)"
    using sys_invD [OF sys_reachable_inv [OF assms]] by blast
  have "live_targets env (Some b) (sy_cell s) = Blocked \<or>
      (\<exists>cell'. live_targets env (Some b) (sy_cell s) = Targets cell' (build_targets (b_Records b) (lz_lister cell')))"
    for env
    by (cases rule: live_targets_exhaust [of env b "sy_cell s"]) (auto dest: live_targets_TargetsD)
  with b show ?thesis by auto
qed

theorem reachable_store_serves_witness:
  "\<exists>b \<in> set (sy_seen zone_system). Current (snd (sy_world zone_system)) = Some b \<and> valid_bundle b"
  using reachable_store_serves [OF zone_system_reachable] by blast

text \<open>C2. Local failover. As long as calls do not overlap: whatever the queries so far, once a locally
  checked backend that is being served, of a record in mode \<open>all\<close>, has failed as many checks in a row
  as its threshold asks for, the next query is answered without its addresses, provided another
  candidate can serve and none that can lists them: no damping, freeze or pushed health holds it.\<close>

theorem failed_backend_leaves_answers:
  assumes "machine_inv m" and "1 \<le> n" and "ft \<le> int n"
    and "rec_Candidates r = Some cands" and "rec_Mode r = ModeAll" and "c \<in> set cands"
    and "cand_TargetKey c \<in> lc_TargetKey ` set (rec_LocalChecks r)"
    and "cand_TargetKey c \<in> set (serving qs (rec_FQDN r))"
    and "mach = Some (machine_iface (record_history (cand_TargetKey c) ft rt (replicate n False) m))"
    and "\<exists>d \<in> set cands. servable mach r d"
    and "\<forall>d \<in> set cands. servable mach r d \<longrightarrow> set (cand_Answers d) \<inter> set (cand_Answers c) = {}"
  shows "\<exists>a. snd (resolve mach now r (fst (resolve_all qs new_evaluator))) = Some a \<and> a \<noteq> [] \<and>
    set a \<inter> set (cand_Answers c) = {}"
proof -
  let ?m = "record_history (cand_TargetKey c) ft rt (replicate n False) m"
  have "State ?m (cand_TargetKey c) = Unhealthy"
    using failures_make_unhealthy [OF assms(1-3)] by simp
  then have bad: "effective_health mach r c = HealthUnhealthy"
    using assms(7,9) by (simp add: effective_health_def machine_iface_def adapter_State_def health_names)
  obtain a where a: "snd (resolve mach now r (fst (resolve_all qs new_evaluator))) = Some a" "a \<noteq> []"
    "mset a = mset (concat (map cand_Answers (filter (servable mach r) cands)))"
    using forced_answer [OF assms(4-6) _ bad assms(10) prod.collapse [symmetric],
        of "fst (resolve_all qs new_evaluator)" now] assms(8)
    by (auto simp: active_keys_serving)
  from mset_eq_setD [OF a(3)] have "set a = (\<Union>d \<in> {d \<in> set cands. servable mach r d}. set (cand_Answers d))"
    by simp
  with assms(11) have "set a \<inter> set (cand_Answers c) = {}" by auto
  with a(1,2) show ?thesis by blast
qed

definition checked_record :: dns_record where
  "checked_record = (rec2 ModeAll HealthHealthy HealthHealthy)\<lparr>rec_LocalChecks :=
     [\<lparr>lc_TargetKey = itoa 1, lc_Probe = ''tcp'', lc_Host = [], lc_Port = 1, lc_Path = [],
       lc_Namespace = [], lc_Service = [], lc_IntervalMs = 5000, lc_FailureThreshold = 3,
       lc_RecoveryThreshold = 1\<rparr>]\<rparr>"

theorem failed_backend_leaves_answers_witness:
  "\<exists>a. snd (resolve (Some (machine_iface (record_history (itoa 1) 3 1 (replicate 3 False) new_machine))) 9
       checked_record (fst (resolve_all [(None, 0, rec2 ModeAll HealthHealthy HealthHealthy)] new_evaluator))) = Some a \<and>
     a \<noteq> [] \<and> set a \<inter> set (ans1 1) = {}"
proof -
  let ?m = "record_history (itoa 1) 3 1 (replicate 3 False) new_machine"
  let ?mach = "Some (machine_iface ?m)" and ?qs = "[(None, 0, rec2 ModeAll HealthHealthy HealthHealthy)]"
  have bad: "State ?m (itoa 1) = Unhealthy"
    using failures_make_unhealthy [OF new_machine_inv, of 3 3 "itoa 1" 1] by simp
  have cands: "rec_Candidates checked_record = Some [cand1 1 HealthHealthy, cand1 2 HealthHealthy]"
    by (simp add: checked_record_def rec2_def)
  have s1: "\<not> servable ?mach checked_record (cand1 1 HealthHealthy)"
    using bad by (simp add: servable_iff effective_health_def checked_record_def cand1_def
        machine_iface_def adapter_State_def health_names)
  have s2: "servable ?mach checked_record (cand1 2 HealthHealthy)"
    by (simp add: servable_iff effective_health_def checked_record_def cand1_def health_names)
  have disjoint: "\<forall>d \<in> set [cand1 1 HealthHealthy, cand1 2 HealthHealthy]. servable ?mach checked_record d \<longrightarrow>
      set (cand_Answers d) \<inter> set (cand_Answers (cand1 1 HealthHealthy)) = {}"
    using s1 by (simp add: cand1_def ans1_def)
  have name: "rec_FQDN checked_record = ''a.z.''" by (simp add: checked_record_def rec2_def)
  have key: "cand_TargetKey (cand1 1 HealthHealthy) = itoa 1" "cand_Answers (cand1 1 HealthHealthy) = ans1 1"
    by (simp_all add: cand1_def)
  have served: "cand_TargetKey (cand1 1 HealthHealthy) \<in> set (serving ?qs (rec_FQDN checked_record))"
    unfolding name serving_rec2 key by simp
  have loc: "cand_TargetKey (cand1 1 HealthHealthy) \<in> lc_TargetKey ` set (rec_LocalChecks checked_record)"
    "rec_Mode checked_record = ModeAll" by (simp_all add: checked_record_def rec2_def cand1_def)
  have "\<exists>d \<in> set [cand1 1 HealthHealthy, cand1 2 HealthHealthy]. servable ?mach checked_record d" using s2 by simp
  from failed_backend_leaves_answers [OF new_machine_inv _ _ cands loc(2) _ loc(1) served _ this disjoint, of 3 3 1 9]
  show ?thesis unfolding key by simp
qed

subsection \<open>Starting the lister\<close>

text \<open>Passes over one bundle while the lister cannot start: the in-cluster configuration or the
  clientset fails each time, and each pass visits what \<open>Targets\<close> returns then.\<close>

fun refused_passes ::
  "decision_bundle \<Rightarrow> lister_cell \<Rightarrow> (k8s_env \<times> go_time \<times> (string \<times> target) list \<times> (string \<Rightarrow> network)) list \<Rightarrow> bool"
where
  "refused_passes b cell [] \<longleftrightarrow> True"
| "refused_passes b cell ((env, now, kts, net) # ticks) \<longleftrightarrow>
     \<not> (in_cluster_ok env \<and> clientset_ok env) \<and>
     (case live_targets env (Some b) cell of
        Targets cell' m \<Rightarrow> enumerates kts m \<and> refused_passes b cell' ticks
      | _ \<Rightarrow> False)"

definition unlisted :: "local_check_config \<Rightarrow> target" where
  "unlisted cfg = \<lparr>tg_Config = cfg, tg_Prober = K8sProber NoLister (cfg_Namespace cfg) (cfg_Service cfg)\<rparr>"

lemma refused_passes_targets:
  assumes "refused_passes b cell ticks" and "lz_lister cell = NoLister"
    and "build_configs (b_Records b) key = Some cfg" and "cfg_Probe cfg = ''k8s''"
  shows "\<forall>(now, kts, net) \<in> set (map snd ticks). distinct (map fst kts) \<and> map_of kts key = Some (unlisted cfg) \<and>
    \<not> probe (net key) (tg_Prober (unlisted cfg))"
  using assms
proof (induction b cell ticks rule: refused_passes.induct)
  case (2 b cell env now kts net ticks)
  from "2.prems"(1) obtain cell' m where live: "live_targets env (Some b) cell = Targets cell' m"
    and kts: "enumerates kts m" "refused_passes b cell' ticks" and env: "\<not> (in_cluster_ok env \<and> clientset_ok env)"
    by (auto split: targets_call.splits)
  have "lz_lister cell' = NoLister" "m = build_targets (b_Records b) NoLister"
    using live_targets_TargetsD [OF live] "2.prems"(2) env by (auto simp: lister_starts_def)
  moreover have "build_targets (b_Records b) NoLister key = Some (unlisted cfg)"
    using "2.prems"(3,4) by (simp add: build_targets_def new_prober_def unlisted_def)
  ultimately show ?case
    using "2.IH" [OF live kts(2)] kts(1) "2.prems"(3,4)
    by (auto simp: enumerates_def) (simp add: unlisted_def)
qed simp

text \<open>C22. When the EndpointSlice lister cannot be started (no in-cluster configuration, or no
  clientset), targets checked through it are not left out: they are probed as down. While passes keep
  coming with gaps of at most \<open>d\<close>, they are unhealthy once as many intervals, each with a gap, have
  passed as their failure threshold asks for, whatever was recorded before, and their candidates are
  not viable, whatever health Zeus pushes for them.\<close>

theorem missing_lister_fails_targets:
  assumes "machine_inv (rn_machine r)" and "\<forall>prev. rn_lastRun r key = Some prev \<longrightarrow> prev \<le> t0"
    and "lz_lister cell = NoLister" and "refused_passes b cell ticks"
    and "build_configs (b_Records b) key = Some cfg" and "cfg_Probe cfg = ''k8s''"
    and "gaps d t0 (map snd ticks)" and "0 < d"
    and "t0 + max 1 (cfg_FailureThreshold cfg) * (target_interval (unlisted cfg) + d) \<le> ChecksRunner.last_time t0 (map snd ticks)"
    and "cand_TargetKey c = key" and "key \<in> lc_TargetKey ` set (rec_LocalChecks rc)"
  shows "State (rn_machine (run_checks (passes (map snd ticks)) r)) key = Unhealthy \<and>
    viable (Some (machine_iface (rn_machine (run_checks (passes (map snd ticks)) r)))) c (local_targets rc) =
      (False, True)"
proof -
  let ?m = "rn_machine (run_checks (passes (map snd ticks)) r)"
  have down: "\<forall>(now, kts, net) \<in> set (map snd ticks). distinct (map fst kts) \<and> map_of kts key = Some (unlisted cfg) \<and>
      probe (net key) (tg_Prober (unlisted cfg)) = False"
    using refused_passes_targets [OF assms(4,3,5,6)] by simp
  have bad: "State ?m key = Unhealthy"
    using steady_verdict [OF assms(1,2) down assms(7,8) refl] assms(9) by (simp add: unlisted_def)
  then show ?thesis
    using assms(10,11) by (simp add: viable_effective effective_health_def machine_iface_def
        adapter_State_def health_names)
qed

definition k8s_check :: local_check where
  "k8s_check = zero_local_check\<lparr>lc_TargetKey := itoa 1, lc_Probe := ''k8s'', lc_FailureThreshold := 1\<rparr>"

definition k8s_record :: dns_record where
  "k8s_record = (rec2 ModeAll HealthHealthy HealthHealthy)\<lparr>rec_LocalChecks := [k8s_check]\<rparr>"

definition k8s_target :: target where
  "k8s_target = \<lparr>tg_Config = config_of k8s_check, tg_Prober = K8sProber NoLister [] []\<rparr>"

text \<open>The same check with threshold three, in passes of 250 milliseconds.\<close>

definition slow_check :: local_check where
  "slow_check = k8s_check\<lparr>lc_FailureThreshold := 3\<rparr>"

definition slow_record :: dns_record where
  "slow_record = (rec2 ModeAll HealthHealthy HealthHealthy)\<lparr>rec_LocalChecks := [slow_check]\<rparr>"

definition no_cluster :: k8s_env where
  "no_cluster = \<lparr>in_cluster_ok = False, clientset_ok = True, cache_sync = Synced\<rparr>"

definition slow_ticks :: "(k8s_env \<times> go_time \<times> (string \<times> target) list \<times> (string \<Rightarrow> network)) list" where
  "slow_ticks = map (\<lambda>i. (no_cluster, i * checksBaseTick, [(itoa 1, unlisted (config_of slow_check))], \<lambda>_. up_net)) [1..15]"

theorem missing_lister_fails_targets_witness:
  "State (rn_machine (run_checks (passes (map snd slow_ticks)) fresh_runner)) (itoa 1) = Unhealthy"
proof -
  let ?b = "zone_doc\<lparr>b_Records := [slow_record]\<rparr>" and ?cfg = "config_of slow_check"
  have cfgs: "build_configs [slow_record] = [itoa 1 \<mapsto> ?cfg]"
    by (simp add: build_configs_def slow_record_def add_check_def) (simp add: slow_check_def k8s_check_def)
  have cfg: "cfg_Probe ?cfg = ''k8s''" "cfg_FailureThreshold ?cfg = 3" "cfg_IntervalMs ?cfg = 0"
    by (simp_all add: config_of_def slow_check_def k8s_check_def zero_local_check_def)
  have interval: "target_interval (unlisted ?cfg) = second"
    by (simp only: target_interval_def unlisted_def target.simps cfg) (simp add: wrap64_def)
  have m: "build_targets [slow_record] NoLister = [itoa 1 \<mapsto> unlisted ?cfg]"
    by (simp add: fun_eq_iff build_targets_def cfgs new_prober_def cfg unlisted_def)
  have live: "live_targets no_cluster (Some ?b) fresh_cell = Targets fresh_cell [itoa 1 \<mapsto> unlisted ?cfg]"
    by (simp add: live_targets_def ensure_k8s_lister_def fresh_cell_def new_k8s_lister_def no_cluster_def
        needs_k8s_probe_def m) (simp add: slow_record_def slow_check_def k8s_check_def)
  have refused: "refused_passes ?b fresh_cell (map (\<lambda>i. (no_cluster, i * checksBaseTick,
      [(itoa 1, unlisted ?cfg)], \<lambda>_. up_net)) is)" for "is"
    by (induction "is") (simp_all add: live enumerates_def, simp add: no_cluster_def)
  have times: "gaps checksBaseTick 0 (map snd slow_ticks)" "ChecksRunner.last_time 0 (map snd slow_ticks) = 15 * checksBaseTick"
    by (simp_all add: slow_ticks_def upto_rec1 tuning_defs duration_defs)
  have cand: "cand_TargetKey (cand1 1 HealthHealthy) = itoa 1" by (simp add: cand1_def)
  have key: "itoa 1 \<in> lc_TargetKey ` set (rec_LocalChecks slow_record)"
    by (simp add: slow_record_def slow_check_def k8s_check_def)
  show ?thesis
    by (rule missing_lister_fails_targets [OF _ _ _ refused [of "[1..15]", folded slow_ticks_def] _ cfg(1) times(1) _ _ cand key,
        THEN conjunct1])
      (simp_all add: fresh_runner_def new_machine_inv fresh_cell_def cfgs cfg(2) interval times(2),
        simp_all add: tuning_defs duration_defs)
qed

text \<open>One step of the process in which a blocked pass stays blocked.\<close>

definition still_waiting :: "dns_lib \<Rightarrow> system \<Rightarrow> system \<Rightarrow> bool" where
  "still_waiting lib s t \<longleftrightarrow> sys_step lib s t \<and> sy_waiting t \<noteq> None"

lemma sys_query_frame [simp]:
  "sy_checks (fst (sys_query lib now req s)) = sy_checks s" "sy_waiting (fst (sys_query lib now req s)) = sy_waiting s"
  "sy_client (fst (sys_query lib now req s)) = sy_client s"
  by (simp_all add: sys_query_def split_beta)

lemma sys_report_frame [simp]:
  "sy_checks (sys_report c env s) = sy_checks s" "sy_waiting (sys_report c env s) = sy_waiting s"
  "sy_client (sys_report c env s) = sy_client s"
  by (simp_all add: sys_report_def split_beta)

lemma still_waiting_frame:
  assumes "still_waiting lib s t" and "sy_waiting s = Some w"
  shows "sy_checks t = sy_checks s \<and> sy_waiting t = Some w \<and> sy_client t = sy_client s"
proof -
  from assms(1) have "sys_step lib s t" "sy_waiting t \<noteq> None" by (simp_all add: still_waiting_def)
  then show ?thesis
    using assms(2) by (cases rule: sys_step.cases) (auto simp: sys_refetch_def sys_reload_def)
qed

text \<open>C13. When a bundle with a k8s probe is in force and the informer does not sync (its watch is
  refused, say), the next pass blocks in the start of the lister, and until that wait ends no target is
  checked any more, those of tcp and http probes included, whatever bundle is adopted meanwhile:
  queries and reports go on with the health that each target had.\<close>

theorem unsynced_lister_stalls_checks:
  assumes "sy_client s = Some c" and "sy_waiting s = None" and "Current (snd (sy_world s)) = Some b"
    and "\<exists>r \<in> set (b_Records b). \<exists>lc \<in> set (rec_LocalChecks r). lc_Probe lc = ''k8s''"
    and "lz_lister (sy_cell s) = NoLister"
    and "in_cluster_ok env" and "clientset_ok env" and "cache_sync env = Unsynced"
  shows "live_targets env (Some b) (sy_cell s) = Blocked \<and>
    sys_step lib s (s\<lparr>sy_waiting := Some (now, b)\<rparr>) \<and>
    (\<forall>t. (still_waiting lib)\<^sup>*\<^sup>* (s\<lparr>sy_waiting := Some (now, b)\<rparr>) t \<longrightarrow>
       sy_checks t = sy_checks s \<and> still_waiting lib t (fst (sys_query lib now' req t)) \<and>
       still_waiting lib t (sys_report c env' t))"
proof (intro conjI allI impI)
  let ?s = "s\<lparr>sy_waiting := Some (now, b)\<rparr>"
  have "lister_starts env (b_Records b) (sy_cell s)"
    using assms(4-7) by (auto simp: lister_starts_def needs_k8s_probe_def list_ex_iff)
  then show blocked: "live_targets env (Some b) (sy_cell s) = Blocked"
    using assms(8) by (simp add: live_targets_Blocked)
  show "sys_step lib s ?s" by (rule CheckBlock [OF assms(1-3) blocked])
  fix t assume "(still_waiting lib)\<^sup>*\<^sup>* ?s t"
  then have t: "sy_checks t = sy_checks ?s \<and> sy_waiting t = Some (now, b) \<and> sy_client t = sy_client ?s"
    by (induction rule: rtranclp_induct) (auto dest: still_waiting_frame)
  then show "sy_checks t = sy_checks s" by simp
  show "still_waiting lib t (fst (sys_query lib now' req t))"
    using t sys_query_step by (simp add: still_waiting_def)
  show "still_waiting lib t (sys_report c env' t)"
    using t Report [of t c lib env'] assms(1) by (simp add: still_waiting_def)
qed

definition k8s_system :: system where
  "k8s_system = start_system (FetchMode sample_client)
     (Map.empty, set_current (zone_doc\<lparr>b_Records := [k8s_record]\<rparr>) 0 (empty_store [] ''c''))"

theorem unsynced_lister_stalls_checks_witness:
  "\<exists>t. sys_step sample_lib k8s_system t \<and> sy_waiting t \<noteq> None \<and>
     sy_checks (fst (sys_query sample_lib 0 (query_for ''z'' TypeA) (sys_report sample_client dead_env t))) = sy_checks k8s_system"
proof -
  let ?b = "zone_doc\<lparr>b_Records := [k8s_record]\<rparr>" and ?env = "\<lparr>in_cluster_ok = True, clientset_ok = True, cache_sync = Unsynced\<rparr>"
  let ?t = "k8s_system\<lparr>sy_waiting := Some (0, ?b)\<rparr>"
  have s: "sy_client k8s_system = Some sample_client" "sy_waiting k8s_system = None"
    "Current (snd (sy_world k8s_system)) = Some ?b" "lz_lister (sy_cell k8s_system) = NoLister"
    by (simp_all add: k8s_system_def start_system_def Current_def set_current_def fresh_cell_def)
  have k8s: "\<exists>r \<in> set (b_Records ?b). \<exists>lc \<in> set (rec_LocalChecks r). lc_Probe lc = ''k8s''"
    by (simp add: k8s_record_def k8s_check_def)
  let ?u = "sys_report sample_client dead_env ?t" and ?q = "query_for ''z'' TypeA"
  let ?v = "fst (sys_query sample_lib 0 ?q ?u)"
  have stall: "sys_step sample_lib k8s_system ?t \<and> (\<forall>t. (still_waiting sample_lib)\<^sup>*\<^sup>* ?t t \<longrightarrow>
      sy_checks t = sy_checks k8s_system \<and> still_waiting sample_lib t (fst (sys_query sample_lib 0 ?q t)) \<and>
      still_waiting sample_lib t (sys_report sample_client dead_env t))"
    using unsynced_lister_stalls_checks [OF s(1-3) k8s s(4), of ?env sample_lib 0 0 ?q dead_env] by simp
  then have "(still_waiting sample_lib)\<^sup>*\<^sup>* ?t ?v"
    by (meson rtranclp.rtrancl_into_rtrancl rtranclp.rtrancl_refl)
  with stall have "sy_checks ?v = sy_checks k8s_system" by blast
  with stall show ?thesis by (intro exI [of _ ?t]) simp
qed

end
