(* ===== verification/Service.thy ===== *)
theory Service
  imports System
begin

text \<open>
  What the process promises, as an abstract service, and the proof that the running process of
  \<open>System\<close> implements it. The service knows no files, hashes, schedules, streaks, freezes,
  windows or wake-ups. It holds the bundle in force, the one an unfinished pass over the
  targets looks at, the verdict of each local check that has completed, what it answers for each name and on whose behalf, and the transitions it has
  still to report. Its events are what the outside sees: replies to queries and reports.
\<close>

record service =
  sv_bundle :: decision_bundle
  sv_pass :: "decision_bundle option"
  sv_verdicts :: "string \<rightharpoonup> string"
  sv_given :: "string \<rightharpoonup> answer list"
  sv_active :: "string \<Rightarrow> string list"
  sv_queue :: "transition list"

datatype event = Internal | Replied dns_msg dns_msg | Reported health_report

subsection \<open>The service\<close>

text \<open>The health that counts: the local verdict for a target of the record, the pushed one before
  there is any.\<close>

definition health_of :: "(string \<rightharpoonup> string) \<Rightarrow> dns_record \<Rightarrow> candidate \<Rightarrow> string" where
  "health_of verdicts r c =
     (if cand_TargetKey c \<in> lc_TargetKey ` set (rec_LocalChecks r)
      then (case verdicts (cand_TargetKey c) of None \<Rightarrow> cand_Health c | Some h \<Rightarrow> h)
      else cand_Health c)"

definition usable :: "(string \<rightharpoonup> string) \<Rightarrow> dns_record \<Rightarrow> candidate \<Rightarrow> bool" where
  "usable verdicts r c \<longleftrightarrow> health_of verdicts r c \<noteq> HealthUnhealthy \<and> cand_Answers c \<noteq> []"

definition chosen :: "(string \<rightharpoonup> string) \<Rightarrow> dns_record \<Rightarrow> candidate list \<Rightarrow> candidate list" where
  "chosen verdicts r cands =
     (if rec_Mode r = ModeAll then filter (usable verdicts r) cands
      else take 1 (filter (usable verdicts r) cands))"

definition wanted :: "(string \<rightharpoonup> string) \<Rightarrow> dns_record \<Rightarrow> candidate list \<Rightarrow> answer list" where
  "wanted verdicts r cands = concat (map cand_Answers (chosen verdicts r cands))"

text \<open>The old answer must go when one of the candidates it stands for is seen to be unhealthy: any
  in mode \<open>all\<close>, those before the first usable one in mode \<open>single\<close>.\<close>

definition must_move :: "service \<Rightarrow> dns_record \<Rightarrow> candidate list \<Rightarrow> bool" where
  "must_move v r cands \<longleftrightarrow>
     (\<exists>c \<in> set (if rec_Mode r = ModeAll then cands else takeWhile (\<lambda>c. \<not> usable (sv_verdicts v) r c) cands).
        cand_TargetKey c \<in> set (sv_active v (rec_FQDN r)) \<and>
        health_of (sv_verdicts v) r c = HealthUnhealthy)"

inductive resolves :: "service \<Rightarrow> dns_record \<Rightarrow> answer list option \<Rightarrow> service \<Rightarrow> bool" where
  Pushed: "rec_Candidates r = None \<Longrightarrow>
    resolves v r (if rec_State r = StateOK \<or> rec_State r = StateDegraded then Some (rec_Answers r) else None) v"
| Exhausted: "rec_Candidates r = Some cands \<Longrightarrow> chosen (sv_verdicts v) r cands = [] \<Longrightarrow> resolves v r None v"
| Moves: "rec_Candidates r = Some cands \<Longrightarrow> chosen (sv_verdicts v) r cands \<noteq> [] \<Longrightarrow>
    mset answers = mset (wanted (sv_verdicts v) r cands) \<Longrightarrow>
    resolves v r (Some answers)
      (v\<lparr>sv_given := (sv_given v)(rec_FQDN r \<mapsto> answers),
         sv_active := (sv_active v)(rec_FQDN r := map cand_TargetKey (chosen (sv_verdicts v) r cands))\<rparr>)"
| Stays: "rec_Candidates r = Some cands \<Longrightarrow> chosen (sv_verdicts v) r cands \<noteq> [] \<Longrightarrow>
    sv_given v (rec_FQDN r) = Some answers \<Longrightarrow> \<not> must_move v r cands \<Longrightarrow>
    resolves v r (Some answers) v"

definition address_reply :: "string \<Rightarrow> dns_record \<Rightarrow> answer list option \<Rightarrow> dns_msg \<Rightarrow> dns_msg" where
  "address_reply name r out msg =
     (case out of
        None \<Rightarrow> msg\<lparr>m_Rcode := RcodeServerFailure\<rparr>
      | Some answers \<Rightarrow>
          (if ip4s answers = [] then msg\<lparr>m_Rcode := RcodeServerFailure\<rparr>
           else msg\<lparr>m_Answer := map (a_record name r) (ip4s answers)\<rparr>))"

inductive replies :: "dns_lib \<Rightarrow> service \<Rightarrow> dns_msg \<Rightarrow> dns_msg \<Rightarrow> service \<Rightarrow> bool" for lib :: dns_lib where
  NotOurs: "in_zone_question lib (Some (sv_bundle v)) req = None \<Longrightarrow>
    replies lib v req ((start_reply lib req)\<lparr>m_Rcode := RcodeRefused\<rparr>) v"
| NoName: "in_zone_question lib (Some (sv_bundle v)) req = Some (b, zone, name, t) \<Longrightarrow>
    lookup lib b name = None \<Longrightarrow> replies lib v req (set_nxdomain zone (start_reply lib req)) v"
| OtherType: "in_zone_question lib (Some (sv_bundle v)) req = Some (b, zone, name, t) \<Longrightarrow>
    lookup lib b name = Some r \<Longrightarrow> t \<noteq> TypeA \<Longrightarrow> replies lib v req (start_reply lib req) v"
| Address: "in_zone_question lib (Some (sv_bundle v)) req = Some (b, zone, name, TypeA) \<Longrightarrow>
    lookup lib b name = Some r \<Longrightarrow> resolves v r out v' \<Longrightarrow>
    replies lib v req (address_reply name r out (start_reply lib req)) v'"

text \<open>What a target is reported as: unknown while it has no verdict. A pass may change the verdicts
  of the targets that the bundle it looks at registers (the one in force, or the one that was in
  force when it was begun); each change is queued once, as a transition to the new verdict.\<close>

definition told :: "(string \<rightharpoonup> string) \<Rightarrow> string \<Rightarrow> string" where
  "told verdicts k = (case verdicts k of None \<Rightarrow> HealthUnknown | Some h \<Rightarrow> h)"

definition registered :: "decision_bundle \<Rightarrow> string set" where
  "registered b = lc_TargetKey ` (\<Union>r \<in> set (b_Records b). set (rec_LocalChecks r))"

definition announces :: "transition list \<Rightarrow> (string \<rightharpoonup> string) \<Rightarrow> (string \<rightharpoonup> string) \<Rightarrow> bool" where
  "announces ts verdicts verdicts' \<longleftrightarrow> distinct (map tr_TargetKey ts) \<and>
     (\<lambda>t. (tr_TargetKey t, tr_State t)) ` set ts =
       {(k, told verdicts' k) | k. told verdicts' k \<noteq> told verdicts k}"

definition looks_at :: "service \<Rightarrow> decision_bundle" where
  "looks_at v = (case sv_pass v of None \<Rightarrow> sv_bundle v | Some b \<Rightarrow> b)"

inductive service_step :: "dns_lib \<Rightarrow> service \<Rightarrow> event \<Rightarrow> service \<Rightarrow> bool" for lib :: dns_lib where
  Adopt: "valid_bundle b \<Longrightarrow> service_step lib v Internal (v\<lparr>sv_bundle := b\<rparr>)"
| Begin: "sv_pass v = None \<Longrightarrow> service_step lib v Internal (v\<lparr>sv_pass := Some (sv_bundle v)\<rparr>)"
| Check: "dom (sv_verdicts v) \<subseteq> dom verdicts \<Longrightarrow>
    \<forall>k. k \<notin> registered (looks_at v) \<longrightarrow> verdicts k = sv_verdicts v k \<Longrightarrow>
    announces ts (sv_verdicts v) verdicts \<Longrightarrow>
    service_step lib v Internal (v\<lparr>sv_pass := None, sv_verdicts := verdicts, sv_queue := sv_queue v @ ts\<rparr>)"
| Reply: "replies lib v req msg v' \<Longrightarrow> service_step lib v (Replied req msg) v'"
| Report: "opt_list (hr_Transitions report) = sv_queue v \<Longrightarrow> hr_States report = Some (sv_verdicts v) \<Longrightarrow>
    service_step lib v (Reported report) (v\<lparr>sv_queue := []\<rparr>)"

definition initial_service :: "decision_bundle \<Rightarrow> service" where
  "initial_service b = \<lparr>sv_bundle = b, sv_pass = None, sv_verdicts = Map.empty, sv_given = Map.empty,
     sv_active = (\<lambda>_. []), sv_queue = []\<rparr>"

inductive runs :: "('s \<Rightarrow> 'e \<Rightarrow> 's \<Rightarrow> bool) \<Rightarrow> 's \<Rightarrow> 'e list \<Rightarrow> 's \<Rightarrow> bool"
  for step :: "'s \<Rightarrow> 'e \<Rightarrow> 's \<Rightarrow> bool" where
  RunsNil: "runs step s [] s"
| RunsSnoc: "runs step s es t \<Longrightarrow> step t e u \<Longrightarrow> runs step s (es @ [e]) u"

lemma runs_one: "step s e t \<Longrightarrow> runs step s [e] t"
  using RunsSnoc [of step s "[]" s e t] by (simp add: RunsNil)

subsection \<open>The process with its events\<close>

definition report_of :: "client \<Rightarrow> round_env \<Rightarrow> system \<Rightarrow> health_report" where
  "report_of c env s = fst (snd
     (send_now c (Some (exponential_backoff healthReportRetryBase healthReportRetryCeil))
        (Some (States (rn_machine (sy_checks s)))) env (ensure_init (sy_rep s))))"

inductive sys_act :: "dns_lib \<Rightarrow> system \<Rightarrow> event \<Rightarrow> system \<Rightarrow> bool" for lib :: dns_lib where
  ActRefetch: "sy_client s = Some c \<Longrightarrow> sys_act lib s Internal (sys_refetch c env s)"
| ActReload: "sy_client s = None \<Longrightarrow> sys_act lib s Internal (sys_reload itf oc now s)"
| ActCheck: "sy_client s = Some c \<Longrightarrow> sy_waiting s = None \<Longrightarrow>
    live_targets env (Current (snd (sy_world s))) (sy_cell s) = Targets cell' m \<Longrightarrow> enumerates kts m \<Longrightarrow>
    sys_act lib s Internal (sys_tick cell' net now kts s)"
| ActBlock: "sy_client s = Some c \<Longrightarrow> sy_waiting s = None \<Longrightarrow> Current (snd (sy_world s)) = Some b \<Longrightarrow>
    live_targets env (Some b) (sy_cell s) = Blocked \<Longrightarrow> sys_act lib s Internal (s\<lparr>sy_waiting := Some (now, b)\<rparr>)"
| ActResume: "sy_waiting s = Some (now, b) \<Longrightarrow> lister_starts env (b_Records b) (sy_cell s) \<Longrightarrow>
    live_targets env (Some b) (sy_cell s) = Targets cell' m \<Longrightarrow> enumerates kts m \<Longrightarrow>
    sys_act lib s Internal ((sys_tick cell' net now kts s)\<lparr>sy_waiting := None\<rparr>)"
| ActQuery: "sys_query lib now req s = (t, msg) \<Longrightarrow> sys_act lib s (Replied req msg) t"
| ActReport: "sy_client s = Some c \<Longrightarrow> sys_act lib s (Reported (report_of c env s)) (sys_report c env s)"

text \<open>The events label the steps of the process, and add none.\<close>

lemma sys_act_step: "sys_step lib s t \<longleftrightarrow> (\<exists>e. sys_act lib s e t)"
proof
  show "\<exists>e. sys_act lib s e t" if "sys_step lib s t"
    using that
  proof (induction rule: sys_step.induct)
    case (Query s now req)
    then show ?case using ActQuery [OF prod.collapse [symmetric]] by blast
  qed (blast intro: sys_act.intros)+
  show "sys_step lib s t" if "\<exists>e. sys_act lib s e t"
    using that by (auto elim!: sys_act.cases intro: sys_step.intros)
      (metis fst_conv sys_query_step)
qed

definition service_of :: "system \<Rightarrow> service" where
  "service_of s = \<lparr>sv_bundle = the (Current (snd (sy_world s))), sv_pass = map_option snd (sy_waiting s),
     sv_verdicts = States (rn_machine (sy_checks s)),
     sv_given = served_answers (ev_damper (sy_eval s)), sv_active = active_keys (sy_eval s),
     sv_queue = opt_list (rp_pending (sy_rep s))\<rparr>"

subsection \<open>Functional refinement, step by step\<close>

text \<open>A concrete step relation that implements an abstract one through a state function, as long
  as an invariant holds: its runs are runs of the abstract one.\<close>

locale simulation =
  fixes step :: "'s \<Rightarrow> 'e \<Rightarrow> 's \<Rightarrow> bool" and spec :: "'a \<Rightarrow> 'e \<Rightarrow> 'a \<Rightarrow> bool"
    and inv :: "'s \<Rightarrow> bool" and abs :: "'s \<Rightarrow> 'a"
  assumes step_inv: "inv s \<Longrightarrow> step s e t \<Longrightarrow> inv t"
    and step_abs: "inv s \<Longrightarrow> step s e t \<Longrightarrow> spec (abs s) e (abs t)"
begin

lemma runs_abs: "runs step s es t \<Longrightarrow> inv s \<Longrightarrow> inv t \<and> runs spec (abs s) es (abs t)"
  by (induction rule: runs.induct) (auto intro: runs.intros step_inv step_abs)

end

subsection \<open>Resolving\<close>

lemma effective_health_of:
  assumes "machine_inv m"
  shows "effective_health (Some (machine_iface m)) r c = health_of (States m) r c"
proof (cases "States m (cand_TargetKey c)")
  case None
  then show ?thesis
    using mt.states_missing [OF None] mt.states_ready [OF assms, of "cand_TargetKey c"]
    by (auto simp: effective_health_def health_of_def machine_iface_def)
next
  case (Some h)
  then show ?thesis
    using mt.states_agree [OF Some] mt.states_ready [OF assms, of "cand_TargetKey c"]
    by (auto simp: effective_health_def health_of_def machine_iface_def)
qed

lemma servable_usable: "machine_inv m \<Longrightarrow> servable (Some (machine_iface m)) r = usable (States m) r"
  by (rule ext) (simp add: servable_iff usable_def effective_health_of)

lemma taken_chosen:
  "machine_inv m \<Longrightarrow> taken (Some (machine_iface m)) r cands = chosen (States m) r cands"
  by (simp add: taken_eq chosen_def servable_usable)

lemma fresh_wanted:
  "machine_inv m \<Longrightarrow> fresh_answers (Some (machine_iface m)) r cands = wanted (States m) r cands"
  by (simp add: fresh_answers_def wanted_def taken_chosen)

lemma visited_single:
  "(\<exists>c \<in> set (visited P False cands). Q c \<and> \<not> P c) \<longleftrightarrow> (\<exists>c \<in> set (takeWhile (\<lambda>c. \<not> P c) cands). Q c)"
  by (induction cands) auto

lemma visited_unhealthy:
  assumes "\<And>c. Q c \<Longrightarrow> \<not> P c"
  shows "(\<exists>c \<in> set (visited P all cands). Q c) \<longleftrightarrow>
    (\<exists>c \<in> set (if all then cands else takeWhile (\<lambda>c. \<not> P c) cands). Q c)"
  using visited_single [of P cands Q] assms by (cases all) auto

lemma walk_forced_must_move:
  assumes "machine_inv m" and "sv_verdicts v = States m" and "sv_active v = active_keys e"
  shows "walk_forced (Some (machine_iface m)) e r cands \<longleftrightarrow> must_move v r cands"
proof -
  let ?Q = "\<lambda>c. cand_TargetKey c \<in> set (active_keys e (rec_FQDN r)) \<and> health_of (States m) r c = HealthUnhealthy"
  have "?Q c \<Longrightarrow> \<not> usable (States m) r c" for c by (simp add: usable_def)
  from visited_unhealthy [of ?Q "usable (States m) r", OF this] show ?thesis
    by (simp add: walk_forced_def must_move_def assms(2,3) servable_usable [OF assms(1)]
        viable_effective effective_health_of [OF assms(1)])
qed

text \<open>The service after a query is the service before it with the evaluator's part replaced.\<close>

definition with_eval :: "evaluator \<Rightarrow> service \<Rightarrow> service" where
  "with_eval e v = v\<lparr>sv_given := served_answers (ev_damper e), sv_active := active_keys e\<rparr>"

lemma active_keys_commit:
  "active_keys (commit_active f ks fresh served e) =
     (if answer_set_equal served fresh then (active_keys e)(f := ks) else active_keys e)"
  by (auto simp: commit_active_def active_keys_def fun_eq_iff)

lemma served_after:
  "damper_evaluate d now f fresh forced = (d', served) \<Longrightarrow> served_answers d' = (served_answers d)(f \<mapsto> served)"
  by (rule ext) (use ad.evaluate_served ad.evaluate_frame in auto)

lemma resolve_refines:
  assumes "machine_inv m" and "sv_verdicts v = States m"
    and "resolve (Some (machine_iface m)) now r e = (e', out)"
  shows "resolves (with_eval e v) r out (with_eval e' v)"
proof (cases "rec_Candidates r")
  case None
  then show ?thesis
    using assms(3) Pushed [OF None, of "with_eval e v"] by (auto simp: resolve_legacy)
next
  case (Some cands)
  have v: "sv_verdicts (with_eval x v) = States m" for x by (simp add: with_eval_def assms(2))
  note choice = taken_chosen [OF assms(1), of r cands] fresh_wanted [OF assms(1), of r cands]
  show ?thesis
  proof (cases "chosen (States m) r cands = []")
    case True
    then show ?thesis
      using assms(3) Exhausted [OF Some, of "with_eval e v"] by (simp add: resolve_candidates [OF Some] choice v)
  next
    case False
    obtain d' served where ev: "damper_evaluate (ev_damper e) now (rec_FQDN r) (wanted (States m) r cands)
        (walk_forced (Some (machine_iface m)) e r cands) = (d', served)" by fastforce
    have res: "out = Some served"
      "e' = commit_active (rec_FQDN r) (map cand_TargetKey (chosen (States m) r cands))
         (wanted (States m) r cands) served (e\<lparr>ev_damper := d'\<rparr>)"
      using assms(3) False by (simp_all add: resolve_candidates [OF Some] choice ev)
    show ?thesis
    proof (cases "answer_set_equal served (wanted (States m) r cands)")
      case True
      have "with_eval e' v = (with_eval e v)
          \<lparr>sv_given := (sv_given (with_eval e v))(rec_FQDN r \<mapsto> served),
           sv_active := (sv_active (with_eval e v))
             (rec_FQDN r := map cand_TargetKey (chosen (States m) r cands))\<rparr>"
        using True by (simp add: with_eval_def res(2) active_keys_commit served_after [OF ev])
          (simp add: active_keys_def fun_eq_iff)
      then show ?thesis
        using Moves [OF Some, of "with_eval e v" served] False True by (simp add: res(1) v answer_set_equal_mset)
    next
      case stays: False
      have old: "served_answers (ev_damper e) (rec_FQDN r) = Some served"
        using ad.evaluate_choice [OF ev] stays ad.same_refl by metis
      have "\<not> walk_forced (Some (machine_iface m)) e r cands"
        using ad.evaluate_forced [of "ev_damper e" now "rec_FQDN r" "wanted (States m) r cands"] ev stays
        by (metis (full_types) snd_conv)
      then have "\<not> must_move (with_eval e v) r cands"
        using walk_forced_must_move [OF assms(1) v, of e] by (simp add: with_eval_def)
      moreover have "with_eval e' v = with_eval e v"
        using stays old by (simp add: with_eval_def res(2) active_keys_commit served_after [OF ev] fun_upd_idem)
          (simp add: active_keys_def fun_eq_iff)
      ultimately show ?thesis
        using Stays [OF Some, of "with_eval e v" served] False old by (simp add: res(1) v) (simp add: with_eval_def)
    qed
  qed
qed

lemma replies_refines:
  assumes "clean_reply lib" and "machine_inv m" and "sv_verdicts v = States m"
    and "serve_dns lib (Some (machine_iface m)) now (Some (sv_bundle v)) req e = (e', msg)"
  shows "replies lib (with_eval e v) req msg (with_eval e' v)"
proof -
  have b: "sv_bundle (with_eval x v) = sv_bundle v" for x by (simp add: with_eval_def)
  show ?thesis
  proof (cases "in_zone_question lib (Some (sv_bundle v)) req")
    case None
    then show ?thesis
      using assms(4) NotOurs [of lib "with_eval e v" req] by (auto simp: serve_dns_rejected b)
  next
    case (Some x)
    obtain b' zone name t where x: "x = (b', zone, name, t)" by (cases x)
    note zone = Some [unfolded x]
    have b': "b' = sv_bundle v" using in_zone_question_current [OF zone] by simp
    show ?thesis
    proof (cases "lookup lib b' name")
      case None
      then have "e' = e" "msg = set_nxdomain zone (start_reply lib req)"
        using assms(4) by (auto simp: serve_dns_in_zone [OF zone] answerA_def split: if_splits)
      then show ?thesis using NoName [of lib "with_eval e v" req, unfolded b, OF zone None] by simp
    next
      case rec: (Some r)
      show ?thesis
      proof (cases "t = TypeA")
        case False
        then have "e' = e" "msg = start_reply lib req"
          using assms(4) rec by (auto simp: serve_dns_in_zone [OF zone])
        then show ?thesis using OtherType [of lib "with_eval e v" req, unfolded b, OF zone rec False] by simp
      next
        case True
        obtain out where res: "resolve (Some (machine_iface m)) now r e = (e', out)"
          "msg = address_reply name r out (start_reply lib req)"
          using assms(4) rec True clean_replyD(2) [OF assms(1), of req]
          by (cases "resolve (Some (machine_iface m)) now r e")
            (auto simp: serve_dns_in_zone [OF zone] answerA_eq address_reply_def)
        have "resolves (with_eval e v) r out (with_eval e' v)"
          by (rule resolve_refines [OF assms(2,3) res(1)])
        then show ?thesis
          using Address [of lib "with_eval e v" req, unfolded b, OF zone [unfolded True] rec] by (simp add: res(2))
      qed
    qed
  qed
qed

lemma service_of_with_eval: "service_of (s\<lparr>sy_eval := e\<rparr>) = with_eval e (service_of s)"
  by (simp add: service_of_def with_eval_def)

lemma query_refines:
  assumes "clean_reply lib" and "sys_inv s" and "sys_query lib now req s = (t, msg)"
  shows "replies lib (service_of s) req msg (service_of t)"
proof -
  obtain b where b: "Current (snd (sy_world s)) = Some b" using sys_invD [OF assms(2)] by blast
  obtain e' where serve: "serve_dns lib (Some (machine_iface (rn_machine (sy_checks s)))) now (Some b) req (sy_eval s) =
      (e', msg)" "t = s\<lparr>sy_eval := e'\<rparr>"
    using assms(3) by (auto simp: sys_query_def b split: prod.splits)
  have "with_eval (sy_eval s) (service_of s) = service_of s"
    using service_of_with_eval [where s = s and e = "sy_eval s"] by simp
  moreover have "sv_bundle (service_of s) = b" "sv_verdicts (service_of s) = States (rn_machine (sy_checks s))"
    by (simp_all add: service_of_def b)
  ultimately show ?thesis
    using replies_refines [OF assms(1), of "rn_machine (sy_checks s)" "service_of s" now req "sy_eval s" e' msg]
      assms(2) serve by (simp add: service_of_with_eval sys_inv_def)
qed

subsection \<open>Checking\<close>

text \<open>The transitions of one pass are the states it changed.\<close>

lemma run_once_States:
  assumes "distinct (map fst kts)"
  shows "State (rn_machine (run_once net now kts r)) k =
      (case map_of kts k of None \<Rightarrow> State (rn_machine r) k
       | Some t \<Rightarrow> (if due now r k t then snd (snd (result_of net r k t)) else State (rn_machine r) k))"
    and "map_of kts k = None \<Longrightarrow> States (rn_machine (run_once net now kts r)) k = States (rn_machine r) k"
    and "k \<in> dom (States (rn_machine r)) \<Longrightarrow> k \<in> dom (States (rn_machine (run_once net now kts r)))"
  using run_once_entries [OF assms, of net now r k]
  by (auto simp: State_def States_def key_step_def record_result_def Let_def split: option.splits if_splits)

lemma emits_changed:
  assumes "distinct (map fst kts)" and "(key, t) \<in> set kts" and "rn_notifies r"
  shows "emits net now r (key, t) =
    (let h = State (rn_machine (run_once net now kts r)) key in
     if h \<noteq> State (rn_machine r) key then [(key, h, now)] else [])"
proof -
  have "map_of kts key = Some t" using assms(1,2) by simp
  then show ?thesis
    using run_once_States(1) [OF assms(1), of net now r key] assms(3) record_result_State(2)
    by (auto simp: emits_def Let_def split_beta)
qed

lemma run_once_changes:
  assumes "distinct (map fst kts)" and "rn_notifies r"
  shows "drop (length (rn_emitted r)) (rn_emitted (run_once net now kts r)) =
    (let m' = rn_machine (run_once net now kts r) in
     map (\<lambda>k. (k, State m' k, now)) (filter (\<lambda>k. State m' k \<noteq> State (rn_machine r) k) (map fst kts)))"
proof -
  let ?h = "State (rn_machine (run_once net now kts r))"
  let ?e = "\<lambda>k. if ?h k \<noteq> State (rn_machine r) k then [(k, ?h k, now)] else []"
  have each: "map (emits net now r) kts = map ?e (map fst kts)"
    using emits_changed [OF assms(1) _ assms(2)] by (auto simp: Let_def)
  have changed: "concat (map ?e ks) = map (\<lambda>k. (k, ?h k, now)) (filter (\<lambda>k. ?h k \<noteq> State (rn_machine r) k) ks)"
    for ks by (induction ks) auto
  show ?thesis
    using run_once_emitted [OF assms(1), of net now r] unfolding each changed Let_def by simp
qed

lemma told_States: "told (States m) k = health_str (State m k)"
  by (simp add: told_def States_def State_def split: option.splits)

lemma live_targets_registered:
  assumes "live_targets env (Some b) cell = Targets cell' m" and "m k \<noteq> None"
  shows "k \<in> registered b"
proof -
  obtain l where "m = build_targets (b_Records b) l"
    using live_targets_TargetsD [OF assms(1)] by blast
  then have "build_configs (b_Records b) k \<noteq> None" using assms(2) by (auto simp: build_targets_def split: option.splits)
  then have "filter (\<lambda>lc. lc_TargetKey lc = k) (concat (map rec_LocalChecks (b_Records b))) \<noteq> []"
    by (auto simp: build_configs_flat foldl_add_check merged_config_def split: list.splits)
  then show ?thesis by (auto simp: registered_def filter_empty_conv)
qed

lemma tick_announces:
  assumes "distinct (map fst kts)" and "rn_notifies r"
  shows "announces (map transition_of (drop (length (rn_emitted r)) (rn_emitted (run_once net now kts r))))
    (States (rn_machine r)) (States (rn_machine (run_once net now kts r)))"
proof -
  let ?h = "State (rn_machine (run_once net now kts r))" and ?old = "State (rn_machine r)"
  let ?ks = "filter (\<lambda>k. ?h k \<noteq> ?old k) (map fst kts)"
  have ts: "map transition_of (drop (length (rn_emitted r)) (rn_emitted (run_once net now kts r))) =
      map (\<lambda>k. mk_transition k (health_str (?h k)) now) ?ks"
    unfolding run_once_changes [OF assms] Let_def by (simp add: transition_of_def)
  have "k \<in> fst ` set kts" if "?h k \<noteq> ?old k" for k
    using that run_once_States(1) [OF assms(1), of net now r k]
    by (auto simp: map_of_eq_None_iff split: option.splits) (metis fst_conv image_eqI map_of_SomeD)
  then have "set ?ks = {k. ?h k \<noteq> ?old k}" by auto
  moreover have "distinct ?ks" using assms(1) by (rule distinct_filter)
  ultimately show ?thesis
    unfolding announces_def ts told_States health_str_inj
    by (auto simp: mk_transition_def comp_def image_image)
qed

lemma check_refines:
  assumes "sys_inv s" and "live_targets env (Some b) (sy_cell s) = Targets cell' m"
    and "enumerates kts m" and "looks_at (service_of s) = b"
  shows "service_step lib (service_of s) Internal (service_of ((sys_tick cell' net now kts s)\<lparr>sy_waiting := None\<rparr>))"
proof -
  let ?r = "sy_checks s" and ?r' = "run_once net now kts (sy_checks s)"
  let ?ts = "map transition_of (drop (length (rn_emitted ?r)) (rn_emitted ?r'))"
  have kts: "distinct (map fst kts)" "map_of kts = m" using assms(3) by (simp_all add: enumerates_def)
  have "dom (sv_verdicts (service_of s)) \<subseteq> dom (States (rn_machine ?r'))"
    by (simp add: service_of_def subset_iff run_once_States(3) [OF kts(1)] del: domIff)
  moreover have "\<forall>k. k \<notin> registered (looks_at (service_of s)) \<longrightarrow>
      States (rn_machine ?r') k = sv_verdicts (service_of s) k"
    unfolding assms(4) using live_targets_registered [OF assms(2)] run_once_States(2) [OF kts(1)] kts(2)
    by (fastforce simp: service_of_def)
  moreover have "announces ?ts (sv_verdicts (service_of s)) (States (rn_machine ?r'))"
    using tick_announces [OF kts(1), of ?r] assms(1) by (simp add: service_of_def sys_inv_def)
  ultimately have "service_step lib (service_of s) Internal
      ((service_of s)\<lparr>sv_pass := None, sv_verdicts := States (rn_machine ?r'), sv_queue := sv_queue (service_of s) @ ?ts\<rparr>)"
    by (rule Check)
  then show ?thesis by (simp add: service_of_def sys_tick_def Let_def notify_all_pending)
qed

subsection \<open>The process implements the service\<close>

lemma new_world_refines:
  assumes "store_inv (snd w)"
  shows "service_step lib (service_of s) Internal (service_of (note_current (s\<lparr>sy_world := w\<rparr>)))"
proof -
  obtain b where b: "Current (snd w) = Some b" "valid_bundle b" using st.current_valid [OF assms] by blast
  from Adopt [OF this(2), of lib "service_of s"] show ?thesis by (simp add: service_of_def b(1))
qed

lemma report_refines:
  "service_step lib (service_of s) (Reported (report_of c env s)) (service_of (sys_report c env s))"
proof -
  have "service_step lib (service_of s) (Reported (report_of c env s)) ((service_of s)\<lparr>sv_queue := []\<rparr>)"
    by (rule Report) (simp_all add: report_of_def send_now_def take_pending_def make_report_def service_of_def Let_def)
  then show ?thesis
    by (simp add: service_of_def sys_report_def send_now_def take_pending_def opt_list_def Let_def split_beta)
qed

interpretation sv: simulation "sys_act lib" "service_step lib" "\<lambda>s. clean_reply lib \<and> sys_inv s" service_of for lib
proof unfold_locales
  fix s e t
  assume inv: "clean_reply lib \<and> sys_inv s" and act: "sys_act lib s e t"
  show "clean_reply lib \<and> sys_inv t" using inv act sys_act_step sys_step_inv by blast
  show "service_step lib (service_of s) e (service_of t)"
    using act
  proof cases
    case (ActRefetch c env)
    then show ?thesis
      using inv unfolding sys_refetch_def by (auto intro!: new_world_refines refetch_inv simp: sys_inv_def)
  next
    case (ActReload itf oc now)
    then show ?thesis
      using inv unfolding sys_reload_def by (auto intro!: new_world_refines reload_if_changed_inv simp: sys_inv_def)
  next
    case (ActCheck c env cell' m kts net now)
    obtain b where b: "Current (snd (sy_world s)) = Some b" using sys_invD inv by blast
    have "t\<lparr>sy_waiting := None\<rparr> = t" using ActCheck by (cases s) (simp add: sys_tick_def Let_def)
    moreover have "looks_at (service_of s) = b" using ActCheck b by (simp add: looks_at_def service_of_def)
    ultimately show ?thesis using check_refines [of s env b cell' m kts lib net now] ActCheck inv b by simp
  next
    case (ActBlock c b env now)
    then show ?thesis using Begin [of "service_of s" lib] by (simp add: service_of_def)
  next
    case (ActResume now b env cell' m kts net)
    then show ?thesis using check_refines [of s env b cell' m kts lib net now] inv
      by (simp add: looks_at_def service_of_def)
  next
    case (ActQuery now req msg)
    then show ?thesis using query_refines inv by (blast intro: Reply)
  next
    case (ActReport c env)
    then show ?thesis by (simp add: report_refines)
  qed
qed

lemma service_of_start:
  "Current (snd w) = Some b \<Longrightarrow> service_of (start_system plan w) = initial_service b"
  by (simp add: service_of_def start_system_def initial_service_def new_evaluator_def new_damper_def
      served_answers_def active_keys_def new_reporter_def opt_list_def States_def new_machine_def fun_eq_iff)

subsection \<open>What the reports tell\<close>

definition reported :: "event list \<Rightarrow> transition list" where
  "reported es = concat (map (\<lambda>e. case e of Reported report \<Rightarrow> opt_list (hr_Transitions report) | _ \<Rightarrow> []) es)"

abbreviation put_state :: "(string \<Rightarrow> string) \<Rightarrow> transition \<Rightarrow> string \<Rightarrow> string" where
  "put_state st t \<equiv> st(tr_TargetKey t := tr_State t)"

lemma put_states_other: "k \<notin> tr_TargetKey ` set ts \<Longrightarrow> foldl put_state st ts k = st k"
  by (induction ts arbitrary: st) simp_all

lemma put_states_in:
  "distinct (map tr_TargetKey ts) \<Longrightarrow> t \<in> set ts \<Longrightarrow> foldl put_state st ts (tr_TargetKey t) = tr_State t"
  by (induction ts arbitrary: st) (auto simp: put_states_other)

lemma announced_states:
  assumes "announces ts verdicts verdicts'"
  shows "foldl put_state (told verdicts) ts = told verdicts'"
proof
  fix k
  have changed: "(\<lambda>t. (tr_TargetKey t, tr_State t)) ` set ts =
      {(k, told verdicts' k) | k. told verdicts' k \<noteq> told verdicts k}"
    using assms by (simp add: announces_def)
  show "foldl put_state (told verdicts) ts k = told verdicts' k"
  proof (cases "k \<in> tr_TargetKey ` set ts")
    case False
    then have "k \<notin> fst ` ((\<lambda>t. (tr_TargetKey t, tr_State t)) ` set ts)" by auto
    then have "told verdicts' k = told verdicts k" unfolding changed by force
    with False show ?thesis by (simp add: put_states_other)
  next
    case True
    then obtain t where t: "t \<in> set ts" "k = tr_TargetKey t" by blast
    then have "(k, tr_State t) \<in> {(k, told verdicts' k) | k. told verdicts' k \<noteq> told verdicts k}"
      unfolding changed [symmetric] by blast
    with t show ?thesis using assms by (simp add: put_states_in announces_def)
  qed
qed

lemma service_runs_told:
  "runs (service_step lib) v0 es v \<Longrightarrow> v0 = initial_service b \<Longrightarrow>
   received (reported es @ sv_queue v) = told (sv_verdicts v)"
proof (induction rule: runs.induct)
  case (RunsNil s)
  then show ?case by (simp add: reported_def received_def initial_service_def told_def)
next
  case (RunsSnoc s es t e u)
  then have IH: "received (reported es @ sv_queue t) = told (sv_verdicts t)" by simp
  from RunsSnoc.hyps(2) show ?case
  proof cases
    case (Check verdicts ts)
    then show ?thesis
      using IH announced_states [of ts "sv_verdicts t" verdicts] by (simp add: reported_def received_def)
  next
    case (Reply req msg)
    have "sv_queue u = sv_queue t \<and> sv_verdicts u = sv_verdicts t"
      using Reply(2) by (auto elim!: replies.cases resolves.cases)
    then show ?thesis using IH Reply(1) by (simp add: reported_def)
  qed (use IH in \<open>simp_all add: reported_def\<close>)
qed

subsection \<open>Properties\<close>

text \<open>C3. As long as queries, passes and reports do not overlap, the whole process implements the
  service: the replies it gives and the reports it makes from its boot on are those of a run of the
  service that starts with the bundle booted and no verdicts. Files, caching, schedules, streaks and freezes show in nothing but
  the choices the service leaves open.\<close>

theorem process_refines_service:
  assumes "boot_store show_err plan cd env fs = Some w" and "clean_reply lib"
    and "runs (sys_act lib) (start_system plan w) es t"
  shows "\<exists>b. Current (snd w) = Some b \<and> valid_bundle b \<and>
    runs (service_step lib) (initial_service b) es (service_of t)"
proof -
  have "store_inv (snd w)" using assms(1) by (rule boot_store_inv)
  then obtain b where b: "Current (snd w) = Some b" "valid_bundle b" using st.current_valid by blast
  have "sys_inv (start_system plan w)" using \<open>store_inv (snd w)\<close> by (rule start_system_inv)
  then have "runs (service_step lib) (service_of (start_system plan w)) es (service_of t)"
    using sv.runs_abs [OF assms(3)] assms(2) by blast
  with b show ?thesis by (simp add: service_of_start)
qed

theorem process_refines_service_witness:
  "\<exists>b msg v. runs (service_step sample_lib) (initial_service b) [Replied (query_for ''z'' TypeA) msg] v \<and>
     (\<exists>x \<in> set (m_Answer msg). rr_IP x = [1, 1, 1, 1])"
proof -
  let ?q = "sys_query sample_lib 0 (query_for ''z'' TypeA) zone_system"
  have "runs (sys_act sample_lib) zone_system [Replied (query_for ''z'' TypeA) (snd ?q)] (fst ?q)"
    by (intro runs_one ActQuery) (rule prod.collapse [symmetric])
  from process_refines_service [OF zone_boot sample_lib_clean this [unfolded zone_system_def]]
  obtain b where "runs (service_step sample_lib) (initial_service b)
      [Replied (query_for ''z'' TypeA) (snd ?q)] (service_of (fst ?q))"
    by (auto simp: zone_system_def [symmetric])
  with zone_query show ?thesis by (metis list.set_intros(1))
qed

text \<open>As long as passes and reports do not overlap, every report is consistent with all that was
  reported before: replaying the transitions of all reports up to and with this one, from
  unknown, gives exactly the states the report carries, target by target. \<open>Monitoring\<close> shows
  what is left of this when they do overlap.\<close>

theorem reports_tell_the_states:
  assumes "boot_store show_err plan cd env fs = Some w" and "clean_reply lib"
    and "runs (sys_act lib) (start_system plan w) (es @ [Reported report]) t"
  shows "\<exists>states. hr_States report = Some states \<and>
    received (reported (es @ [Reported report])) = told states"
proof -
  have inv: "clean_reply lib \<and> sys_inv (start_system plan w)"
    using assms(1,2) boot_store_inv start_system_inv by blast
  obtain b where b: "Current (snd w) = Some b"
    using boot_store_inv [OF assms(1)] st.current_valid by blast
  from assms(3) obtain u where u: "runs (sys_act lib) (start_system plan w) es u"
    "sys_act lib u (Reported report) t" by cases auto
  have "runs (service_step lib) (initial_service b) es (service_of u)"
    using sv.runs_abs [OF u(1) inv] b by (simp add: service_of_start)
  then have "received (reported es @ sv_queue (service_of u)) = told (sv_verdicts (service_of u))"
    by (rule service_runs_told) simp
  moreover have "service_step lib (service_of u) (Reported report) (service_of t)"
    using sv.step_abs [OF _ u(2)] sv.runs_abs [OF u(1) inv] by blast
  then have "opt_list (hr_Transitions report) = sv_queue (service_of u) \<and>
    hr_States report = Some (sv_verdicts (service_of u))" by cases simp_all
  ultimately show ?thesis by (simp add: reported_def)
qed

text \<open>A process in fetch mode that Zeus did not answer at boot, serving its cached bundle.\<close>

definition cached_fs :: fs where
  "cached_fs = [cache_path ''c'' \<mapsto> plain_file 5 zone_raw]"

definition cached_world :: world where
  "cached_world = (cached_fs, set_current zone_doc zero_time (empty_store [] ''c''))"

lemma cached_boot:
  "boot_store (\<lambda>_. []) (FetchMode sample_client) ''c'' quiet_start cached_fs = Some cached_world"
proof -
  let ?env = "boot_env_of (\<lambda>_. []) sample_client quiet_start"
  have "delivers ?env k = None" for k
    by (simp add: delivers_def boot_env_of_def quiet_start_def fetch_bundle_def)
  then have none: "first_delivery ?env bo n k = None" for bo n k by (induction n arbitrary: k) simp_all
  have "load_cache cached_fs ''c'' = Inr zone_doc"
    by (simp add: load_cache_def load_file_def cached_fs_def read_plain_file zone_accepted)
  then show ?thesis
    using boot_from_fetch_None [OF none, of "Some (linear_backoff bootFetchBackoffStep)" bootFetchRetries "''c''" cached_fs]
    by (auto simp: boot_store_def cached_world_def)
qed

theorem reports_tell_the_states_witness:
  "\<exists>states. hr_States (report_of sample_client dead_env (start_system (FetchMode sample_client) cached_world)) = Some states \<and>
     received (reported [Reported (report_of sample_client dead_env
       (start_system (FetchMode sample_client) cached_world))]) = told states"
proof -
  let ?s = "start_system (FetchMode sample_client) cached_world"
  have "sy_client ?s = Some sample_client" by (simp add: start_system_def)
  then have "runs (sys_act sample_lib) ?s ([] @ [Reported (report_of sample_client dead_env ?s)])
      (sys_report sample_client dead_env ?s)" by (simp add: runs_one ActReport)
  from reports_tell_the_states [OF cached_boot sample_lib_clean this] show ?thesis by simp
qed

end
