(* ===== verification/Monitoring.thy ===== *)
theory Monitoring
  imports Service
begin

text \<open>
  The checks goroutine (\<^verbatim>\<open>internal/checks/runner.go\<close>) and the reporter goroutine
  (\<^verbatim>\<open>internal/remote/reporter.go\<close>) side by side. \<open>System\<close> takes a pass over the
  targets, and a report, as one step each. Here they are taken apart where the code lets the other
  goroutine in: around a probe, between \<open>RecordResult\<close> and the transition's place in the queue,
  between the queue and the wake-up, between emptying the queue and reading the states. Each step is
  what runs under one lock or touches one goroutine's own data. \<open>mo_reports\<close>, the reports made,
  and \<open>mo_rounds\<close>, the reports of the rounds that ended with how they ended, are ghost fields, as is
  the list of transitions in the runner.
\<close>

datatype checks_at =
    CkIdle
  | CkAt go_time "(string \<times> target) list"
  | CkProbing go_time string target "(string \<times> target) list"
  | CkNotify go_time string health "(string \<times> target) list"
  | CkSignal go_time "(string \<times> target) list"

datatype sender = SnIdle | SnDraining | SnTaken "transition list option" | SnSending health_report | SnStopped

record monitor =
  mo_runner :: ChecksRunner.runner
  mo_checks :: checks_at
  mo_rep :: reporter
  mo_sender :: sender
  mo_reports :: "health_report list"
  mo_rounds :: "(health_report \<times> round_end) list"

definition start_monitor :: monitor where
  "start_monitor = \<lparr>mo_runner = fresh_runner, mo_checks = CkIdle, mo_rep = ensure_init new_reporter,
     mo_sender = SnIdle, mo_reports = [], mo_rounds = []\<rparr>"

subsection \<open>Steps\<close>

definition due_mark :: "go_time \<Rightarrow> string \<Rightarrow> runner \<Rightarrow> runner" where
  "due_mark now key r = r\<lparr>rn_lastRun := (rn_lastRun r)(key \<mapsto> now)\<rparr>"

definition record_probe ::
  "(string \<Rightarrow> network) \<Rightarrow> go_time \<Rightarrow> string \<Rightarrow> target \<Rightarrow> (string \<times> target) list \<Rightarrow> runner \<Rightarrow> runner \<times> checks_at"
where
  "record_probe net now key t kts r =
     (case record_result key (probe (net key) (tg_Prober t)) (cfg_FailureThreshold (tg_Config t))
             (cfg_RecoveryThreshold (tg_Config t)) (rn_machine r) of
        (m', transitioned, new) \<Rightarrow>
          (if transitioned \<and> rn_notifies r
           then (r\<lparr>rn_machine := m', rn_emitted := rn_emitted r @ [(key, new, now)]\<rparr>, CkNotify now key new kts)
           else (r\<lparr>rn_machine := m'\<rparr>, CkAt now kts)))"

inductive mon_step :: "client \<Rightarrow> monitor \<Rightarrow> monitor \<Rightarrow> bool" for c :: client where
  CkTick: "mo_checks s = CkIdle \<Longrightarrow> distinct (map fst kts) \<Longrightarrow> mon_step c s (s\<lparr>mo_checks := CkAt now kts\<rparr>)"
| CkSkip: "mo_checks s = CkAt now ((key, t) # kts) \<Longrightarrow> \<not> due now (mo_runner s) key t \<Longrightarrow>
    mon_step c s (s\<lparr>mo_checks := CkAt now kts\<rparr>)"
| CkDue: "mo_checks s = CkAt now ((key, t) # kts) \<Longrightarrow> due now (mo_runner s) key t \<Longrightarrow>
    mon_step c s (s\<lparr>mo_runner := due_mark now key (mo_runner s), mo_checks := CkProbing now key t kts\<rparr>)"
| CkRecord: "mo_checks s = CkProbing now key t kts \<Longrightarrow>
    record_probe net now key t kts (mo_runner s) = (r', at) \<Longrightarrow>
    mon_step c s (s\<lparr>mo_runner := r', mo_checks := at\<rparr>)"
| CkQueue: "mo_checks s = CkNotify now key h kts \<Longrightarrow>
    mon_step c s (s\<lparr>mo_rep := queue_transition (mk_transition key (health_str h) now) (ensure_init (mo_rep s)),
      mo_checks := CkSignal now kts\<rparr>)"
| CkWake: "mo_checks s = CkSignal now kts \<Longrightarrow>
    mon_step c s (s\<lparr>mo_rep := signal_wake (mo_rep s), mo_checks := CkAt now kts\<rparr>)"
| CkDone: "mo_checks s = CkAt now [] \<Longrightarrow> mon_step c s (s\<lparr>mo_checks := CkIdle\<rparr>)"
| SnTick: "mo_sender s = SnIdle \<Longrightarrow> mon_step c s (s\<lparr>mo_sender := SnDraining\<rparr>)"
| SnWake: "mo_sender s = SnIdle \<Longrightarrow> rp_wake (mo_rep s) = Some True \<Longrightarrow>
    mon_step c s (s\<lparr>mo_rep := (mo_rep s)\<lparr>rp_wake := Some False\<rparr>, mo_sender := SnDraining\<rparr>)"
| SnStop: "mo_sender s = SnIdle \<Longrightarrow> mon_step c s (s\<lparr>mo_sender := SnStopped\<rparr>)"
| SnTake: "mo_sender s = SnDraining \<Longrightarrow> take_pending (mo_rep s) = (ts, rep') \<Longrightarrow>
    mon_step c s (s\<lparr>mo_rep := rep', mo_sender := SnTaken ts\<rparr>)"
| SnSnapshot: "mo_sender s = SnTaken ts \<Longrightarrow>
    report = make_report c (Some (States (rn_machine (mo_runner s)))) ts \<Longrightarrow>
    mon_step c s (s\<lparr>mo_sender := SnSending report, mo_reports := mo_reports s @ [report]\<rparr>)"
| SnFinish: "mo_sender s = SnSending report \<Longrightarrow> send_loop c backoff env report 0 0 0 = (e, sends, waited) \<Longrightarrow>
    mon_step c s (s\<lparr>mo_sender := SnIdle, mo_rounds := mo_rounds s @ [(report, e)]\<rparr>)"

definition mon_reachable :: "client \<Rightarrow> monitor \<Rightarrow> bool" where
  "mon_reachable c s \<longleftrightarrow> (mon_step c)\<^sup>*\<^sup>* start_monitor s"

subsection \<open>The invariant\<close>

definition announced :: "monitor \<Rightarrow> transition list" where
  "announced s = map transition_of (rn_emitted (mo_runner s))"

definition reported_by :: "health_report list \<Rightarrow> transition list" where
  "reported_by reports = concat (map (\<lambda>report. opt_list (hr_Transitions report)) reports)"

fun taken_out :: "sender \<Rightarrow> transition list" where
  "taken_out (SnTaken ts) = opt_list ts"
| "taken_out _ = []"

fun unqueued :: "checks_at \<Rightarrow> transition list" where
  "unqueued (CkNotify now key h kts) = [mk_transition key (health_str h) now]"
| "unqueued _ = []"

text \<open>The states of a report are those after some number of the transitions announced, no fewer than
  the reports up to it have told.\<close>

definition ahead :: "transition list \<Rightarrow> health_report list \<Rightarrow> bool" where
  "ahead ts reports \<longleftrightarrow> (\<forall>i < length reports. \<exists>states n. hr_States (reports ! i) = Some states \<and>
     length (reported_by (take (Suc i) reports)) \<le> n \<and> n \<le> length ts \<and>
     told states = received (take n ts))"

definition mon_inv :: "monitor \<Rightarrow> bool" where
  "mon_inv s \<longleftrightarrow> rn_notifies (mo_runner s) \<and>
     told (States (rn_machine (mo_runner s))) = received (announced s) \<and>
     reported_by (mo_reports s) @ taken_out (mo_sender s) @ opt_list (rp_pending (mo_rep s)) @
       unqueued (mo_checks s) = announced s \<and>
     ahead (announced s) (mo_reports s)"

lemma received_snoc: "received (ts @ [t]) = (received ts)(tr_TargetKey t := tr_State t)"
  by (simp add: received_def)

lemma reported_by_snoc: "reported_by (reports @ [report]) = reported_by reports @ opt_list (hr_Transitions report)"
  by (simp add: reported_by_def)

lemma ahead_more: "ahead ts reports \<Longrightarrow> ahead (ts @ us) reports"
  unfolding ahead_def by (metis length_append take_append diff_is_0_eq take_0 append_Nil2 trans_le_add1)

lemma ahead_snoc:
  assumes "ahead ts reports" and "hr_States report = Some states" and "told states = received ts"
    and "length (reported_by (reports @ [report])) \<le> length ts"
  shows "ahead ts (reports @ [report])"
proof -
  have "hr_States ((reports @ [report]) ! i) = Some states \<and>
      length (reported_by (take (Suc i) (reports @ [report]))) \<le> length ts \<and>
      told states = received (take (length ts) ts)" if "i = length reports" for i
    using assms(2-4) that by simp
  then show ?thesis
    using assms(1) by (fastforce simp: ahead_def nth_append less_Suc_eq)
qed

lemma record_probe_told:
  assumes "record_probe net now key t kts r = (r', at)" and "rn_notifies r"
  shows "rn_notifies r' \<and>
    ((\<exists>h. at = CkNotify now key h kts \<and> rn_emitted r' = rn_emitted r @ [(key, h, now)] \<and>
        told (States (rn_machine r')) = (told (States (rn_machine r)))(key := health_str h)) \<or>
     at = CkAt now kts \<and> rn_emitted r' = rn_emitted r \<and>
       told (States (rn_machine r')) = told (States (rn_machine r)))"
proof -
  obtain m' tr h where rec: "result_of net r key t = (m', tr, h)" by (rule prod_cases3)
  have st: "State m' = (State (rn_machine r))(key := h)" "tr \<longleftrightarrow> State (rn_machine r) key \<noteq> h"
    using record_result_State [of key _ _ _ "rn_machine r"] rec by (metis fst_conv snd_conv)+
  have "told (States m') = (told (States (rn_machine r)))(key := health_str h)"
    by (simp add: fun_eq_iff told_States st(1))
  moreover have "told (States (rn_machine r)) key = health_str h" if "\<not> tr"
    using that st(2) by (simp add: told_States)
  ultimately show ?thesis
    using assms rec by (cases tr) (auto simp: record_probe_def)
qed

lemma queue_pending:
  "opt_list (rp_pending (queue_transition t r)) = opt_list (rp_pending r) @ [t]"
  by (simp add: queue_transition_def slice_append_def opt_list_def split: option.splits)

lemma mon_step_inv [comp_inv]: "mon_step c s t \<Longrightarrow> mon_inv s \<Longrightarrow> mon_inv t"
proof (induction rule: mon_step.induct)
  case (CkRecord s now key t kts net r' at)
  from record_probe_told [OF CkRecord(2)] CkRecord(3)
  consider h where "rn_notifies r'" "at = CkNotify now key h kts" "rn_emitted r' = rn_emitted (mo_runner s) @ [(key, h, now)]"
      "told (States (rn_machine r')) = (told (States (rn_machine (mo_runner s))))(key := health_str h)"
    | "rn_notifies r'" "at = CkAt now kts" "rn_emitted r' = rn_emitted (mo_runner s)"
      "told (States (rn_machine r')) = told (States (rn_machine (mo_runner s)))"
    by (auto simp: mon_inv_def)
  then show ?case
  proof cases
    case 1
    then have "announced (s\<lparr>mo_runner := r', mo_checks := at\<rparr>) = announced s @ [mk_transition key (health_str h) now]"
      by (simp add: announced_def transition_of_def)
    with 1 CkRecord(1,3) show ?thesis
      by (simp add: mon_inv_def received_snoc ahead_more) (simp add: mk_transition_def)
  next
    case 2
    with CkRecord(1,3) show ?thesis by (simp add: mon_inv_def announced_def)
  qed
next
  case (SnSnapshot s ts report)
  have all: "announced s = reported_by (mo_reports s @ [report]) @ opt_list (rp_pending (mo_rep s)) @ unqueued (mo_checks s)"
    using SnSnapshot by (simp add: mon_inv_def reported_by_snoc make_report_def)
  have "hr_States report = Some (States (rn_machine (mo_runner s)))"
    using SnSnapshot(2) by (simp add: make_report_def)
  moreover have "told (States (rn_machine (mo_runner s))) = received (announced s)" "ahead (announced s) (mo_reports s)"
    using SnSnapshot(3) unfolding mon_inv_def by blast+
  ultimately have "ahead (announced s) (mo_reports s @ [report])"
    using ahead_snoc all by (metis length_append le_add1)
  with SnSnapshot show ?case
    by (simp add: mon_inv_def announced_def reported_by_snoc) (simp add: make_report_def)
next
  case (SnTake s ts rep')
  then show ?case by (auto simp: mon_inv_def announced_def take_pending_def opt_list_def)
qed (auto simp: mon_inv_def announced_def due_mark_def queue_pending signal_wake_def)

lemma start_monitor_inv: "mon_inv start_monitor"
  by (simp add: mon_inv_def start_monitor_def fresh_runner_def announced_def reported_by_def ahead_def
      opt_list_def ensure_init_def new_reporter_def received_def told_def States_def new_machine_def fun_eq_iff)

lemma mon_reachable_inv: "mon_reachable c s \<Longrightarrow> mon_inv s"
  unfolding mon_reachable_def
  by (induction rule: rtranclp_induct) (blast intro: start_monitor_inv mon_step_inv)+







subsection \<open>Uninterrupted passes and reports\<close>



lemma notify_all_init: "rp_initialized r \<Longrightarrow> rp_initialized (notify_all xs r)"
  by (induction xs r rule: notify_all.induct)
    (simp_all add: notify_transition_def signal_wake_def queue_transition_def ensure_init_def)





subsection \<open>Properties\<close>

text \<open>C12. However checks and reports interleave, the reports never fall behind themselves: together
  they tell the transitions in the order in which the machine made them, none twice and none left
  out before a later one, and the states of each report are those after at least all the transitions
  told with it and before it. The states never lag behind what the transitions have told.\<close>

theorem reports_never_behind:
  assumes "mon_reachable c s" and "i < length (mo_reports s)"
  shows "\<exists>states n rest. announced s = reported_by (take (Suc i) (mo_reports s)) @ rest \<and>
    hr_States (mo_reports s ! i) = Some states \<and>
    length (reported_by (take (Suc i) (mo_reports s))) \<le> n \<and> n \<le> length (announced s) \<and>
    told states = received (take n (announced s))"
proof -
  from mon_reachable_inv [OF assms(1)] have inv: "mon_inv s" .
  then have "announced s = reported_by (mo_reports s) @ taken_out (mo_sender s) @ opt_list (rp_pending (mo_rep s)) @
      unqueued (mo_checks s)" by (simp add: mon_inv_def)
  moreover have "reported_by (mo_reports s) = reported_by (take (Suc i) (mo_reports s)) @
      reported_by (drop (Suc i) (mo_reports s))"
    unfolding reported_by_def by (metis append_take_drop_id concat_append map_append)
  moreover have "ahead (announced s) (mo_reports s)" using inv by (simp add: mon_inv_def)
  ultimately show ?thesis using assms(2) unfolding ahead_def by fastforce
qed

text \<open>A pass over one failing target, up to the transition that is recorded and not queued yet,
  and a heartbeat in that moment.\<close>

definition failing_pass :: "runner \<times> checks_at" where
  "failing_pass = record_probe (\<lambda>_. up_net) 0 (itoa 1) k8s_target [] (due_mark 0 (itoa 1) fresh_runner)"

definition overtaken :: "client \<Rightarrow> monitor" where
  "overtaken c = (let report = make_report c (Some (States (rn_machine (fst failing_pass)))) None in
     \<lparr>mo_runner = fst failing_pass, mo_checks = snd failing_pass, mo_rep = ensure_init new_reporter,
      mo_sender = SnSending report, mo_reports = [report], mo_rounds = []\<rparr>)"

lemma overtaken_reachable: "mon_reachable c (overtaken c)"
proof -
  let ?s0 = start_monitor
  let ?s1 = "?s0\<lparr>mo_checks := CkAt 0 [(itoa 1, k8s_target)]\<rparr>"
  let ?s2 = "?s1\<lparr>mo_runner := due_mark 0 (itoa 1) (mo_runner ?s1), mo_checks := CkProbing 0 (itoa 1) k8s_target []\<rparr>"
  let ?s3 = "?s2\<lparr>mo_runner := fst failing_pass, mo_checks := snd failing_pass\<rparr>"
  let ?s4 = "?s3\<lparr>mo_sender := SnDraining\<rparr>"
  let ?s5 = "?s4\<lparr>mo_rep := (mo_rep ?s4)\<lparr>rp_pending := None\<rparr>, mo_sender := SnTaken None\<rparr>"
  have "mon_step c ?s0 ?s1" by (rule CkTick) (simp_all add: start_monitor_def)
  moreover have "mon_step c ?s1 ?s2"
    by (rule CkDue) (simp_all add: due_def start_monitor_def fresh_runner_def)
  moreover have "mon_step c ?s2 ?s3"
    by (rule CkRecord) (simp_all add: failing_pass_def start_monitor_def)
  moreover have "mon_step c ?s3 ?s4" by (rule SnTick) (simp add: start_monitor_def)
  moreover have "mon_step c ?s4 ?s5"
    by (rule SnTake) (simp_all add: take_pending_def start_monitor_def ensure_init_def new_reporter_def)
  moreover have "mon_step c ?s5 (overtaken c)"
    using SnSnapshot [of ?s5 None _ c]
    by (simp add: overtaken_def start_monitor_def ensure_init_def new_reporter_def Let_def)
  ultimately show ?thesis
    unfolding mon_reachable_def by (meson rtranclp.rtrancl_into_rtrancl rtranclp.rtrancl_refl)
qed

theorem reports_never_behind_witness:
  "\<exists>states n. hr_States (mo_reports (overtaken sample_client) ! 0) = Some states \<and>
     n \<le> length (announced (overtaken sample_client)) \<and> told states = received (take n (announced (overtaken sample_client)))"
  using reports_never_behind [OF overtaken_reachable, of 0 sample_client] by (auto simp: overtaken_def Let_def)

text \<open>But the states can run ahead: the machine shows a change before its transition is in the
  queue, so a heartbeat in between reports a target unhealthy although no transition to that state
  is in this report or any before it. The agreement of states and transitions holds only when
  passes and reports do not overlap.\<close>

theorem states_can_run_ahead:
  "\<exists>s report states k. mon_reachable c s \<and> mo_reports s = [report] \<and> hr_States report = Some states \<and>
     told states k = HealthUnhealthy \<and> received (reported_by [report]) k = HealthUnknown"
proof (intro exI conjI)
  show "mon_reachable c (overtaken c)" by (rule overtaken_reachable)
  show "mo_reports (overtaken c) = [make_report c (Some (States (rn_machine (fst failing_pass)))) None]"
    by (simp add: overtaken_def Let_def)
  show "hr_States (make_report c (Some (States (rn_machine (fst failing_pass)))) None) =
      Some (States (rn_machine (fst failing_pass)))" by (simp add: make_report_def)
  have "State (rn_machine (fst failing_pass)) (itoa 1) = Unhealthy"
    by (simp add: failing_pass_def record_probe_def record_result_def step_target_def get_or_create_def
        due_mark_def fresh_runner_def new_machine_def k8s_target_def k8s_check_def config_of_def
        zero_local_check_def State_def Let_def)
  then show "told (States (rn_machine (fst failing_pass))) (itoa 1) = HealthUnhealthy"
    by (simp add: told_States)
  show "received (reported_by [make_report c (Some (States (rn_machine (fst failing_pass)))) None]) (itoa 1) = HealthUnknown"
    by (simp add: reported_by_def make_report_def opt_list_def received_def)
qed






end
