(* ===== verification/ConcurrentResolve.thy ===== *)
theory ConcurrentResolve
  imports Evaluator
begin

text \<open>
  Concurrent calls of \<open>Evaluator.Resolve\<close> (\<^verbatim>\<open>internal/dnsserver/evaluate.go\<close>). The DNS
  library serves every query in a goroutine of its own, and all of them share the one evaluator. A
  call is a program position; it takes the evaluator's mutex twice, to read the active keys and to
  write them, and calls the damper in between without it. The steps are those sections, in the
  code's order, the call of the damper being one of them (what is shown here to be reachable is
  reachable in the program; \<open>RacingResolve\<close> takes the damper apart): other calls may run between any two of them, and the local health read by the walk is
  whatever it is at that step; as its state and its readiness are independent functions, a verdict
  recorded between the two calls for a candidate is among the values met. \<open>cv_walks\<close> is a ghost
  field, the walks made so far.
\<close>

subsection \<open>Calls and their steps\<close>

datatype position =
    Idle
  | Called dns_record
  | Walking dns_record "candidate list" "string list"
  | Damping dns_record "string list" "answer list" bool
  | Committing dns_record "string list" "answer list" "answer list"
  | Returned dns_record "answer list option"

record calls =
  cv_ev :: evaluator
  cv_at :: "nat \<Rightarrow> position"
  cv_walks :: "(local_health_iface option \<times> dns_record) list"

definition no_calls :: calls where
  "no_calls = \<lparr>cv_ev = new_evaluator, cv_at = (\<lambda>_. Idle), cv_walks = []\<rparr>"

abbreviation move :: "nat \<Rightarrow> position \<Rightarrow> calls \<Rightarrow> calls" where
  "move i p s \<equiv> s\<lparr>cv_at := (cv_at s)(i := p)\<rparr>"

text \<open>The position after the walk: no viable candidate with addresses returns at once.\<close>

definition after_walk :: "local_health_iface option \<Rightarrow> dns_record \<Rightarrow> candidate list \<Rightarrow> string list \<Rightarrow> position" where
  "after_walk mach r cands prevKeys =
     (case walk_record mach prevKeys r cands of
        (viableKeys, groups, forced) \<Rightarrow>
          (if groups = [] then Returned r None else Damping r viableKeys (concat groups) forced))"

inductive call_step :: "calls \<Rightarrow> calls \<Rightarrow> bool" where
  Enter: "cv_at s i = Idle \<Longrightarrow> call_step s (move i (Called r) s)"
| Legacy: "cv_at s i = Called r \<Longrightarrow> rec_Candidates r = None \<Longrightarrow>
    call_step s (move i (Returned r
      (if rec_State r = StateOK \<or> rec_State r = StateDegraded then Some (rec_Answers r) else None)) s)"
| ReadKeys: "cv_at s i = Called r \<Longrightarrow> rec_Candidates r = Some cands \<Longrightarrow>
    call_step s (move i (Walking r cands (active_keys (cv_ev s) (rec_FQDN r))) s)"
| Walk: "cv_at s i = Walking r cands prevKeys \<Longrightarrow>
    call_step s (move i (after_walk mach r cands prevKeys) (s\<lparr>cv_walks := cv_walks s @ [(mach, r)]\<rparr>))"
| Damp: "cv_at s i = Damping r viableKeys fresh forced \<Longrightarrow>
    damper_evaluate (ev_damper (cv_ev s)) now (rec_FQDN r) fresh forced = (d', served) \<Longrightarrow>
    call_step s (move i (Committing r viableKeys fresh served) (s\<lparr>cv_ev := (cv_ev s)\<lparr>ev_damper := d'\<rparr>\<rparr>))"
| Commit: "cv_at s i = Committing r viableKeys fresh served \<Longrightarrow>
    call_step s (move i (Returned r (Some served))
      (s\<lparr>cv_ev := commit_active (rec_FQDN r) viableKeys fresh served (cv_ev s)\<rparr>))"

inductive calls_reachable :: "calls \<Rightarrow> bool" where
  CallsStart: "calls_reachable no_calls"
| CallsStep: "calls_reachable s \<Longrightarrow> call_step s t \<Longrightarrow> calls_reachable t"

text \<open>
  The damper's lookup \<open>d.records[fqdn]\<close> is made with no lock held, and for a name without an
  entry it is followed by a write to the same Go map. Two calls at that point are not ordered by
  any synchronisation, so they race when one of them writes.
\<close>

definition writes_records :: "calls \<Rightarrow> nat \<Rightarrow> bool" where
  "writes_records s i = (case cv_at s i of
     Damping r viableKeys fresh forced \<Rightarrow> Option.is_none (ev_damper (cv_ev s) (rec_FQDN r))
   | _ \<Rightarrow> False)"

definition uses_records :: "calls \<Rightarrow> nat \<Rightarrow> bool" where
  "uses_records s i = (case cv_at s i of Damping r viableKeys fresh forced \<Rightarrow> True | _ \<Rightarrow> False)"

definition records_race :: "calls \<Rightarrow> bool" where
  "records_race s \<longleftrightarrow> (\<exists>i j. i \<noteq> j \<and> writes_records s i \<and> uses_records s j)"

subsection \<open>A call that runs alone is \<open>resolve\<close>\<close>

inductive calls_run :: "calls \<Rightarrow> calls \<Rightarrow> bool" where
  RunRefl: "calls_run s s"
| RunStep: "calls_run s t \<Longrightarrow> call_step t u \<Longrightarrow> calls_run s u"

lemma calls_run_trans: "calls_run s t \<Longrightarrow> calls_run t u \<Longrightarrow> calls_run s u"
  by (rotate_tac, induction rule: calls_run.induct) (auto intro: calls_run.intros)

lemma calls_run_reachable: "calls_run s t \<Longrightarrow> calls_reachable s \<Longrightarrow> calls_reachable t"
  by (induction rule: calls_run.induct) (auto intro: calls_reachable.intros)

lemma call_step_run: "call_step s t \<Longrightarrow> calls_run s t"
  by (rule RunStep [OF RunRefl])


lemma walk_alone:
  assumes "cv_at s i = Idle" and "rec_Candidates r = Some cands"
  shows "calls_run s (move i (after_walk mach r cands (active_keys (cv_ev s) (rec_FQDN r)))
    (s\<lparr>cv_walks := cv_walks s @ [(mach, r)]\<rparr>))"
proof -
  let ?prev = "active_keys (cv_ev s) (rec_FQDN r)"
  let ?s1 = "move i (Called r) s"
  let ?s2 = "move i (Walking r cands ?prev) ?s1"
  have "call_step s ?s1" by (rule Enter, rule assms(1))
  moreover have "call_step ?s1 ?s2" using ReadKeys [of ?s1 i r cands] assms(2) by simp
  moreover have "call_step ?s2 (move i (after_walk mach r cands ?prev)
      (?s2\<lparr>cv_walks := cv_walks ?s2 @ [(mach, r)]\<rparr>))"
    using Walk [of ?s2 i r cands ?prev mach] by simp
  ultimately have "calls_run s (move i (after_walk mach r cands ?prev)
      (?s2\<lparr>cv_walks := cv_walks ?s2 @ [(mach, r)]\<rparr>))"
    by (blast intro: RunStep RunRefl)
  then show ?thesis by simp
qed

lemma resolve_alone:
  assumes "cv_at s i = Idle"
  shows "\<exists>walks. calls_run s (move i (Returned r (snd (resolve mach now r (cv_ev s))))
    (s\<lparr>cv_walks := walks, cv_ev := fst (resolve mach now r (cv_ev s))\<rparr>))"
proof (cases "rec_Candidates r")
  case None
  have "calls_run s (move i (Called r) s)" by (rule call_step_run, rule Enter, rule assms)
  moreover have "call_step (move i (Called r) s) (move i (Returned r
      (if rec_State r = StateOK \<or> rec_State r = StateDegraded then Some (rec_Answers r) else None))
      (move i (Called r) s))"
    by (rule Legacy) (simp_all add: None)
  ultimately show ?thesis
    by (intro exI [of _ "cv_walks s"]) (auto dest: RunStep simp: resolve_legacy [OF None])
next
  case (Some cands)
  let ?prev = "active_keys (cv_ev s) (rec_FQDN r)"
  let ?s3 = "move i (after_walk mach r cands ?prev) (s\<lparr>cv_walks := cv_walks s @ [(mach, r)]\<rparr>)"
  have run3: "calls_run s ?s3" by (rule walk_alone [OF assms Some])
  obtain viableKeys groups forced where w: "walk_record mach ?prev r cands = (viableKeys, groups, forced)"
    by (metis prod_cases3)
  show ?thesis
  proof (cases "groups = []")
    case True
    then show ?thesis
      using run3 by (intro exI [of _ "cv_walks s @ [(mach, r)]"]) (simp add: after_walk_def w resolve_def Some)
  next
    case False
    obtain d' served where ev: "damper_evaluate (ev_damper (cv_ev s)) now (rec_FQDN r) (concat groups) forced =
        (d', served)" by fastforce
    let ?s4 = "move i (Committing r viableKeys (concat groups) served) (?s3\<lparr>cv_ev := (cv_ev ?s3)\<lparr>ev_damper := d'\<rparr>\<rparr>)"
    have "call_step ?s3 ?s4"
      using Damp [of ?s3 i r viableKeys "concat groups" forced now d' served] False ev
      by (simp add: after_walk_def w)
    moreover have "call_step ?s4 (move i (Returned r (Some served))
        (?s4\<lparr>cv_ev := commit_active (rec_FQDN r) viableKeys (concat groups) served (cv_ev ?s4)\<rparr>))"
      using Commit [of ?s4 i r viableKeys "concat groups" served] by simp
    ultimately have "calls_run s (move i (Returned r (Some served))
        (?s4\<lparr>cv_ev := commit_active (rec_FQDN r) viableKeys (concat groups) served (cv_ev ?s4)\<rparr>))"
      using run3 by (blast intro: RunStep)
    then show ?thesis
      using False by (intro exI [of _ "cv_walks s @ [(mach, r)]"])
        (simp add: after_walk_def w resolve_def Some ev Let_def)
  qed
qed

subsection \<open>What every interleaving keeps\<close>

definition walked :: "(local_health_iface option \<times> dns_record) list \<Rightarrow> string \<Rightarrow> answer list set" where
  "walked ws = proposed (map (\<lambda>(mach, r). (mach, 0, r)) ws)"

lemma walked_snoc: "a \<in> walked ws f \<Longrightarrow> a \<in> walked (ws @ [w]) f"
  using proposed_mono [of "map (\<lambda>(mach, r). (mach, 0, r)) ws" "map (\<lambda>(mach, r). (mach, 0, r)) (ws @ [w])" f]
  by (auto simp: walked_def)

lemma walked_new:
  "rec_Candidates r = Some cands \<Longrightarrow> taken mach r cands \<noteq> [] \<Longrightarrow>
   fresh_answers mach r cands \<in> walked (ws @ [(mach, r)]) (rec_FQDN r)"
  by (force simp: walked_def proposed_def)

text \<open>The invariant of one position, given the walks made so far.\<close>

fun position_ok :: "(local_health_iface option \<times> dns_record) list \<Rightarrow> position \<Rightarrow> bool" where
  "position_ok ws (Walking r cands prevKeys) \<longleftrightarrow> rec_Candidates r = Some cands"
| "position_ok ws (Damping r viableKeys fresh forced) \<longleftrightarrow>
     rec_Candidates r \<noteq> None \<and> fresh \<in> walked ws (rec_FQDN r)"
| "position_ok ws (Committing r viableKeys fresh served) \<longleftrightarrow>
     rec_Candidates r \<noteq> None \<and> served \<in> walked ws (rec_FQDN r)"
| "position_ok ws (Returned r out) \<longleftrightarrow>
     (\<forall>a. rec_Candidates r \<noteq> None \<longrightarrow> out = Some a \<longrightarrow> a \<in> walked ws (rec_FQDN r))"
| "position_ok ws _ \<longleftrightarrow> True"

definition calls_inv :: "calls \<Rightarrow> bool" where
  "calls_inv s \<longleftrightarrow> (\<forall>i. position_ok (cv_walks s) (cv_at s i)) \<and>
     (\<forall>f a. served_answers (ev_damper (cv_ev s)) f = Some a \<longrightarrow> a \<in> walked (cv_walks s) f)"

lemma position_ok_snoc: "position_ok ws p \<Longrightarrow> position_ok (ws @ [w]) p"
  by (cases p) (auto simp: walked_snoc)

lemma after_walk_ok:
  assumes "rec_Candidates r = Some cands"
  shows "position_ok (ws @ [(mach, r)]) (after_walk mach r cands prevKeys)"
  using assms walked_new [OF assms, of mach ws]
  by (auto simp: after_walk_def walk_record_eq fresh_answers_def [symmetric])

lemma calls_inv_move: "calls_inv s \<Longrightarrow> position_ok (cv_walks s) p \<Longrightarrow> calls_inv (move i p s)"
  by (simp add: calls_inv_def)

lemma calls_inv_at: "calls_inv s \<Longrightarrow> position_ok (cv_walks s) (cv_at s i)"
  by (simp add: calls_inv_def)

lemma damper_step_walked:
  assumes "damper_evaluate d now f fresh forced = (d', served)" and "fresh \<in> walked ws f"
    and "\<And>g a. served_answers d g = Some a \<Longrightarrow> a \<in> walked ws g"
  shows "served \<in> walked ws f" and "served_answers d' g = Some a \<Longrightarrow> a \<in> walked ws g"
proof -
  show served: "served \<in> walked ws f"
    using ad.evaluate_choice [OF assms(1)] assms(2,3) by auto
  show "a \<in> walked ws g" if "served_answers d' g = Some a"
    using that served assms(3) ad.evaluate_served [OF assms(1)] ad.evaluate_frame [OF assms(1)]
    by (cases "g = f") auto
qed

lemma call_step_inv [comp_inv]: "call_step s t \<Longrightarrow> calls_inv s \<Longrightarrow> calls_inv t"
proof (induction rule: call_step.induct)
  case (Walk s i r cands prevKeys mach)
  have "rec_Candidates r = Some cands"
    using calls_inv_at [OF Walk(2), of i] Walk(1) by simp
  then show ?case
    using Walk(2) after_walk_ok [of r cands "cv_walks s" mach prevKeys]
    by (simp add: calls_inv_def position_ok_snoc walked_snoc)
next
  case (Damp s i r viableKeys fresh forced now d' served)
  have ok: "rec_Candidates r \<noteq> None" "fresh \<in> walked (cv_walks s) (rec_FQDN r)"
    using calls_inv_at [OF Damp(3), of i] Damp(1) by simp_all
  have old: "\<And>g a. served_answers (ev_damper (cv_ev s)) g = Some a \<Longrightarrow> a \<in> walked (cv_walks s) g"
    using Damp(3) by (simp add: calls_inv_def)
  show ?case
    using Damp(3) ok(1) damper_step_walked [OF Damp(2) ok(2) old] by (simp add: calls_inv_def)
next
  case (Commit s i r viableKeys fresh served)
  then show ?case
    using calls_inv_at [OF Commit(2), of i] by (simp add: calls_inv_def)
qed (simp_all add: calls_inv_move)

lemma calls_reachable_inv: "calls_reachable s \<Longrightarrow> calls_inv s"
proof (induction rule: calls_reachable.induct)
  case CallsStart
  then show ?case
    by (simp add: calls_inv_def no_calls_def new_evaluator_def new_damper_def served_answers_def)
qed (rule call_step_inv)


subsection \<open>Properties\<close>

text \<open>However calls of \<open>Resolve\<close> interleave between the damper's calls, every answer list that one
  of them returns for a record with candidates is nonempty and is one that the walk of some call
  proposed for that same name. \<open>RacingResolve\<close> shows the same when they overlap inside the damper.\<close>

theorem concurrent_answers_were_proposed:
  assumes "calls_reachable s" and "cv_at s i = Returned r (Some a)" and "rec_Candidates r \<noteq> None"
  shows "a \<noteq> [] \<and> (\<exists>(mach, r') \<in> set (cv_walks s). rec_FQDN r' = rec_FQDN r \<and>
    (\<exists>cands. rec_Candidates r' = Some cands \<and> a = fresh_answers mach r' cands))"
proof -
  have "a \<in> walked (cv_walks s) (rec_FQDN r)"
    using calls_inv_at [OF calls_reachable_inv [OF assms(1)], of i] assms(2,3) by simp
  then show ?thesis
    by (auto simp: walked_def proposed_nonempty) (auto simp: proposed_def)
qed

definition only :: "nat \<Rightarrow> dns_record" where
  "only n = (rec2 ModeAll HealthHealthy HealthHealthy)\<lparr>rec_Candidates := Some [cand1 n HealthHealthy]\<rparr>"

lemma only_simps [simp]:
  "rec_FQDN (only n) = ''a.z.''" "rec_Candidates (only n) = Some [cand1 n HealthHealthy]"
  "taken None (only n) [cand1 n HealthHealthy] = [cand1 n HealthHealthy]"
  "fresh_answers None (only n) [cand1 n HealthHealthy] = ans1 n"
  "walk_forced None e (only n) [cand1 n HealthHealthy] = False"
  by (simp_all add: only_def fresh_answers_def walk_forced_def viable_effective taken_eq rec2_eval)

lemma resolve_only:
  "resolve None now (only n) e =
     (case damper_evaluate (ev_damper e) now ''a.z.'' (ans1 n) False of
        (d', served) \<Rightarrow> (commit_active ''a.z.'' [itoa (int n)] (ans1 n) served (e\<lparr>ev_damper := d'\<rparr>), Some served))"
  by (simp add: resolve_candidates) (simp add: cand1_def)

lemma after_walk_only: "after_walk None (only n) [cand1 n HealthHealthy] prevKeys =
    Damping (only n) [itoa (int n)] (ans1 n) False"
  by (simp add: after_walk_def walk_record_eq) (simp add: only_def viable_effective rec2_eval)

text \<open>The evaluator after \<open>n\<close> damped changes, while it serves candidate \<open>k\<close>.\<close>

definition settled :: "nat \<Rightarrow> nat \<Rightarrow> evaluator" where
  "settled n k = \<lparr>ev_damper = [''a.z.'' \<mapsto> (fresh_damp_state (ans1 k))\<lparr>d_changeLog := replicate n 0\<rparr>],
     ev_activeKeys = [''a.z.'' \<mapsto> [itoa (int k)]]\<rparr>"

lemma damp_settled:
  "damper_evaluate (ev_damper (settled n k)) 0 ''a.z.'' (ans1 m) False =
     (if m = k then (ev_damper (settled n k), ans1 k)
      else if n < 3 then (ev_damper (settled (Suc n) m), ans1 m)
      else ((ev_damper (settled n k))(''a.z.'' \<mapsto> (fresh_damp_state (ans1 k))
        \<lparr>d_changeLog := replicate n 0, d_frozen := True, d_lastSuppressed := 0\<rparr>), ans1 k))"
  by (auto simp: settled_def damper_evaluate_def damp_step_def maybe_auto_unfreeze_def damp_known_def
      fresh_damp_state_def answer_set_equal_mset prune_window_def damp_constants Let_def fun_eq_iff
      replicate_append_same)


lemma resolve_settled:
  "n < 3 \<Longrightarrow> m \<noteq> k \<Longrightarrow> resolve None 0 (only m) (settled n k) = (settled (Suc n) m, Some (ans1 m))"
  by (simp add: resolve_only damp_settled) (simp add: settled_def commit_active_def answer_set_equal_mset)

lemma resolve_first: "resolve None 0 (only m) new_evaluator = (settled 0 m, Some (ans1 m))"
  by (simp add: resolve_only new_evaluator_def new_damper_def damper_evaluate_def damp_step_def
      commit_active_def answer_set_equal_mset settled_def)
    (simp add: fresh_damp_state_def)


lemma reachable_query:
  assumes "calls_reachable s" and "cv_at s i = Idle"
  shows "\<exists>t. calls_reachable t \<and> cv_ev t = fst (resolve mach now r (cv_ev s)) \<and>
    cv_at t = (cv_at s)(i := Returned r (snd (resolve mach now r (cv_ev s))))"
proof -
  obtain walks where "calls_run s (move i (Returned r (snd (resolve mach now r (cv_ev s))))
      (s\<lparr>cv_walks := walks, cv_ev := fst (resolve mach now r (cv_ev s))\<rparr>))"
    using resolve_alone [where mach = mach and now = now and r = r, OF assms(2)] by blast
  from calls_run_reachable [OF this assms(1)] show ?thesis by - (rule exI, rule conjI, assumption, simp)
qed

text \<open>A call may stop before the damper, and one whose walk took the candidate already served
  before its commit.\<close>

lemma reachable_damping:
  assumes "calls_reachable s" and "cv_at s i = Idle"
  shows "\<exists>t. calls_reachable t \<and> cv_ev t = cv_ev s \<and>
    cv_at t = (cv_at s)(i := Damping (only k) [itoa (int k)] (ans1 k) False)"
proof -
  have "calls_run s (move i (Damping (only k) [itoa (int k)] (ans1 k) False)
      (s\<lparr>cv_walks := cv_walks s @ [(None, only k)]\<rparr>))"
    using walk_alone [OF assms(2) only_simps(2) [of k], of None] by (simp add: after_walk_only)
  from calls_run_reachable [OF this assms(1)] show ?thesis by - (rule exI, rule conjI, assumption, simp)
qed

lemma reachable_late_commit:
  assumes "calls_reachable s" and "cv_at s i = Idle" and "cv_ev s = settled n k"
  shows "\<exists>t. calls_reachable t \<and> cv_ev t = settled n k \<and>
    cv_at t = (cv_at s)(i := Committing (only k) [itoa (int k)] (ans1 k) (ans1 k))"
proof -
  obtain t where t: "calls_reachable t" "cv_ev t = settled n k"
    "cv_at t = (cv_at s)(i := Damping (only k) [itoa (int k)] (ans1 k) False)"
    using reachable_damping [OF assms(1,2)] assms(3) by metis
  let ?u = "move i (Committing (only k) [itoa (int k)] (ans1 k) (ans1 k))
    (t\<lparr>cv_ev := (cv_ev t)\<lparr>ev_damper := ev_damper (settled n k)\<rparr>\<rparr>)"
  have "call_step t ?u"
    by (rule Damp [where forced = False and now = 0]) (simp_all add: t(2,3) damp_settled)
  with t(1) have "calls_reachable ?u" by (rule CallsStep)
  then show ?thesis by - (rule exI, rule conjI, assumption, simp add: t)
qed

definition all_returned :: "calls \<Rightarrow> bool" where
  "all_returned s \<longleftrightarrow> (\<forall>i. cv_at s i = Idle \<or> (\<exists>r out. cv_at s i = Returned r out))"

lemma late_commit_state:
  "\<exists>s. calls_reachable s \<and> all_returned s \<and>
     cv_ev s = (settled 3 2)\<lparr>ev_activeKeys := [''a.z.'' \<mapsto> [itoa 1]]\<rparr>"
proof -
  obtain s1 where s1: "calls_reachable s1" "cv_ev s1 = settled 0 1"
    "cv_at s1 = (cv_at no_calls)(0 := Returned (only 1) (Some (ans1 1)))"
    using reachable_query [OF CallsStart, of 0 None 0 "only 1"]
    by (auto simp: resolve_first no_calls_def)
  obtain s2 where s2: "calls_reachable s2" "cv_ev s2 = settled 1 2"
    "cv_at s2 = (cv_at s1)(1 := Returned (only 2) (Some (ans1 2)))"
    using reachable_query [OF s1(1), of 1 None 0 "only 2"] resolve_settled [of 0 2 1]
    by (auto simp: s1(2,3) no_calls_def)
  obtain s3 where s3: "calls_reachable s3" "cv_ev s3 = settled 2 1"
    "cv_at s3 = (cv_at s2)(2 := Returned (only 1) (Some (ans1 1)))"
    using reachable_query [OF s2(1), of 2 None 0 "only 1"] resolve_settled [of 1 1 2]
    by (auto simp: s1(3) s2(2,3) no_calls_def numeral_2_eq_2)
  obtain s4 where s4: "calls_reachable s4" "cv_ev s4 = settled 2 1"
    "cv_at s4 = (cv_at s3)(3 := Committing (only 1) [itoa 1] (ans1 1) (ans1 1))"
    using reachable_late_commit [OF s3(1) _ s3(2), of 3] by (auto simp: s1(3) s2(3) s3(3) no_calls_def)
  obtain s5 where s5: "calls_reachable s5" "cv_ev s5 = settled 3 2"
    "cv_at s5 = (cv_at s4)(4 := Returned (only 2) (Some (ans1 2)))"
    using reachable_query [OF s4(1), of 4 None 0 "only 2"] resolve_settled [of 2 2 1]
    by (auto simp: s1(3) s2(3) s3(3) s4(2,3) no_calls_def numeral_3_eq_3 numeral_2_eq_2)
  let ?s6 = "move 3 (Returned (only 1) (Some (ans1 1)))
    (s5\<lparr>cv_ev := commit_active (rec_FQDN (only 1)) [itoa 1] (ans1 1) (ans1 1) (cv_ev s5)\<rparr>)"
  have "call_step s5 ?s6" by (rule Commit) (simp add: s4(3) s5(3))
  with s5(1) have "calls_reachable ?s6" by (rule CallsStep)
  moreover have "all_returned ?s6"
    by (simp add: all_returned_def s1(3) s2(3) s3(3) s4(3) s5(3) no_calls_def)
  moreover have "cv_ev ?s6 = (settled 3 2)\<lparr>ev_activeKeys := [''a.z.'' \<mapsto> [itoa 1]]\<rparr>"
    by (simp add: s5(2) commit_active_def answer_set_equal_mset settled_def)
  ultimately show ?thesis by blast
qed


theorem concurrent_answers_were_proposed_witness:
  "\<exists>s i r. calls_reachable s \<and> cv_at s i = Returned r (Some (ans1 1)) \<and>
     (\<exists>(mach, r') \<in> set (cv_walks s). rec_FQDN r' = ''a.z.'' \<and>
        (\<exists>cands. rec_Candidates r' = Some cands \<and> ans1 1 = fresh_answers mach r' cands))"
proof -
  obtain s where s: "calls_reachable s" "cv_at s 0 = Returned (only 1) (Some (ans1 1))"
    using reachable_query [OF CallsStart, of 0 None 0 "only 1"] by (auto simp: resolve_first no_calls_def)
  then show ?thesis using concurrent_answers_were_proposed [OF s] by auto
qed

text \<open>C20. Between the two sections that lock, calls can overtake each other: a slow call may commit
  its active keys after a later one has changed what is served. Then, with no call in flight, a
  backend is being served that is not recorded as active; when it turns unhealthy although
  another candidate can serve, the move away is damped as an ordinary change, and the unhealthy
  backend is answered.\<close>

theorem late_commit_hides_served_backend:
  "\<exists>s. calls_reachable s \<and> all_returned s \<and>
     served_answers (ev_damper (cv_ev s)) ''a.z.'' = Some (ans1 2) \<and>
     active_keys (cv_ev s) ''a.z.'' = [itoa 1] \<and>
     (\<exists>c \<in> set [cand1 1 HealthHealthy, cand1 2 HealthUnhealthy].
        servable None (rec2 ModeAll HealthHealthy HealthUnhealthy) c) \<and>
     snd (resolve None 0 (rec2 ModeAll HealthHealthy HealthUnhealthy) (cv_ev s)) = Some (ans1 2)"
proof -
  let ?r = "rec2 ModeAll HealthHealthy HealthUnhealthy"
  let ?e = "(settled 3 2)\<lparr>ev_activeKeys := [''a.z.'' \<mapsto> [itoa 1]]\<rparr>"
  have c: "rec_Candidates ?r = Some [cand1 1 HealthHealthy, cand1 2 HealthUnhealthy]"
    by (simp add: rec2_def)
  have t: "taken None ?r [cand1 1 HealthHealthy, cand1 2 HealthUnhealthy] = [cand1 1 HealthHealthy]"
    by (simp add: taken_eq rec2_eval)
  have f: "fresh_answers None ?r [cand1 1 HealthHealthy, cand1 2 HealthUnhealthy] = ans1 1"
    unfolding fresh_answers_def t by (simp add: cand1_def)
  have w: "\<not> walk_forced None ?e ?r [cand1 1 HealthHealthy, cand1 2 HealthUnhealthy]"
    by (simp add: walk_forced_def viable_effective active_keys_def rec2_eval)
  have "snd (resolve None 0 ?r ?e) = Some (ans1 2)"
    using t w f damp_settled [of 3 2 1]
    by (simp add: resolve_candidates [OF c]) (simp add: rec2_def)
  moreover have "served_answers (ev_damper ?e) ''a.z.'' = Some (ans1 2)" "active_keys ?e ''a.z.'' = [itoa 1]"
    by (simp_all add: settled_def served_answers_def fresh_damp_state_def active_keys_def)
  moreover have "servable None ?r (cand1 1 HealthHealthy)" by (simp add: rec2_eval)
  ultimately show ?thesis using late_commit_state by fastforce
qed

text \<open>C21. Two calls for a name without a damper entry can reach the damper together: one is
  about to write the Go map that the other reads or writes, with no lock in common. That is a data
  race, which the Go runtime answers by ending the process when it notices.\<close>

theorem concurrent_calls_race:
  "\<exists>s. calls_reachable s \<and> records_race s"
proof -
  obtain s where s: "calls_reachable s" "cv_ev s = new_evaluator"
    "cv_at s = (cv_at no_calls)(0 := Damping (only 1) [itoa 1] (ans1 1) False)"
    using reachable_damping [OF CallsStart, of 0 1] by (auto simp: no_calls_def)
  obtain t where "calls_reachable t" "cv_ev t = new_evaluator"
    "cv_at t = (cv_at s)(1 := Damping (only 1) [itoa 1] (ans1 1) False)"
    using reachable_damping [OF s(1), of 1 1] s by (auto simp: no_calls_def)
  then have "calls_reachable t" "writes_records t 0" "uses_records t 1"
    by (simp_all add: writes_records_def uses_records_def s(3) new_evaluator_def new_damper_def)
  then show ?thesis unfolding records_race_def by (metis zero_neq_one)
qed

end
