(* ===== verification/RacingResolve.thy ===== *)
theory RacingResolve
  imports ConcurrentResolve
begin

text \<open>
  Calls of \<open>Resolve\<close> that overlap inside the damper. \<open>Damper.Evaluate\<close>
  (\<^verbatim>\<open>internal/dnsserver/damper.go\<close>) runs with no lock, so \<open>ConcurrentResolve\<close>, which takes it as
  one step, leaves interleavings out. Here it is taken apart into its accesses to shared memory: the
  lookup and the insertion in the Go map, which holds pointers, and each read or write of a field of
  the \<open>recordDampState\<close> behind a pointer. Every access is a step of its own and takes effect at
  once; that a race may also tear a slice or end the process is outside the model. The walk and the
  two locked sections are those of \<open>ConcurrentResolve\<close>.
\<close>

subsection \<open>The accesses of Evaluate\<close>

text \<open>What a call brings to \<open>Evaluate\<close> and keeps for its commit.\<close>

record damp_args =
  da_rec :: dns_record
  da_keys :: "string list"
  da_fresh :: "answer list"
  da_forced :: bool

text \<open>The next access to the entry that the lookup found.\<close>

datatype access =
    ReadFrozen            \<comment> \<open>\<open>maybeAutoUnfreeze\<close>\<close>
  | ReadSuppressed
  | WriteThawed
  | WriteNoLog
  | ReadServed            \<comment> \<open>the comparison\<close>
  | WriteForced
  | ReadFrozenAgain
  | ReadLog
  | WriteFrozen
  | WriteSuppressed
  | WriteLog "go_time list"
  | WriteServed
  | ReturnServed

text \<open>One access: the entry after it, and the next access or what the call returns.\<close>

fun access_step ::
  "answer list \<Rightarrow> bool \<Rightarrow> go_time \<Rightarrow> access \<Rightarrow> damp_state \<Rightarrow> damp_state \<times> (access + answer list)" where
  "access_step fresh forced now ReadFrozen rs =
     (rs, Inl (if \<not> d_frozen rs then ReadServed else ReadSuppressed))"
| "access_step fresh forced now ReadSuppressed rs =
     (rs, Inl (if unfreezeQuietPeriod \<le> time_sub now (d_lastSuppressed rs) then WriteThawed else ReadServed))"
| "access_step fresh forced now WriteThawed rs = (rs\<lparr>d_frozen := False\<rparr>, Inl WriteNoLog)"
| "access_step fresh forced now WriteNoLog rs = (rs\<lparr>d_changeLog := []\<rparr>, Inl ReadServed)"
| "access_step fresh forced now ReadServed rs =
     (rs, Inl (if answer_set_equal (d_served rs) fresh then ReturnServed
               else if forced then WriteForced else ReadFrozenAgain))"
| "access_step fresh forced now WriteForced rs = (rs\<lparr>d_served := fresh\<rparr>, Inr fresh)"
| "access_step fresh forced now ReadFrozenAgain rs = (rs, Inl (if d_frozen rs then WriteSuppressed else ReadLog))"
| "access_step fresh forced now ReadLog rs =
     (let tentative = prune_window (d_changeLog rs @ [now]) now in
      (rs, Inl (if dampChangeThreshold < length tentative then WriteFrozen else WriteLog tentative)))"
| "access_step fresh forced now WriteFrozen rs = (rs\<lparr>d_frozen := True\<rparr>, Inl WriteSuppressed)"
| "access_step fresh forced now WriteSuppressed rs = (rs\<lparr>d_lastSuppressed := now\<rparr>, Inl ReturnServed)"
| "access_step fresh forced now (WriteLog tentative) rs = (rs\<lparr>d_changeLog := tentative\<rparr>, Inl WriteServed)"
| "access_step fresh forced now WriteServed rs = (rs\<lparr>d_served := fresh\<rparr>, Inr fresh)"
| "access_step fresh forced now ReturnServed rs = (rs, Inr (d_served rs))"

text \<open>A call that is left alone at its accesses does what \<open>damp_step\<close> says: ten suffice.\<close>

fun accesses_alone ::
  "nat \<Rightarrow> answer list \<Rightarrow> bool \<Rightarrow> go_time \<Rightarrow> access \<Rightarrow> damp_state \<Rightarrow> (damp_state \<times> answer list) option" where
  "accesses_alone 0 fresh forced now a rs = None"
| "accesses_alone (Suc n) fresh forced now a rs =
     (case access_step fresh forced now a rs of
        (rs', Inl a') \<Rightarrow> accesses_alone n fresh forced now a' rs'
      | (rs', Inr out) \<Rightarrow> Some (rs', out))"

lemma accesses_are_damp_step:
  "accesses_alone 10 fresh forced now ReadFrozen rs = Some (damp_step (Some rs) now fresh forced)"
  by (simp add: eval_nat_numeral damp_step_def maybe_auto_unfreeze_def damp_known_def Let_def)

subsection \<open>Calls and their steps\<close>

datatype spot =
    AtIdle
  | AtCalled dns_record
  | AtWalking dns_record "candidate list" "string list"
  | AtLookup damp_args
  | AtInsert damp_args
  | AtAccess damp_args nat go_time access  \<comment> \<open>the pointer found and the time read\<close>
  | AtCommit damp_args "answer list"
  | AtReturned dns_record "answer list option"

text \<open>Pointers are numbers; the heap holds the entries allocated so far.\<close>

record racing =
  ra_active :: "string \<rightharpoonup> string list"
  ra_records :: "string \<rightharpoonup> nat"
  ra_heap :: "nat \<rightharpoonup> damp_state"
  ra_at :: "nat \<Rightarrow> spot"
  ra_walks :: "(local_health_iface option \<times> dns_record) list"

definition no_racing :: racing where
  "no_racing = \<lparr>ra_active = Map.empty, ra_records = Map.empty, ra_heap = Map.empty,
     ra_at = (\<lambda>_. AtIdle), ra_walks = []\<rparr>"

abbreviation go :: "nat \<Rightarrow> spot \<Rightarrow> racing \<Rightarrow> racing" where
  "go i p s \<equiv> s\<lparr>ra_at := (ra_at s)(i := p)\<rparr>"

text \<open>The evaluator's own part of the state, for the two locked sections.\<close>

definition locked_part :: "racing \<Rightarrow> evaluator" where
  "locked_part s = \<lparr>ev_damper = Map.empty, ev_activeKeys = ra_active s\<rparr>"

definition walked_to :: "local_health_iface option \<Rightarrow> dns_record \<Rightarrow> candidate list \<Rightarrow> string list \<Rightarrow> spot" where
  "walked_to mach r cands prevKeys =
     (case walk_record mach prevKeys r cands of
        (viableKeys, groups, forced) \<Rightarrow>
          (if groups = [] then AtReturned r None
           else AtLookup \<lparr>da_rec = r, da_keys = viableKeys, da_fresh = concat groups, da_forced = forced\<rparr>))"

definition after_access :: "damp_args \<Rightarrow> nat \<Rightarrow> go_time \<Rightarrow> access + answer list \<Rightarrow> spot" where
  "after_access cd p now x = (case x of Inl a \<Rightarrow> AtAccess cd p now a | Inr served \<Rightarrow> AtCommit cd served)"

inductive racing_step :: "racing \<Rightarrow> racing \<Rightarrow> bool" where
  RaEnter: "ra_at s i = AtIdle \<Longrightarrow> racing_step s (go i (AtCalled r) s)"
| RaLegacy: "ra_at s i = AtCalled r \<Longrightarrow> rec_Candidates r = None \<Longrightarrow>
    racing_step s (go i (AtReturned r
      (if rec_State r = StateOK \<or> rec_State r = StateDegraded then Some (rec_Answers r) else None)) s)"
| RaReadKeys: "ra_at s i = AtCalled r \<Longrightarrow> rec_Candidates r = Some cands \<Longrightarrow>
    racing_step s (go i (AtWalking r cands (active_keys (locked_part s) (rec_FQDN r))) s)"
| RaWalk: "ra_at s i = AtWalking r cands prevKeys \<Longrightarrow>
    racing_step s (go i (walked_to mach r cands prevKeys) (s\<lparr>ra_walks := ra_walks s @ [(mach, r)]\<rparr>))"
| RaFound: "ra_at s i = AtLookup cd \<Longrightarrow> ra_records s (rec_FQDN (da_rec cd)) = Some p \<Longrightarrow>
    racing_step s (go i (AtAccess cd p now ReadFrozen) s)"
| RaMissing: "ra_at s i = AtLookup cd \<Longrightarrow> ra_records s (rec_FQDN (da_rec cd)) = None \<Longrightarrow>
    racing_step s (go i (AtInsert cd) s)"
| RaInsert: "ra_at s i = AtInsert cd \<Longrightarrow> ra_heap s p = None \<Longrightarrow>
    racing_step s (go i (AtCommit cd (da_fresh cd))
      (s\<lparr>ra_records := (ra_records s)(rec_FQDN (da_rec cd) \<mapsto> p),
         ra_heap := (ra_heap s)(p \<mapsto> fresh_damp_state (da_fresh cd))\<rparr>))"
| RaAccess: "ra_at s i = AtAccess cd p now a \<Longrightarrow> ra_heap s p = Some rs \<Longrightarrow>
    access_step (da_fresh cd) (da_forced cd) now a rs = (rs', x) \<Longrightarrow>
    racing_step s (go i (after_access cd p now x) (s\<lparr>ra_heap := (ra_heap s)(p \<mapsto> rs')\<rparr>))"
| RaCommit: "ra_at s i = AtCommit cd served \<Longrightarrow>
    racing_step s (go i (AtReturned (da_rec cd) (Some served))
      (s\<lparr>ra_active := ev_activeKeys
           (commit_active (rec_FQDN (da_rec cd)) (da_keys cd) (da_fresh cd) served (locked_part s))\<rparr>))"

definition racing_reachable :: "racing \<Rightarrow> bool" where
  "racing_reachable s \<longleftrightarrow> racing_step\<^sup>*\<^sup>* no_racing s"

subsection \<open>What every interleaving of accesses keeps\<close>

text \<open>Each entry allocated belongs to the name it was inserted for, even after another insertion has
  displaced it; \<open>own\<close> gives that name.\<close>

fun spot_ok :: "(nat \<Rightarrow> string) \<Rightarrow> (nat \<rightharpoonup> damp_state) \<Rightarrow> (local_health_iface option \<times> dns_record) list \<Rightarrow>
    spot \<Rightarrow> bool" where
  "spot_ok own hp ws (AtWalking r cands prevKeys) \<longleftrightarrow> rec_Candidates r = Some cands"
| "spot_ok own hp ws (AtLookup cd) \<longleftrightarrow> rec_Candidates (da_rec cd) \<noteq> None \<and> da_fresh cd \<in> walked ws (rec_FQDN (da_rec cd))"
| "spot_ok own hp ws (AtInsert cd) \<longleftrightarrow> rec_Candidates (da_rec cd) \<noteq> None \<and> da_fresh cd \<in> walked ws (rec_FQDN (da_rec cd))"
| "spot_ok own hp ws (AtAccess cd p now a) \<longleftrightarrow> rec_Candidates (da_rec cd) \<noteq> None \<and>
     da_fresh cd \<in> walked ws (rec_FQDN (da_rec cd)) \<and> own p = rec_FQDN (da_rec cd) \<and> hp p \<noteq> None"
| "spot_ok own hp ws (AtCommit cd served) \<longleftrightarrow> rec_Candidates (da_rec cd) \<noteq> None \<and> served \<in> walked ws (rec_FQDN (da_rec cd))"
| "spot_ok own hp ws (AtReturned r out) \<longleftrightarrow>
     (\<forall>a. rec_Candidates r \<noteq> None \<longrightarrow> out = Some a \<longrightarrow> a \<in> walked ws (rec_FQDN r))"
| "spot_ok own hp ws _ \<longleftrightarrow> True"

definition racing_inv :: "(nat \<Rightarrow> string) \<Rightarrow> racing \<Rightarrow> bool" where
  "racing_inv own s \<longleftrightarrow> (\<forall>i. spot_ok own (ra_heap s) (ra_walks s) (ra_at s i)) \<and>
     (\<forall>f p. ra_records s f = Some p \<longrightarrow> own p = f \<and> ra_heap s p \<noteq> None) \<and>
     (\<forall>p rs. ra_heap s p = Some rs \<longrightarrow> d_served rs \<in> walked (ra_walks s) (own p))"

lemma spot_ok_snoc: "spot_ok own hp ws p \<Longrightarrow> spot_ok own hp (ws @ [w]) p"
  by (cases p) (auto simp: walked_snoc)

lemma spot_ok_alloc: "spot_ok own hp ws q \<Longrightarrow> hp p = None \<Longrightarrow> spot_ok (own(p := f)) (hp(p \<mapsto> rs)) ws q"
  by (cases q) auto

lemma spot_ok_write: "spot_ok own hp ws q \<Longrightarrow> spot_ok own (hp(p \<mapsto> rs)) ws q"
  by (cases q) auto

lemma walked_to_ok:
  assumes "rec_Candidates r = Some cands"
  shows "spot_ok own hp (ws @ [(mach, r)]) (walked_to mach r cands prevKeys)"
  using assms walked_new [OF assms, of mach ws]
  by (auto simp: walked_to_def walk_record_eq fresh_answers_def [symmetric])

lemma racing_inv_at: "racing_inv own s \<Longrightarrow> ra_at s i = p \<Longrightarrow> spot_ok own (ra_heap s) (ra_walks s) p"
  by (auto simp: racing_inv_def)

lemma racing_inv_go: "racing_inv own s \<Longrightarrow> spot_ok own (ra_heap s) (ra_walks s) p \<Longrightarrow> racing_inv own (go i p s)"
  by (simp add: racing_inv_def)

text \<open>An access leaves in the entry, and returns, what was served there or what its call proposes.\<close>

lemma access_step_served:
  "access_step fresh forced now a rs = (rs', x) \<Longrightarrow>
   d_served rs' \<in> {d_served rs, fresh} \<and> (\<forall>served. x = Inr served \<longrightarrow> served \<in> {d_served rs, fresh})"
  by (cases a) (auto simp: Let_def split: if_splits)

lemma racing_step_inv:
  assumes "racing_step s t" and "racing_inv own s"
  shows "\<exists>own'. racing_inv own' t"
  using assms
proof (induction rule: racing_step.induct)
  case (RaWalk s i r cands prevKeys mach)
  have "rec_Candidates r = Some cands" using racing_inv_at [OF RaWalk(2,1)] by simp
  then show ?case
    using RaWalk(2) walked_to_ok [of r cands own "ra_heap s" "ra_walks s" mach prevKeys]
    by (intro exI [of _ own]) (simp add: racing_inv_def spot_ok_snoc walked_snoc)
next
  case (RaFound s i cd p now)
  have "spot_ok own (ra_heap s) (ra_walks s) (AtAccess cd p now ReadFrozen)"
    using racing_inv_at [OF RaFound(3,1)] RaFound(2,3) by (simp add: racing_inv_def)
  with RaFound(3) show ?case by (blast intro: racing_inv_go)
next
  case (RaInsert s i cd p)
  let ?own = "own(p := rec_FQDN (da_rec cd))"
  have cd: "rec_Candidates (da_rec cd) \<noteq> None" "da_fresh cd \<in> walked (ra_walks s) (rec_FQDN (da_rec cd))"
    using racing_inv_at [OF RaInsert(3,1)] by simp_all
  have "q \<noteq> p" if "ra_records s f = Some q" for f q
    using that RaInsert(2,3) unfolding racing_inv_def by metis
  moreover have "spot_ok ?own ((ra_heap s)(p \<mapsto> rs)) (ra_walks s) (ra_at s j)" for rs j
    using racing_inv_at [OF RaInsert(3) refl] RaInsert(2) by (rule spot_ok_alloc)
  ultimately have "racing_inv ?own (go i (AtCommit cd (da_fresh cd))
      (s\<lparr>ra_records := (ra_records s)(rec_FQDN (da_rec cd) \<mapsto> p),
         ra_heap := (ra_heap s)(p \<mapsto> fresh_damp_state (da_fresh cd))\<rparr>))"
    using RaInsert(3) cd by (auto simp: racing_inv_def fresh_damp_state_def)
  then show ?case by blast
next
  case (RaAccess s i cd p now a rs rs' x)
  have cd: "rec_Candidates (da_rec cd) \<noteq> None" "da_fresh cd \<in> walked (ra_walks s) (rec_FQDN (da_rec cd))"
    "own p = rec_FQDN (da_rec cd)"
    using racing_inv_at [OF RaAccess(4,1)] by simp_all
  have old: "d_served rs \<in> walked (ra_walks s) (own p)" using RaAccess(2,4) by (simp add: racing_inv_def)
  have new: "d_served rs' \<in> walked (ra_walks s) (own p)"
    "\<And>served. x = Inr served \<Longrightarrow> served \<in> walked (ra_walks s) (own p)"
    using access_step_served [OF RaAccess(3)] old cd(2,3) by auto
  have "spot_ok own ((ra_heap s)(p \<mapsto> rs')) (ra_walks s) (after_access cd p now x)"
    using cd new(2) by (cases x) (simp_all add: after_access_def)
  then have "racing_inv own (go i (after_access cd p now x) (s\<lparr>ra_heap := (ra_heap s)(p \<mapsto> rs')\<rparr>))"
    using RaAccess(4) new(1) by (auto simp: racing_inv_def spot_ok_write)
  then show ?case by blast
next
  case (RaCommit s i cd served)
  have "spot_ok own (ra_heap s) (ra_walks s) (AtReturned (da_rec cd) (Some served))"
    using racing_inv_at [OF RaCommit(2,1)] by simp
  with RaCommit(2) show ?case by (intro exI [of _ own]) (simp add: racing_inv_def)
qed (rule exI [of _ own], rule racing_inv_go, assumption, force dest: racing_inv_at)+

lemma racing_reachable_inv: "racing_reachable s \<Longrightarrow> \<exists>own. racing_inv own s"
  unfolding racing_reachable_def
proof (induction rule: rtranclp_induct)
  case base
  then show ?case by (simp add: racing_inv_def no_racing_def)
qed (blast intro: racing_step_inv)

subsection \<open>Properties\<close>

text \<open>C8. However calls of \<open>Resolve\<close> interleave, inside the unlocked damper too, as long as each
  access to memory takes effect as a whole: every answer list returned for a record with candidates is
  nonempty and one that the walk of some call proposed for that same name. Answers are never invented,
  mixed or emptied.\<close>

theorem racing_answers_were_proposed:
  assumes "racing_reachable s" and "ra_at s i = AtReturned r (Some a)" and "rec_Candidates r \<noteq> None"
  shows "a \<noteq> [] \<and> (\<exists>(mach, r') \<in> set (ra_walks s). rec_FQDN r' = rec_FQDN r \<and>
    (\<exists>cands. rec_Candidates r' = Some cands \<and> a = fresh_answers mach r' cands))"
proof -
  obtain own where "racing_inv own s" using racing_reachable_inv [OF assms(1)] by blast
  then have "a \<in> walked (ra_walks s) (rec_FQDN r)"
    using racing_inv_at [of own s i] assms(2,3) by fastforce
  then show ?thesis
    by (auto simp: walked_def proposed_nonempty) (auto simp: proposed_def)
qed

text \<open>Two first queries of a name overlap: both miss the entry, both insert one, and each answers what
  its own walk proposed.\<close>

definition args_only :: "nat \<Rightarrow> damp_args" where
  "args_only n = \<lparr>da_rec = only n, da_keys = [itoa (int n)], da_fresh = ans1 n, da_forced = False\<rparr>"

lemma walked_to_only: "walked_to None (only n) [cand1 n HealthHealthy] prevKeys = AtLookup (args_only n)"
  using after_walk_only [of n prevKeys] by (auto simp: after_walk_def walked_to_def args_only_def split: prod.splits if_splits)

lemma racing_miss:
  assumes "racing_reachable s" and "ra_at s i = AtIdle" and "ra_records s = Map.empty"
  shows "\<exists>ws. racing_reachable (go i (AtInsert (args_only n)) (s\<lparr>ra_walks := ws\<rparr>))"
proof -
  let ?s1 = "go i (AtCalled (only n)) s"
  let ?s2 = "go i (AtWalking (only n) [cand1 n HealthHealthy] (active_keys (locked_part ?s1) (rec_FQDN (only n)))) ?s1"
  let ?s3 = "go i (AtLookup (args_only n)) (?s2\<lparr>ra_walks := ra_walks ?s2 @ [(None, only n)]\<rparr>)"
  have "racing_step s ?s1" using assms(2) by (rule RaEnter)
  moreover have "racing_step ?s1 ?s2" by (rule RaReadKeys) simp_all
  moreover have "racing_step ?s2 ?s3"
    using RaWalk [of ?s2 i "only n" "[cand1 n HealthHealthy]" _ None] by (simp add: walked_to_only)
  moreover have "racing_step ?s3 (go i (AtInsert (args_only n)) ?s3)" by (rule RaMissing) (simp_all add: assms(3))
  ultimately have "racing_step\<^sup>*\<^sup>* s (go i (AtInsert (args_only n)) ?s3)"
    by (meson rtranclp.rtrancl_into_rtrancl rtranclp.rtrancl_refl)
  with assms(1) have "racing_reachable (go i (AtInsert (args_only n)) ?s3)"
    unfolding racing_reachable_def by (rule rtranclp_trans)
  then show ?thesis by (intro exI [of _ "ra_walks s @ [(None, only n)]"]) simp
qed

lemma racing_insert:
  assumes "racing_reachable s" and "ra_at s i = AtInsert (args_only n)" and "ra_heap s p = None"
  shows "\<exists>t. racing_reachable t \<and> ra_at t = (ra_at s)(i := AtReturned (only n) (Some (ans1 n))) \<and>
    ra_heap t = (ra_heap s)(p \<mapsto> fresh_damp_state (ans1 n))"
proof -
  let ?t = "go i (AtCommit (args_only n) (da_fresh (args_only n)))
    (s\<lparr>ra_records := (ra_records s)(rec_FQDN (da_rec (args_only n)) \<mapsto> p),
       ra_heap := (ra_heap s)(p \<mapsto> fresh_damp_state (da_fresh (args_only n)))\<rparr>)"
  have "racing_step s ?t" by (rule RaInsert [OF assms(2,3)])
  moreover obtain u where "racing_step ?t u"
    "u = go i (AtReturned (da_rec (args_only n)) (Some (da_fresh (args_only n))))
      (?t\<lparr>ra_active := ev_activeKeys (commit_active (rec_FQDN (da_rec (args_only n))) (da_keys (args_only n))
        (da_fresh (args_only n)) (da_fresh (args_only n)) (locked_part ?t))\<rparr>)"
    using RaCommit [of ?t i "args_only n" "da_fresh (args_only n)"] by simp
  ultimately show ?thesis
    using assms(1) unfolding racing_reachable_def
    by (intro exI [of _ u] conjI) (meson rtranclp.rtrancl_into_rtrancl, simp_all add: args_only_def)
qed

theorem racing_answers_were_proposed_witness:
  "\<exists>s. racing_reachable s \<and> ra_at s 0 = AtReturned (only 1) (Some (ans1 1)) \<and>
     ra_at s 1 = AtReturned (only 2) (Some (ans1 2)) \<and>
     (\<exists>(mach, r') \<in> set (ra_walks s). \<exists>cands. rec_Candidates r' = Some cands \<and> ans1 2 = fresh_answers mach r' cands)"
proof -
  have start: "racing_reachable no_racing" by (simp add: racing_reachable_def)
  obtain ws where "racing_reachable (go 0 (AtInsert (args_only 1)) (no_racing\<lparr>ra_walks := ws\<rparr>))"
    using racing_miss [OF start, of 0 1] by (auto simp: no_racing_def)
  then obtain ws' where s: "racing_reachable (go 1 (AtInsert (args_only 2)) (go 0 (AtInsert (args_only 1)) (no_racing\<lparr>ra_walks := ws'\<rparr>)))"
    using racing_miss [of "go 0 (AtInsert (args_only 1)) (no_racing\<lparr>ra_walks := ws\<rparr>)" 1 2]
    by (auto simp: no_racing_def)
  obtain t where t: "racing_reachable t" "ra_at t 0 = AtReturned (only 1) (Some (ans1 1))"
    "ra_at t 1 = AtInsert (args_only 2)" "ra_heap t 1 = None"
    using racing_insert [OF s, of 0 1 0] by (auto simp: no_racing_def)
  obtain u where u: "racing_reachable u" "ra_at u 0 = AtReturned (only 1) (Some (ans1 1))"
    "ra_at u 1 = AtReturned (only 2) (Some (ans1 2))"
    using racing_insert [OF t(1,3,4)] t(2) by auto
  with racing_answers_were_proposed [OF u(1,3)] show ?thesis by fastforce
qed

end
