(* ===== verification/Spec2Isabelle.thy ===== *)
theory Spec2Isabelle
  imports Monitoring RacingResolve
begin

text \<open>
  \<^bold>\<open>zeus-gslb: a model of the DNS responder and what is proved of it\<close>

  The program (Go, \<^verbatim>\<open>src/\<close>) serves one DNS zone out of a decision bundle held in memory.
  The bundle comes from a file that is polled, or is fetched from the Zeus API at boot and again on
  server-sent events or polls; the last good one is cached on disk. Beside it the process probes the
  backends of its own cluster, keeps a health state per target, reports transitions to Zeus, and lets
  that health decide among a record's candidates; changes of an answer are damped.

  \<^bold>\<open>Theories and the code they model.\<close>
  \<^item> \<open>Prelude\<close>, \<open>GoJson\<close>, \<open>GoIP\<close>, \<open>GoTime\<close>: the Go types and the parts of
    the Go standard library that the source uses (64-bit integers, durations, \<open>strconv\<close>,
    \<open>encoding/json\<close>, \<open>net.ParseIP\<close>, RFC 3339 formatting), shared lemmas and the
    collections \<open>golib\<close> and \<open>comp_inv\<close>.
  \<^item> \<open>Bundle\<close> and \<open>Cache\<close>: \<^verbatim>\<open>internal/bundle/bundle.go\<close>, the structs with their
    JSON decoding, validation, the index by name, and the atomic cache write as a trace of system
    calls, each of which may fail or be the last before a crash.
  \<^item> \<open>Store\<close> and \<open>BootFetch\<close>: \<^verbatim>\<open>store.go\<close> and \<^verbatim>\<open>boot_fetch.go\<close>, boot,
    hot reload, the swap, and the fetch loop with its fallback.
  \<^item> \<open>Machine\<close>, \<open>Prober\<close>, \<open>ChecksRunner\<close>: \<^verbatim>\<open>internal/checks\<close>, the health
    state machine, the probes and the EndpointSlice count, the deduplicating scheduler.
  \<^item> \<open>Damper\<close>, \<open>Evaluator\<close>, \<open>Handler\<close>: \<^verbatim>\<open>internal/dnsserver\<close>, flap damping,
    the candidate walk, and the DNS handler. \<open>ConcurrentResolve\<close>: calls of
    \<open>Resolve\<close> that overlap, as a step relation over the sections between its two locks.
    \<open>RacingResolve\<close>: the same with the damper's call, which holds no lock, taken apart into its
    single accesses to the map and to the entries behind its pointers.
  \<^item> \<open>Backoff\<close>, \<open>Client\<close>, \<open>Sse\<close>, \<open>RemoteRunner\<close>, \<open>Reporter\<close>:
    \<^verbatim>\<open>internal/remote\<close>, retry delays, HTTP client and report bodies, the event stream, the
    subscribe and poll loop, and the health reporter with its goroutines as a step relation.
  \<^item> \<open>Flags\<close> and \<open>Startup\<close>: the command line, the decisions and the exit status of
    \<^verbatim>\<open>cmd/zeus-gslb/main.go\<close>, the lazily started lister, whose start fails, succeeds or
    blocks, and the listeners of \<^verbatim>\<open>server.go\<close>.
  \<^item> \<open>System\<close>: the running process as the composition of the above, its steps and its
    reachable states. A pass that blocks in the start of the lister is begun in one step and goes on
    in a later one, if its wait ends; queries, reports and bundle changes run meanwhile.
  \<^item> \<open>Service\<close>: what the process promises, as an abstract service with observable events,
    and the refinement between the two.
  \<^item> \<open>Monitoring\<close>: the checks goroutine and the reporter goroutine interleaved, as a finer step
    relation than that of \<open>System\<close>.

  \<^bold>\<open>Interfaces.\<close> \<open>Interfaces\<close> states the contracts between packages as locales. The
  store gives \<open>served_store\<close> and \<open>fetch_store\<close> (facts \<open>st\<close>, \<open>ws\<close>), the machine
  \<open>local_health\<close> and \<open>health_table\<close> (\<open>mh\<close>, \<open>mt\<close>), the damper
  \<open>answer_damper\<close> (\<open>ad\<close>), the lister \<open>endpoint_lister\<close> (\<open>kl\<close>), the backoff
  functions \<open>retry_delay\<close> and \<open>capped_delay\<close> (\<open>boot_wait\<close>, \<open>reconnect_wait\<close>,
  \<open>report_wait\<close>). The clients' lemmas use those facts only. \<open>Service\<close> adds the contract of
  a refinement, \<open>simulation\<close>, with the process as its instance (\<open>sv\<close>).

  \<^bold>\<open>What the properties show.\<close> The process implements the abstract service, run by run,
  as long as queries, passes and reports do not overlap (\<open>Service\<close>). When passes and reports
  overlap, every transition announced is still in exactly one place: in a round that was delivered, in
  one that was dropped, or on its way; and the states of a report are never behind the transitions
  told, and can be ahead of them (\<open>Monitoring\<close>). Served addresses come from validated bundles that
  were in force, a lister that cannot start fails the targets that need it, and one whose informer
  does not sync stops the checks of all targets (\<open>System\<close>); a server failure is exactly the absence of a servable address and every other
  outcome of a query is characterised (\<open>Handler\<close>, \<open>Evaluator\<close>); a failed backend that is being
  served leaves the answers at once where the code forces the move, as long as calls do not overlap,
  and the case where it does not is proved as well (\<open>Evaluator\<close>, \<open>System\<close>); overlapping calls
  still serve only what a walk of the same name proposed (\<open>RacingResolve\<close>), but they can lose an
  active backend and they race on the damper's map (\<open>ConcurrentResolve\<close>); damping
  admits at most three unforced changes per window (\<open>Damper\<close>); the machine decides by the most
  recent streak that reached its threshold (\<open>Machine\<close>), and within a computed time
  (\<open>ChecksRunner\<close>); a crash at any point of a cache write leaves the old or the new bundle
  (\<open>Cache\<close>); a valid file put in place is served from the next
  poll on (\<open>Store\<close>); no notified transition is lost, reordered or left without a wake-up
  (\<open>Reporter\<close>); the stream, poll and retry loops keep the store valid, end their rounds, and wait
  as computed (\<open>Sse\<close>, \<open>RemoteRunner\<close>, \<open>Backoff\<close>); the exit status tells a refused start
  from a failed listener and a signal (\<open>Startup\<close>).

  \<^bold>\<open>Environment and bounds.\<close> The clock, the network, the file system's outcomes and the
  interference of other processes are arguments; no operation invents them. Loops are structural or
  carry a termination proof (\<open>send_loop\<close>, the JSON lexer), so nothing runs on fuel; the IPv6 loop
  counts the eight groups that fit. Loops that run until the context is done are functions of the
  finite list of events they meet. A callback, a refetch and a probe take the time the environment
  gives them, and the timers and tickers go on meanwhile. Where Go iterates a map, the order is an
  argument; where \<open>select\<close> finds two cases ready at one instant, the choice is an argument too
  (\<open>Sse\<close>, \<open>RemoteRunner\<close>). The methods that run under a mutex are atomic steps; \<open>System\<close>
  takes a whole query, pass or report as one step, \<open>ConcurrentResolve\<close>, \<open>RacingResolve\<close> and
  \<open>Monitoring\<close> take them apart, and what holds only without overlap says so. The rounds of
  reports are ghost fields that carry how each round ended.

  \<^bold>\<open>Not modelled.\<close> Log output; signals, except as the cancelled context; sockets, HTTP transport
  and the client-go informer, which are dependencies seen through their results; the DNS library, a
  parameter (\<open>dns_lib\<close>) of which \<open>clean_reply\<close> states what the handler relies on; case
  folding beyond ASCII. What a program does after a data race has no meaning in the Go memory model:
  the race is shown to be reachable, and the interleavings studied are those in which each access to
  memory takes effect as a whole, one after the other; that a race may also tear a slice or that the
  runtime may end the process is outside the model. The counters of the health machine are
  unbounded integers. The reporter's waits are summed but its steps are untimed. Tests,
  build and release files hold no program logic.
\<close>

end
